(* ===== verification/Prelude.thy ===== *)
theory Prelude
  imports Main "HOL-Library.Word"
begin

text \<open>
  Shared vocabulary of the development: the machine types of \<^verbatim>\<open>src/kernel/types.h\<close>, the
  outcome of a kernel routine that may panic or block, the state monad in which the stateful
  routines are written, and the generic facts on linear table scans that the slot allocators
  of the kernel (\<^verbatim>\<open>filealloc\<close>, \<^verbatim>\<open>fdalloc\<close>, \<^verbatim>\<open>vma_alloc\<close>, \<^verbatim>\<open>allocproc\<close>,
  \<^verbatim>\<open>alloc_desc\<close>, \<^verbatim>\<open>iget\<close>) share.
\<close>

unbundle bit_operations_syntax

named_theorems kmon_defs \<open>definitions of the monad combinators\<close>

subsection \<open>Machine types\<close>

type_synonym u8 = "8 word"
type_synonym u16 = "16 word"
type_synonym u32 = "32 word"
type_synonym u64 = "64 word"

subsection \<open>Outcomes and the kernel monad\<close>

text \<open>
  \<open>Panic\<close> is a call of \<^verbatim>\<open>panic()\<close>, which never returns; \<open>Sleep\<close> is a call of
  \<^verbatim>\<open>sleep()\<close> on the named channel in a sequential run, where nobody else can wake the
  caller; \<open>Fault\<close> is an access through a null pointer or past the end of an array.
\<close>

datatype kerr = Panic string | Sleep string | Fault string

type_synonym ('s, 'a) kmon = "'s \<Rightarrow> kerr + 'a \<times> 's"

definition kret :: "'a \<Rightarrow> ('s, 'a) kmon" where
  [kmon_defs]: "kret x = (\<lambda>s. Inr (x, s))"

definition kbind :: "('s, 'a) kmon \<Rightarrow> ('a \<Rightarrow> ('s, 'b) kmon) \<Rightarrow> ('s, 'b) kmon" where
  [kmon_defs]: "kbind m f = (\<lambda>s. case m s of Inl e \<Rightarrow> Inl e | Inr (x, s') \<Rightarrow> f x s')"

definition kseq :: "('s, 'a) kmon \<Rightarrow> ('s, 'b) kmon \<Rightarrow> ('s, 'b) kmon" where
  [kmon_defs]: "kseq m n = kbind m (\<lambda>_. n)"

definition kfail :: "kerr \<Rightarrow> ('s, 'a) kmon" where
  [kmon_defs]: "kfail e = (\<lambda>s. Inl e)"

definition panic :: "string \<Rightarrow> ('s, 'a) kmon" where
  [kmon_defs]: "panic msg = kfail (Panic msg)"

definition kget :: "('s \<Rightarrow> 'a) \<Rightarrow> ('s, 'a) kmon" where
  [kmon_defs]: "kget f = (\<lambda>s. Inr (f s, s))"

definition kmodify :: "('s \<Rightarrow> 's) \<Rightarrow> ('s, unit) kmon" where
  [kmon_defs]: "kmodify f = (\<lambda>s. Inr ((), f s))"

definition kwhen :: "bool \<Rightarrow> ('s, unit) kmon \<Rightarrow> ('s, unit) kmon" where
  [kmon_defs]: "kwhen c m = (if c then m else kret ())"

text \<open>A \<^verbatim>\<open>for\<close> loop over the elements of a list, in order.\<close>

primrec kfor :: "'x list \<Rightarrow> ('x \<Rightarrow> ('s, unit) kmon) \<Rightarrow> ('s, unit) kmon" where
  "kfor [] f = kret ()"
| "kfor (x # xs) f = kseq (f x) (kfor xs f)"

subsection \<open>Linear scans of tables\<close>

text \<open>
  \<^verbatim>\<open>for(p = tab; p < &tab[N]; p++) if(cond) return p;\<close> as the index of the first hit.
\<close>

fun find_from :: "('a \<Rightarrow> bool) \<Rightarrow> nat \<Rightarrow> 'a list \<Rightarrow> nat option" where
  "find_from P i [] = None"
| "find_from P i (x # xs) = (if P x then Some i else find_from P (Suc i) xs)"

abbreviation find_slot :: "('a \<Rightarrow> bool) \<Rightarrow> 'a list \<Rightarrow> nat option" where
  "find_slot P xs \<equiv> find_from P 0 xs"

subsection \<open>Bounds of machine words\<close>

lemma unat_bound: "unat (w :: 'a::len word) < 2 ^ LENGTH('a)"
  by (rule unsigned_less)

lemma unat_u8: "unat (w :: u8) < 256"
  using unat_bound[of w] by simp

lemma unat_u16: "unat (w :: u16) < 65536"
  using unat_bound[of w] by simp

lemma unat_u32: "unat (w :: u32) < 4294967296"
  using unat_bound[of w] by simp

lemma unat_u64: "unat (w :: u64) < 18446744073709551616"
  using unat_bound[of w] by simp

lemma unat_ucast_u32_u64 [simp]: "unat (ucast (w :: u32) :: u64) = unat w"
  using unat_u32[of w] by (simp add: unsigned_ucast_eq take_bit_nat_eq_self)

lemma uint_inject_iff [simp]: "uint a = uint b \<longleftrightarrow> a = b" for a b :: "'a::len word"
  by (simp add: word_uint_eq_iff)

subsection \<open>Facts on the monad\<close>

lemma kbind_Inr [simp]:
  "kbind m f s = Inr y \<longleftrightarrow> (\<exists>x s'. m s = Inr (x, s') \<and> f x s' = Inr y)"
  by (auto simp: kbind_def split: sum.splits)

lemma kseq_Inr [simp]:
  "kseq m n s = Inr y \<longleftrightarrow> (\<exists>x s'. m s = Inr (x, s') \<and> n s' = Inr y)"
  by (simp add: kseq_def)

lemma kret_Inr [simp]: "kret x s = Inr (y, t) \<longleftrightarrow> y = x \<and> t = s"
  by (auto simp: kret_def)

lemma kget_Inr [simp]: "kget f s = Inr (y, t) \<longleftrightarrow> y = f s \<and> t = s"
  by (auto simp: kget_def)

lemma kmodify_Inr [simp]: "kmodify f s = Inr (y, t) \<longleftrightarrow> t = f s"
  by (auto simp: kmodify_def)

lemma kfail_Inr [simp]: "kfail e s \<noteq> Inr y"
  by (simp add: kfail_def)

lemma panic_Inr [simp]: "panic m s \<noteq> Inr y"
  by (simp add: panic_def)

lemma kwhen_Inr [simp]:
  "kwhen c m s = Inr (y, t) \<longleftrightarrow> (if c then m s = Inr (y, t) else t = s)"
  by (auto simp: kwhen_def)

lemma kbind_assoc: "kbind (kbind m f) g = kbind m (\<lambda>x. kbind (f x) g)"
  by (auto simp: kbind_def fun_eq_iff split: sum.splits)

lemma kfor_snoc: "kfor (xs @ [x]) f s = kseq (kfor xs f) (f x) s"
  by (induction xs arbitrary: s) (auto simp: kmon_defs split: sum.split)

text \<open>A property that every iteration keeps is kept by the loop.\<close>

lemma kfor_invariant:
  assumes step: "\<And>x s u t. x \<in> set xs \<Longrightarrow> I s \<Longrightarrow> f x s = Inr (u, t) \<Longrightarrow> I t"
    and run: "kfor xs f s = Inr (u, t)" and init: "I s"
  shows "I t"
  using assms
proof (induction xs arbitrary: s)
  case Nil
  then show ?case by simp
next
  case (Cons x xs)
  from Cons.prems(2) obtain v s' where f: "f x s = Inr (v, s')" and k: "kfor xs f s' = Inr (u, t)"
    by auto
  have "I s'" using Cons.prems(1)[OF _ Cons.prems(3) f] by simp
  with k show ?case by (intro Cons.IH[OF Cons.prems(1)]) auto
qed

subsection \<open>Facts on scans\<close>

lemma find_from_Some_iff:
  "find_from P k xs = Some i \<longleftrightarrow>
     (\<exists>j < length xs. i = k + j \<and> P (xs ! j) \<and> (\<forall>l < j. \<not> P (xs ! l)))"
proof (induction xs arbitrary: k)
  case Nil
  then show ?case by simp
next
  case (Cons x xs)
  show ?case
  proof (cases "P x")
    case True
    then show ?thesis by (auto simp: less_Suc_eq_0_disj nth_Cons')
  next
    case False
    have "(\<exists>j < length (x # xs). i = k + j \<and> P ((x # xs) ! j) \<and> (\<forall>l < j. \<not> P ((x # xs) ! l)))
      \<longleftrightarrow> (\<exists>j < length xs. i = Suc k + j \<and> P (xs ! j) \<and> (\<forall>l < j. \<not> P (xs ! l)))"
      (is "?L \<longleftrightarrow> ?R")
    proof
      assume ?L
      then obtain j where j: "j < length (x # xs)" "i = k + j" "P ((x # xs) ! j)"
        "\<forall>l < j. \<not> P ((x # xs) ! l)" by blast
      with False obtain j' where "j = Suc j'" by (cases j) auto
      with j show ?R by (intro exI[of _ j']) auto
    next
      assume ?R
      then obtain j where j: "j < length xs" "i = Suc k + j" "P (xs ! j)" "\<forall>l < j. \<not> P (xs ! l)"
        by blast
      with False show ?L by (intro exI[of _ "Suc j"]) (auto simp: less_Suc_eq_0_disj)
    qed
    with False Cons.IH[of "Suc k"] show ?thesis by simp
  qed
qed

lemma find_slot_Some_iff:
  "find_slot P xs = Some i \<longleftrightarrow> i < length xs \<and> P (xs ! i) \<and> (\<forall>l < i. \<not> P (xs ! l))"
  by (auto simp: find_from_Some_iff)

lemma find_slot_SomeD:
  assumes "find_slot P xs = Some i"
  shows "i < length xs" "P (xs ! i)" "\<And>l. l < i \<Longrightarrow> \<not> P (xs ! l)"
  using assms by (auto simp: find_slot_Some_iff)

lemma find_from_None_iff: "find_from P k xs = None \<longleftrightarrow> (\<forall>x \<in> set xs. \<not> P x)"
  by (induction xs arbitrary: k) auto

lemma find_slot_exists: "i < length xs \<Longrightarrow> P (xs ! i) \<Longrightarrow> \<exists>j. find_slot P xs = Some j"
  by (metis find_from_None_iff nth_mem option.exhaust)

text \<open>A table sum splits at one slot; used for the ticket and reference counts.\<close>

lemma sum_list_map_split:
  fixes f :: "'a \<Rightarrow> 'b::comm_monoid_add"
  assumes "i < length xs"
  shows "sum_list (map f xs) = f (xs ! i) + sum_list (map f (take i xs @ drop (Suc i) xs))"
proof -
  have "sum_list (map f xs) = sum_list (map f (take i xs @ xs ! i # drop (Suc i) xs))"
    using id_take_nth_drop[OF assms] by simp
  then show ?thesis by (simp add: ac_simps)
qed

lemma sum_list_map_update:
  fixes f :: "'a \<Rightarrow> 'b::ab_group_add"
  assumes "i < length xs"
  shows "sum_list (map f (xs[i := y])) = sum_list (map f xs) - f (xs ! i) + f y"
proof -
  have "sum_list (map f (xs[i := y])) = f y + sum_list (map f (take i xs @ drop (Suc i) xs))"
    using sum_list_map_split[of i "xs[i := y]" f] assms by simp
  with sum_list_map_split[OF assms, of f] show ?thesis by (simp add: algebra_simps)
qed

end
