(* ===== verification/Riscv.thy ===== *)
theory Riscv
  imports Prelude
begin

text \<open>
  The address arithmetic of \<^verbatim>\<open>src/kernel/riscv.h\<close>, \<^verbatim>\<open>src/kernel/memlayout.h\<close> and
  \<^verbatim>\<open>src/kernel/param.h\<close>: page rounding, the Sv39 index fields of a virtual address, the
  packing of a physical page number and flag bits into a page-table entry, the interrupt bit
  of \<^verbatim>\<open>sstatus\<close>, and the constants the kernel is configured with. The lemmas relate each
  bit trick to its arithmetic meaning and show when it loses information.
\<close>

subsection \<open>Configuration (param.h)\<close>

abbreviation (input) NPROC :: nat where "NPROC \<equiv> 64"
abbreviation (input) NCPU :: nat where "NCPU \<equiv> 8"
abbreviation (input) NOFILE :: nat where "NOFILE \<equiv> 16"
abbreviation (input) NFILE :: nat where "NFILE \<equiv> 100"
abbreviation (input) NINODE :: nat where "NINODE \<equiv> 50"
abbreviation (input) NDEV :: nat where "NDEV \<equiv> 10"
abbreviation (input) ROOTDEV :: u32 where "ROOTDEV \<equiv> 1"
abbreviation (input) MAXARG :: nat where "MAXARG \<equiv> 32"
abbreviation (input) MAXOPBLOCKS :: nat where "MAXOPBLOCKS \<equiv> 10"
abbreviation (input) LOGSIZE :: nat where "LOGSIZE \<equiv> 30"
abbreviation (input) NBUF :: nat where "NBUF \<equiv> 30"
abbreviation (input) FSSIZE :: nat where "FSSIZE \<equiv> 1000"
abbreviation (input) MAXPATH :: nat where "MAXPATH \<equiv> 128"
abbreviation (input) MINTICKETS :: int where "MINTICKETS \<equiv> 1"
abbreviation (input) NVMA :: nat where "NVMA \<equiv> 8192"

subsection \<open>Pages and page-table entries (riscv.h)\<close>

abbreviation (input) PGSIZE :: u64 where "PGSIZE \<equiv> 4096"

definition PGROUNDUP :: "u64 \<Rightarrow> u64" where
  "PGROUNDUP sz = (sz + PGSIZE - 1) AND NOT (PGSIZE - 1)"

definition PGROUNDDOWN :: "u64 \<Rightarrow> u64" where
  "PGROUNDDOWN a = a AND NOT (PGSIZE - 1)"

abbreviation (input) PTE_V :: u64 where "PTE_V \<equiv> 1"
abbreviation (input) PTE_R :: u64 where "PTE_R \<equiv> 2"
abbreviation (input) PTE_W :: u64 where "PTE_W \<equiv> 4"
abbreviation (input) PTE_X :: u64 where "PTE_X \<equiv> 8"
abbreviation (input) PTE_U :: u64 where "PTE_U \<equiv> 16"

definition PA2PTE :: "u64 \<Rightarrow> u64" where
  "PA2PTE pa = push_bit 10 (drop_bit 12 pa)"

definition PTE2PA :: "u64 \<Rightarrow> u64" where
  "PTE2PA pte = push_bit 12 (drop_bit 10 pte)"

definition PTE_FLAGS :: "u64 \<Rightarrow> u64" where
  "PTE_FLAGS pte = pte AND 0x3FF"

definition PXSHIFT :: "nat \<Rightarrow> nat" where
  "PXSHIFT level = 12 + 9 * level"

definition PX :: "nat \<Rightarrow> u64 \<Rightarrow> u64" where
  "PX level va = drop_bit (PXSHIFT level) va AND 0x1FF"

definition MAXVA :: u64 where
  "MAXVA = push_bit (9 + 9 + 9 + 12 - 1) 1"

definition MAKE_SATP :: "u64 \<Rightarrow> u64" where
  "MAKE_SATP pagetable = push_bit 60 8 OR drop_bit 12 pagetable"

subsection \<open>Interrupt enable bit (riscv.h)\<close>

abbreviation (input) SSTATUS_SPP :: u64 where "SSTATUS_SPP \<equiv> 256"
abbreviation (input) SSTATUS_SPIE :: u64 where "SSTATUS_SPIE \<equiv> 32"
abbreviation (input) SSTATUS_SIE :: u64 where "SSTATUS_SIE \<equiv> 2"

definition intr_on :: "u64 \<Rightarrow> u64" where
  "intr_on sstatus = sstatus OR SSTATUS_SIE"

definition intr_off :: "u64 \<Rightarrow> u64" where
  "intr_off sstatus = sstatus AND NOT SSTATUS_SIE"

definition intr_get :: "u64 \<Rightarrow> bool" where
  "intr_get sstatus = (sstatus AND SSTATUS_SIE \<noteq> 0)"

subsection \<open>Memory layout (memlayout.h)\<close>

abbreviation (input) UART0 :: u64 where "UART0 \<equiv> 0x10000000"
abbreviation (input) VIRTIO0 :: u64 where "VIRTIO0 \<equiv> 0x10001000"
abbreviation (input) PLIC :: u64 where "PLIC \<equiv> 0x0c000000"
abbreviation (input) KERNBASE :: u64 where "KERNBASE \<equiv> 0x80000000"
abbreviation (input) PHYSTOP :: u64 where "PHYSTOP \<equiv> KERNBASE + 128 * 1024 * 1024"

definition TRAMPOLINE :: u64 where
  "TRAMPOLINE = MAXVA - PGSIZE"

definition KSTACK :: "nat \<Rightarrow> u64" where
  "KSTACK p = TRAMPOLINE - (of_nat p + 1) * 2 * PGSIZE"

definition TRAPFRAME :: u64 where
  "TRAPFRAME = TRAMPOLINE - PGSIZE"

subsection \<open>Bits of the constants\<close>

lemma mask12: "(PGSIZE - 1 :: u64) = mask 12"
  by (simp add: mask_eq_exp_minus_1)

lemma mask10: "(0x3FF :: u64) = mask 10"
  by (simp add: mask_eq_exp_minus_1)

lemma mask9: "(0x1FF :: u64) = mask 9"
  by (simp add: mask_eq_exp_minus_1)

lemma MAXVA_val [simp]: "MAXVA = 0x4000000000"
  by (simp add: MAXVA_def push_bit_eq_mult)

subsection \<open>Page rounding\<close>

text \<open>A page-aligned address, the argument the page-table code wants.\<close>

definition page_aligned :: "u64 \<Rightarrow> bool" where
  "page_aligned a = (a AND mask 12 = 0)"

lemma page_aligned_unat: "page_aligned a \<longleftrightarrow> unat a mod 4096 = 0"
  unfolding page_aligned_def and_mask_dvd_nat[symmetric] by (simp add: dvd_eq_mod_eq_0)

lemma PGROUNDDOWN_shift: "PGROUNDDOWN a = push_bit 12 (drop_bit 12 a)"
  unfolding PGROUNDDOWN_def mask12
  by (rule bit_word_eqI) (auto simp: bit_simps)

lemma PGROUNDDOWN_unat: "unat (PGROUNDDOWN a) = unat a - unat a mod 4096"
proof -
  have "PGROUNDDOWN a + take_bit 12 a = a"
    by (simp add: PGROUNDDOWN_shift bits_ident)
  then have "PGROUNDDOWN a = a - take_bit 12 a"
    by (simp add: algebra_simps)
  moreover have "take_bit 12 a \<le> a"
    by (simp add: word_le_nat_alt unsigned_take_bit_eq)
  ultimately have "unat (PGROUNDDOWN a) = unat a - unat (take_bit 12 a)"
    by (simp add: unat_sub)
  moreover have "unat (take_bit 12 a) = unat a mod 4096"
    by (subst unsigned_take_bit_eq) (simp add: take_bit_eq_mod)
  ultimately show ?thesis by simp
qed

lemma PGROUNDDOWN_aligned [simp]: "page_aligned (PGROUNDDOWN a)"
  by (simp add: page_aligned_unat PGROUNDDOWN_unat minus_mod_eq_mult_div)

lemma PGROUNDDOWN_id: "page_aligned a \<Longrightarrow> PGROUNDDOWN a = a"
  by (metis PGROUNDDOWN_unat diff_zero page_aligned_unat word_unat_eq_iff)

lemma PGROUNDDOWN_le: "PGROUNDDOWN a \<le> a"
  by (simp add: word_le_nat_alt PGROUNDDOWN_unat)

lemma PGROUNDDOWN_offset: "unat (a - PGROUNDDOWN a) = unat a mod 4096"
  by (simp add: unat_sub[OF PGROUNDDOWN_le] PGROUNDDOWN_unat)

lemma PGROUNDUP_down: "PGROUNDUP sz = PGROUNDDOWN (sz + 4095)"
  by (simp add: PGROUNDUP_def PGROUNDDOWN_def add.commute)

text \<open>Rounding up is right exactly as long as the addition does not wrap around.\<close>

lemma PGROUNDUP_unat:
  assumes "unat sz + 4095 < 2 ^ 64"
  shows "unat (PGROUNDUP sz) = (unat sz + 4095) div 4096 * 4096"
proof -
  have "unat (sz + 4095) = unat sz + 4095"
    using assms by (subst unat_add_lem[THEN iffD1]) auto
  then show ?thesis
    by (simp add: PGROUNDUP_down PGROUNDDOWN_unat minus_mod_eq_div_mult)
qed

lemma PGROUNDUP_aligned [simp]: "page_aligned (PGROUNDUP sz)"
  by (simp add: PGROUNDUP_down)

lemma PGROUNDUP_wraps: "unat sz + 4095 \<ge> 2 ^ 64 \<Longrightarrow> PGROUNDUP sz = 0"
proof -
  assume "unat sz + 4095 \<ge> 2 ^ 64"
  moreover have "unat sz < 2 ^ 64" using unsigned_less[of sz] by simp
  ultimately have "unat (sz + 4095) < 4096"
    by (simp add: unat_word_ariths le_mod_geq)
  then show ?thesis
    by (simp add: PGROUNDUP_down word_unat_eq_iff PGROUNDDOWN_unat)
qed

subsection \<open>Page-table entries\<close>

text \<open>
  Packing a page address and flags, and reading either back. Bits 54 and up of a physical
  address do not fit into an entry, hence the bound.
\<close>

lemma PTE2PA_PA2PTE:
  assumes "page_aligned pa" and "pa < 2 ^ 56" and "perm < 2 ^ 10"
  shows "PTE2PA (PA2PTE pa OR perm) = pa"
proof (rule bit_word_eqI)
  fix n assume n: "n < LENGTH(64)"
  have lo: "\<not> bit pa n" if "n < 12"
    using arg_cong[OF assms(1)[unfolded page_aligned_def], of "\<lambda>w. bit w n"] that n
    by (simp add: bit_simps)
  have hi: "\<not> bit pa n" if "56 \<le> n"
    using assms(2) that n
    by (metis (full_types) bit_take_bit_iff leD less_mask_eq take_bit_eq_mask linorder_not_less)
  have pm: "\<not> bit perm m" if "10 \<le> m" for m
    using assms(3) that by (metis bit_take_bit_iff less_mask_eq take_bit_eq_mask leD)
  have pn: "\<not> bit perm (n - Suc (Suc 0))" if "\<not> n < 12"
    using pm[of "n - 2"] that by (simp add: numeral_2_eq_2)
  show "bit (PTE2PA (PA2PTE pa OR perm)) n = bit pa n"
  proof (cases "n < 12")
    case True
    with lo n show ?thesis by (simp add: PTE2PA_def bit_simps)
  next
    case False
    with pn hi n show ?thesis
      by (cases "56 \<le> n") (auto simp: PTE2PA_def PA2PTE_def bit_simps numeral_2_eq_2)
  qed
qed

lemma PTE_FLAGS_PA2PTE:
  assumes "perm < 2 ^ 10"
  shows "PTE_FLAGS (PA2PTE pa OR perm) = perm"
proof -
  have "take_bit 10 perm = perm"
    using assms less_mask_eq[of perm 10] by (simp add: take_bit_eq_mask)
  moreover have "take_bit 10 (PA2PTE pa) = 0"
    by (simp add: PA2PTE_def take_bit_push_bit)
  ultimately show ?thesis
    unfolding PTE_FLAGS_def mask10 take_bit_eq_mask[symmetric] take_bit_or by simp
qed

lemma PA2PTE_flag_bits:
  assumes "f AND mask 10 = f"
  shows "(PA2PTE pa OR perm) AND f = perm AND f"
proof (rule bit_word_eqI)
  fix n assume n: "n < LENGTH(64)"
  have "bit f n \<Longrightarrow> n < 10"
    using arg_cong[OF assms, of "\<lambda>w. bit w n"] n by (auto simp: bit_simps)
  then show "bit ((PA2PTE pa OR perm) AND f) n = bit (perm AND f) n"
    by (auto simp: PA2PTE_def bit_simps)
qed

subsection \<open>Index fields of a virtual address\<close>

lemma PX_unat: "unat (PX level va) = unat va div 2 ^ (12 + 9 * level) mod 512"
proof -
  have "unat (PX level va) = unat (take_bit 9 (drop_bit (PXSHIFT level) va))"
    by (simp add: PX_def mask9 take_bit_eq_mask)
  also have "\<dots> = take_bit 9 (drop_bit (PXSHIFT level) (unat va))"
    by (subst unsigned_take_bit_eq) (simp add: unat_drop_bit_eq)
  finally show ?thesis
    by (simp add: take_bit_eq_mod drop_bit_eq_div PXSHIFT_def)
qed

lemma PX012_unat:
  "unat (PX 0 va) = unat va div 2 ^ 12 mod 512"
  "unat (PX 1 va) = unat va div 2 ^ 21 mod 512"
  "unat (PX 2 va) = unat va div 2 ^ 30 mod 512"
  by (simp_all add: PX_unat)

lemma PX_less: "unat (PX level va) < 512"
  by (simp add: PX_unat)

text \<open>The three indices determine a page-aligned address below \<open>MAXVA\<close>.\<close>

lemma PX_inject:
  assumes al: "page_aligned a" "page_aligned b" and lt: "a < MAXVA" "b < MAXVA"
    and px: "PX 0 a = PX 0 b" "PX 1 a = PX 1 b" "PX 2 a = PX 2 b"
  shows "a = b"
proof -
  have glue: "x = ((v * 512 + u) * 512 + r) * 4096"
    if "x = p * 4096" "p = q * 512 + r" "q = t * 512 + u" "v = t" for x p q r t u v :: nat
    using that by simp
  have split: "x = ((x div 2 ^ 30 mod 512 * 512 + x div 2 ^ 21 mod 512) * 512
      + x div 2 ^ 12 mod 512) * 4096" if "x mod 4096 = 0" "x < 2 ^ 39" for x :: nat
  proof -
    have "x = x div 2 ^ 12 * 4096" using that(1) by (simp add: mod_0_imp_dvd)
    moreover have "x div 2 ^ 12 = x div 2 ^ 21 * 512 + x div 2 ^ 12 mod 512"
      using div_mult_mod_eq[of "x div 2 ^ 12" 512] div_mult2_eq[of x "2 ^ 12" 512] by simp
    moreover have "x div 2 ^ 21 = x div 2 ^ 30 * 512 + x div 2 ^ 21 mod 512"
      using div_mult_mod_eq[of "x div 2 ^ 21" 512] div_mult2_eq[of x "2 ^ 21" 512] by simp
    moreover have "x div 2 ^ 30 mod 512 = x div 2 ^ 30"
      using that(2) by (intro mod_less) (simp add: less_mult_imp_div_less)
    ultimately show ?thesis by (rule glue)
  qed
  have px': "unat a div 2 ^ 12 mod 512 = unat b div 2 ^ 12 mod 512"
    "unat a div 2 ^ 21 mod 512 = unat b div 2 ^ 21 mod 512"
    "unat a div 2 ^ 30 mod 512 = unat b div 2 ^ 30 mod 512"
    by (simp_all only: px flip: PX012_unat)
  have la: "unat a < 2 ^ 39" and lb: "unat b < 2 ^ 39"
    using lt by (simp_all add: word_less_nat_alt)
  have ma: "unat a mod 4096 = 0" and mb: "unat b mod 4096 = 0"
    using al by (simp_all add: page_aligned_unat)
  have "unat a = unat b"
    by (rule trans[OF split[OF ma la, unfolded px'] split[OF mb lb, symmetric]])
  then show ?thesis by (simp add: word_unat_eq_iff)
qed

subsection \<open>Interrupt enable bit\<close>

lemma intr_get_on [simp]: "intr_get (intr_on x)"
proof -
  have "bit (intr_on x AND SSTATUS_SIE) 1" by (simp add: intr_on_def bit_simps)
  then show ?thesis unfolding intr_get_def by (metis bit_0_eq bot_apply bot_bool_def)
qed

lemma intr_get_off [simp]: "\<not> intr_get (intr_off x)"
  by (simp add: intr_get_def intr_off_def and.assoc)

subsection \<open>Layout facts\<close>

lemma TRAMPOLINE_val: "TRAMPOLINE = 0x3FFFFFF000"
  by (simp add: TRAMPOLINE_def)

lemma TRAPFRAME_val: "TRAPFRAME = 0x3FFFFFE000"
  by (simp add: TRAPFRAME_def TRAMPOLINE_val)

text \<open>
  Every kernel stack is a page of its own below the trampoline, and the page under it (its
  guard page) is neither a stack nor the trampoline.
\<close>

lemma KSTACK_unat:
  assumes "p < NPROC"
  shows "unat (KSTACK p) = 0x3FFFFFF000 - (p + 1) * 8192"
proof -
  define w where "w = (of_nat ((p + 1) * 8192) :: u64)"
  have K: "KSTACK p = 0x3FFFFFF000 - w"
    by (simp add: KSTACK_def TRAMPOLINE_val w_def algebra_simps)
  have w: "unat w = (p + 1) * 8192"
    using assms unfolding w_def by (subst unat_of_nat) simp
  have "w \<le> 0x3FFFFFF000"
    using assms by (simp add: word_le_nat_alt w)
  then show ?thesis
    unfolding K by (subst unat_sub) (simp_all add: w)
qed

end
