(* ===== verification/KString.thy ===== *)
theory KString
  imports Prelude
begin

text \<open>
  The byte-string routines of \<^verbatim>\<open>src/kernel/string.c\<close>. Routines that may be called on
  overlapping or shared storage (\<^verbatim>\<open>memset\<close>, \<^verbatim>\<open>memmove\<close>, \<^verbatim>\<open>memcpy\<close>) act on the
  byte-addressed memory; they return their destination pointer, which is an argument already,
  so the model returns the new memory only. Routines that only read, and the copying routines
  whose buffers are disjoint, see a buffer as the function from offset to byte that starts at
  the pointer. Loops count a \<^typ>\<open>nat\<close> down; \<^verbatim>\<open>strlen\<close> has no bound of its own and may
  run past every buffer, so it is a partial function.
\<close>

type_synonym memory = "u64 \<Rightarrow> u8"
type_synonym cbuf = "nat \<Rightarrow> u8"

text \<open>The buffer that starts at an address of the memory.\<close>

definition at_mem :: "memory \<Rightarrow> u64 \<Rightarrow> cbuf" where
  "at_mem m p = (\<lambda>i. m (p + of_nat i))"

subsection \<open>memset, memmove, memcpy\<close>

fun memset_loop :: "u64 \<Rightarrow> u8 \<Rightarrow> nat \<Rightarrow> nat \<Rightarrow> memory \<Rightarrow> memory" where
  "memset_loop cdst c i 0 m = m"
| "memset_loop cdst c i (Suc n) m = memset_loop cdst c (Suc i) n (m(cdst + of_nat i := c))"

definition memset :: "u64 \<Rightarrow> u32 \<Rightarrow> u32 \<Rightarrow> memory \<Rightarrow> memory" where
  "memset dst c n m = memset_loop dst (ucast c) 0 (unat n) m"

fun copy_up :: "u64 \<Rightarrow> u64 \<Rightarrow> nat \<Rightarrow> memory \<Rightarrow> memory" where
  "copy_up d s 0 m = m"
| "copy_up d s (Suc n) m = copy_up (d + 1) (s + 1) n (m(d := m s))"

fun copy_down :: "u64 \<Rightarrow> u64 \<Rightarrow> nat \<Rightarrow> memory \<Rightarrow> memory" where
  "copy_down d s 0 m = m"
| "copy_down d s (Suc n) m = copy_down (d - 1) (s - 1) n (m(d - 1 := m (s - 1)))"

definition memmove :: "u64 \<Rightarrow> u64 \<Rightarrow> u32 \<Rightarrow> memory \<Rightarrow> memory" where
  "memmove dst src n m =
     (if n = 0 then m
      else if src < dst \<and> src + ucast n > dst
      then copy_down (dst + ucast n) (src + ucast n) (unat n) m
      else copy_up dst src (unat n) m)"

definition memcpy :: "u64 \<Rightarrow> u64 \<Rightarrow> u32 \<Rightarrow> memory \<Rightarrow> memory" where
  "memcpy dst src n m = memmove dst src n m"

subsection \<open>Comparison\<close>

fun memcmp :: "cbuf \<Rightarrow> cbuf \<Rightarrow> nat \<Rightarrow> int" where
  "memcmp s1 s2 0 = 0"
| "memcmp s1 s2 (Suc n) =
     (if s1 0 \<noteq> s2 0 then uint (s1 0) - uint (s2 0)
      else memcmp (\<lambda>i. s1 (Suc i)) (\<lambda>i. s2 (Suc i)) n)"

fun strncmp :: "cbuf \<Rightarrow> cbuf \<Rightarrow> nat \<Rightarrow> int" where
  "strncmp p q 0 = 0"
| "strncmp p q (Suc n) =
     (if p 0 \<noteq> 0 \<and> p 0 = q 0 then strncmp (\<lambda>i. p (Suc i)) (\<lambda>i. q (Suc i)) n
      else uint (p 0) - uint (q 0))"

subsection \<open>Copying strings\<close>

text \<open>
  The first loop of \<^verbatim>\<open>strncpy\<close> copies up to and including the terminator, the second
  pads; \<open>i\<close> is how far \<^verbatim>\<open>s\<close> and \<^verbatim>\<open>t\<close> have advanced.
\<close>

fun strncpy_pad :: "cbuf \<Rightarrow> nat \<Rightarrow> nat \<Rightarrow> cbuf" where
  "strncpy_pad s i 0 = s"
| "strncpy_pad s i (Suc n) = strncpy_pad (s(i := 0)) (Suc i) n"

fun strncpy_loop :: "cbuf \<Rightarrow> cbuf \<Rightarrow> nat \<Rightarrow> nat \<Rightarrow> cbuf" where
  "strncpy_loop s t i 0 = s"
| "strncpy_loop s t i (Suc n) =
     (if t i \<noteq> 0 then strncpy_loop (s(i := t i)) t (Suc i) n
      else strncpy_pad (s(i := t i)) (Suc i) n)"

definition strncpy :: "cbuf \<Rightarrow> cbuf \<Rightarrow> int \<Rightarrow> cbuf" where
  "strncpy s t n = strncpy_loop s t 0 (nat n)"

text \<open>
  \<^verbatim>\<open>while(--n > 0 && ...)\<close>: the counter is decremented before it is tested, so the loop
  below is entered with \<open>n - 1\<close>.
\<close>

fun safestrcpy_loop :: "cbuf \<Rightarrow> cbuf \<Rightarrow> nat \<Rightarrow> nat \<Rightarrow> cbuf" where
  "safestrcpy_loop s t i 0 = s(i := 0)"
| "safestrcpy_loop s t i (Suc n) =
     (if t i \<noteq> 0 then safestrcpy_loop (s(i := t i)) t (Suc i) n
      else (s(i := t i))(Suc i := 0))"

definition safestrcpy :: "cbuf \<Rightarrow> cbuf \<Rightarrow> int \<Rightarrow> cbuf" where
  "safestrcpy s t n = (if n \<le> 0 then s else safestrcpy_loop s t 0 (nat (n - 1)))"

subsection \<open>strlen\<close>

partial_function (option) strlen_from :: "cbuf \<Rightarrow> nat \<Rightarrow> nat option" where
  "strlen_from s n = (if s n \<noteq> 0 then strlen_from s (Suc n) else Some n)"

definition strlen :: "cbuf \<Rightarrow> nat option" where
  "strlen s = strlen_from s 0"

subsection \<open>Closed forms of the loops\<close>

lemma memset_loop_apply:
  assumes "i + n \<le> 2 ^ 64"
  shows "memset_loop d c i n m a = (if i \<le> unat (a - d) \<and> unat (a - d) < i + n then c else m a)"
  using assms
proof (induction d c i n m rule: memset_loop.induct)
  case (1 cdst c i m)
  then show ?case by auto
next
  case (2 cdst c i n m)
  have i: "i < 2 ^ 64" using "2.prems" by simp
  have "a = cdst + of_nat i \<longleftrightarrow> unat (a - cdst) = i"
  proof
    assume "a = cdst + of_nat i"
    with i show "unat (a - cdst) = i" by (simp add: unat_of_nat)
  next
    assume "unat (a - cdst) = i"
    then have "of_nat i = a - cdst" by auto
    then show "a = cdst + of_nat i" by simp
  qed
  moreover have "memset_loop cdst c (Suc i) n (m(cdst + of_nat i := c)) a =
    (if Suc i \<le> unat (a - cdst) \<and> unat (a - cdst) < Suc i + n then c
     else (m(cdst + of_nat i := c)) a)"
    by (rule "2.IH") (use "2.prems" in simp)
  ultimately show ?case by auto
qed

lemma memset_apply:
  "memset d c n m a = (if unat (a - d) < unat n then ucast c else m a)"
proof -
  have "0 + unat n \<le> 2 ^ 64" using unat_u32[of n] by simp
  from memset_loop_apply[OF this] show ?thesis by (simp add: memset_def)
qed

lemma copy_up_apply:
  assumes "unat s + n \<le> 2 ^ 64" "unat d + n \<le> 2 ^ 64" and "d \<le> s \<or> unat s + n \<le> unat d"
  shows "copy_up d s n m a = (if unat (a - d) < n then m (s + (a - d)) else m a)"
  using assms
proof (induction d s n m rule: copy_up.induct)
  case (1 d s m)
  then show ?case by simp
next
  case (2 d s n m)
  show ?case
  proof (cases n)
    case 0
    have "unat (a - d) < 1 \<longleftrightarrow> a = d" by (auto simp: unat_0_iff)
    with 0 show ?thesis by auto
  next
    case (Suc k)
    have s1: "unat (s + 1) = unat s + 1" and d1: "unat (d + 1) = unat d + 1"
      using "2.prems" Suc by (simp_all add: unat_word_ariths)
    have ih: "copy_up (d + 1) (s + 1) n (m(d := m s)) a =
      (if unat (a - (d + 1)) < n then (m(d := m s)) (s + 1 + (a - (d + 1))) else (m(d := m s)) a)"
      by (rule "2.IH") (use "2.prems" in \<open>auto simp: s1 d1 word_le_nat_alt\<close>)
    have eq: "s + 1 + (a - (d + 1)) = s + (a - d)" by simp
    show ?thesis
    proof (cases "a = d")
      case True
      then have "unat (a - (d + 1)) = 2 ^ 64 - 1" by (simp add: unsigned_minus_1_eq_mask mask_eq_exp_minus_1)
      with True ih "2.prems" Suc show ?thesis by simp
    next
      case False
      then have pos: "0 < unat (a - d)" by (simp add: unat_gt_0)
      then have sub: "unat (a - (d + 1)) = unat (a - d) - 1"
        using unat_minus_one[of "a - d"] False by (simp add: algebra_simps)
      have ne: "s + (a - d) \<noteq> d" if "unat (a - d) < Suc n"
      proof -
        have "unat (s + (a - d)) = unat s + unat (a - d)"
          using that "2.prems"(1) by (simp add: unat_word_ariths)
        moreover have "unat d \<noteq> unat s + unat (a - d)"
          using that pos "2.prems"(3) by (auto simp: word_le_nat_alt)
        ultimately show ?thesis by metis
      qed
      from ih eq sub pos ne False show ?thesis by auto
    qed
  qed
qed

lemma copy_down_apply:
  assumes "unat s + n < 2 ^ 64" "unat d + n < 2 ^ 64" and "s \<le> d"
  shows "copy_down (d + of_nat n) (s + of_nat n) n m a =
    (if unat (a - d) < n then m (s + (a - d)) else m a)"
  using assms
proof (induction n arbitrary: m)
  case 0
  then show ?case by simp
next
  case (Suc n)
  have step: "copy_down (d + of_nat (Suc n)) (s + of_nat (Suc n)) (Suc n) m a =
      copy_down (d + of_nat n) (s + of_nat n) n (m(d + of_nat n := m (s + of_nat n))) a"
    by (simp add: algebra_simps)
  have ih: "copy_down (d + of_nat n) (s + of_nat n) n (m(d + of_nat n := m (s + of_nat n))) a =
    (if unat (a - d) < n then (m(d + of_nat n := m (s + of_nat n))) (s + (a - d))
     else (m(d + of_nat n := m (s + of_nat n))) a)"
    by (rule Suc.IH) (use Suc.prems in simp_all)
  have at: "a = d + of_nat n \<longleftrightarrow> unat (a - d) = n"
  proof
    assume "a = d + of_nat n"
    with Suc.prems show "unat (a - d) = n" by (simp add: unat_of_nat)
  next
    assume "unat (a - d) = n"
    then have "of_nat n = a - d" by auto
    then show "a = d + of_nat n" by simp
  qed
  have ne: "s + (a - d) \<noteq> d + of_nat n" if "unat (a - d) < n"
  proof -
    have "unat (s + (a - d)) = unat s + unat (a - d)" and "unat (d + of_nat n) = unat d + n"
      using that Suc.prems(1,2) by (simp_all add: unat_word_ariths unat_of_nat)
    moreover have "unat s + unat (a - d) \<noteq> unat d + n"
      using that Suc.prems(3) by (simp add: word_le_nat_alt)
    ultimately show ?thesis by metis
  qed
  have src: "m (s + (a - d)) = m (s + of_nat n)" if "unat (a - d) = n"
    by (simp flip: that)
  from step ih at ne src show ?case by (auto simp: less_Suc_eq)
qed

text \<open>
  Whatever the overlap of the two ranges, the destination receives the
  bytes the source held before the call, and nothing else changes.
\<close>

lemma memmove_apply:
  assumes "unat src + unat n < 2 ^ 64" "unat dst + unat n < 2 ^ 64"
  shows "memmove dst src n m a = (if unat (a - dst) < unat n then m (src + (a - dst)) else m a)"
proof -
  have n: "(ucast n :: u64) = of_nat (unat n)"
    by simp
  have sn: "unat (src + ucast n) = unat src + unat n"
    using assms(1) by (simp add: unat_word_ariths)
  show ?thesis
  proof (cases "src < dst \<and> src + ucast n > dst")
    case True
    then have "n \<noteq> 0" by auto
    with True have "memmove dst src n m a =
        copy_down (dst + ucast n) (src + ucast n) (unat n) m a"
      by (simp add: memmove_def)
    also have "\<dots> = (if unat (a - dst) < unat n then m (src + (a - dst)) else m a)"
      unfolding n by (rule copy_down_apply[OF assms]) (rule less_imp_le, use True in blast)
    finally show ?thesis .
  next
    case False
    then have "dst \<le> src \<or> unat src + unat n \<le> unat dst"
      using sn by (auto simp: word_le_nat_alt word_less_nat_alt)
    with False show ?thesis
      using copy_up_apply[of src "unat n" dst m a] assms by (auto simp: memmove_def)
  qed
qed

subsection \<open>Comparison and copying\<close>

text \<open>
  \<^verbatim>\<open>strncmp\<close> returns 0 exactly when the two strings agree up to their terminator or up
  to the limit, whichever comes first.
\<close>

lemma strncmp_eq_0_iff:
  "strncmp p q n = 0 \<longleftrightarrow> (\<forall>i < n. (\<forall>j < i. p j \<noteq> 0) \<longrightarrow> p i = q i)"
proof (induction n arbitrary: p q)
  case 0
  then show ?case by simp
next
  case (Suc n)
  have all: "(\<forall>i < Suc n. (\<forall>j < i. p j \<noteq> 0) \<longrightarrow> p i = q i) \<longleftrightarrow>
    p 0 = q 0 \<and> (p 0 \<noteq> 0 \<longrightarrow> (\<forall>i < n. (\<forall>j < i. p (Suc j) \<noteq> 0) \<longrightarrow> p (Suc i) = q (Suc i)))"
    by (auto simp: All_less_Suc2)
  show ?case
    unfolding all using Suc.IH[of "\<lambda>i. p (Suc i)" "\<lambda>i. q (Suc i)"] by auto
qed

lemma strncmp_refl [simp]: "strncmp p p n = 0"
  by (simp add: strncmp_eq_0_iff)

lemma memcmp_eq_0_iff: "memcmp p q n = 0 \<longleftrightarrow> (\<forall>i < n. p i = q i)"
proof (induction n arbitrary: p q)
  case 0
  then show ?case by simp
next
  case (Suc n)
  have "(\<forall>i < Suc n. p i = q i) \<longleftrightarrow> p 0 = q 0 \<and> (\<forall>i < n. p (Suc i) = q (Suc i))"
    by (auto simp: All_less_Suc2)
  with Suc.IH[of "\<lambda>i. p (Suc i)" "\<lambda>i. q (Suc i)"] show ?case by auto
qed

lemma strncpy_pad_apply:
  "strncpy_pad s i n k = (if i \<le> k \<and> k < i + n then 0 else s k)"
  by (induction n arbitrary: s i) auto

text \<open>No terminator in a range of offsets.\<close>

definition zfree :: "cbuf \<Rightarrow> nat \<Rightarrow> nat \<Rightarrow> bool" where
  "zfree t i k = (\<forall>j \<in> {i..<k}. t j \<noteq> 0)"

lemma zfree_empty: "k \<le> i \<Longrightarrow> zfree t i k"
  by (simp add: zfree_def)

lemma zfree_step: "i < k \<Longrightarrow> zfree t i k \<longleftrightarrow> t i \<noteq> 0 \<and> zfree t (Suc i) k"
  by (auto simp: zfree_def Suc_le_eq le_less)

text \<open>The source up to its terminator, zeros up to the limit, nothing beyond.\<close>

lemma strncpy_loop_apply:
  "strncpy_loop s t i n k =
     (if i \<le> k \<and> k < i + n then (if zfree t i k then t k else 0) else s k)"
proof (induction n arbitrary: s i)
  case 0
  then show ?case by auto
next
  case (Suc n)
  show ?case
  proof (cases "t i = 0")
    case True
    then show ?thesis
      by (cases "i = k") (auto simp: strncpy_pad_apply zfree_empty zfree_step)
  next
    case False
    then show ?thesis
      by (cases "i = k") (auto simp: Suc.IH zfree_empty zfree_step)
  qed
qed

lemma strncpy_apply:
  "strncpy s t n k = (if int k < n then (if zfree t 0 k then t k else 0) else s k)"
  by (auto simp: strncpy_def strncpy_loop_apply)

lemma safestrcpy_loop_outside:
  "k < i \<or> i + n < k \<Longrightarrow> safestrcpy_loop s t i n k = s k"
  by (induction n arbitrary: s i) auto

lemma safestrcpy_loop_copies:
  "i \<le> k \<Longrightarrow> k < i + n \<Longrightarrow> (\<And>j. i \<le> j \<Longrightarrow> j < k \<Longrightarrow> t j \<noteq> 0) \<Longrightarrow>
     safestrcpy_loop s t i n k = t k"
proof (induction n arbitrary: s i)
  case 0
  then show ?case by simp
next
  case (Suc n)
  show ?case
  proof (cases "k = i")
    case True
    then show ?thesis by (auto simp: safestrcpy_loop_outside)
  next
    case False
    with Suc.prems have "t i \<noteq> 0" by simp
    moreover from False Suc.prems have "safestrcpy_loop (s(i := t i)) t (Suc i) n k = t k"
      by (intro Suc.IH) auto
    ultimately show ?thesis by simp
  qed
qed

lemma safestrcpy_loop_last:
  "(\<And>j. i \<le> j \<Longrightarrow> j < i + n \<Longrightarrow> t j \<noteq> 0) \<Longrightarrow> safestrcpy_loop s t i n (i + n) = 0"
proof (induction n arbitrary: s i)
  case 0
  then show ?case by simp
next
  case (Suc n)
  then have "t i \<noteq> 0" by simp
  moreover have "safestrcpy_loop (s(i := t i)) t (Suc i) n (Suc i + n) = 0"
    by (rule Suc.IH) (use Suc.prems in auto)
  ultimately show ?case by simp
qed

text \<open>
  A C string of a buffer is the list of its bytes up to the first zero; \<^verbatim>\<open>strlen\<close>
  returns its length whenever there is a zero at all.
\<close>

lemma strlen_from_returns:
  assumes "\<forall>j. n \<le> j \<and> j < k \<longrightarrow> s j \<noteq> 0" "s k = 0" "n \<le> k"
  shows "strlen_from s n = Some k"
  using assms
proof (induction "k - n" arbitrary: n)
  case 0
  then show ?case by (subst strlen_from.simps) simp
next
  case (Suc d)
  then have "s n \<noteq> 0" and "strlen_from s (Suc n) = Some k" by auto
  then show ?case by (subst strlen_from.simps) simp
qed

lemma strlen_returns:
  assumes "\<forall>j < k. s j \<noteq> 0" "s k = 0"
  shows "strlen s = Some k"
  using strlen_from_returns[of 0 k s] assms by (simp add: strlen_def)


text \<open>
  C34: \<^verbatim>\<open>memmove\<close> copies correctly even when source and destination overlap: every byte of the destination is the byte that the source held
  before the call, and no byte outside the destination changes.
\<close>

theorem memmove_copies:
  assumes "unat src + unat n < 2 ^ 64" "unat dst + unat n < 2 ^ 64"
  shows "(i < unat n \<longrightarrow> memmove dst src n m (dst + of_nat i) = m (src + of_nat i)) \<and>
    (unat n \<le> unat (a - dst) \<longrightarrow> memmove dst src n m a = m a)"
proof -
  have "unat (of_nat i :: u64) = i" if "i < unat n" using that unat_u32[of n] by (simp add: unat_of_nat)
  then show ?thesis using memmove_apply[OF assms] by simp
qed

theorem memmove_copies_witness:
  "memmove 0x1001 0x1000 3 ((\<lambda>_. 0)(0x1000 := 7, 0x1001 := 8, 0x1002 := 9)) 0x1003 = 9"
  using memmove_copies[where src = "0x1000" and n = 3 and dst = "0x1001" and i = 2 and m = "(\<lambda>_. 0)(0x1000 := 7, 0x1001 := 8, 0x1002 := 9)"] by simp

lemma first_zero_within: "\<exists>k \<le> (n :: nat). (\<forall>j < k. t j \<noteq> (0 :: u8)) \<and> (k = n \<or> t k = 0)"
proof (induction n)
  case 0
  then show ?case by simp
next
  case (Suc n)
  obtain k where k: "k \<le> n" "\<forall>j < k. t j \<noteq> 0" "k = n \<or> t k = 0" using Suc.IH by blast
  show ?case
  proof (cases "t k = 0")
    case True
    then show ?thesis using k by (intro exI[of _ k]) simp
  next
    case False
    then show ?thesis using k by (intro exI[of _ "Suc n"]) (auto simp: less_Suc_eq)
  qed
qed

lemma safestrcpy_loop_zero:
  assumes "k < i + n" "i \<le> k" "\<forall>j. i \<le> j \<and> j < k \<longrightarrow> t j \<noteq> 0" "t k = 0"
  shows "safestrcpy_loop s t i n k = 0"
  using safestrcpy_loop_copies[of i k n t s] assms by simp

text \<open>
  C35: \<^verbatim>\<open>safestrcpy\<close> always leaves a terminated string: for a positive size it stores the longest prefix of the source string that fits into
  \<open>n - 1\<close> bytes, followed by a zero, and never writes at or beyond \<open>n\<close>.
\<close>

theorem safestrcpy_terminates_string:
  assumes "0 < n"
  shows "\<exists>k. int k < n \<and> (\<forall>j < k. t j \<noteq> 0) \<and> (int k = n - 1 \<or> t k = 0) \<and> strlen (safestrcpy s t n) = Some k \<and>
    (\<forall>j < k. safestrcpy s t n j = t j) \<and> (\<forall>j. n \<le> int j \<longrightarrow> safestrcpy s t n j = s j)"
proof -
  define m where "m = nat (n - 1)"
  have n: "n = int m + 1" using assms by (simp add: m_def)
  then have r: "safestrcpy s t n = safestrcpy_loop s t 0 m" using assms unfolding safestrcpy_def m_def by simp
  obtain k where k: "k \<le> m" "\<forall>j < k. t j \<noteq> 0" "k = m \<or> t k = 0" using first_zero_within[of m t] by blast
  have c: "\<forall>j < k. safestrcpy_loop s t 0 m j = t j" using k by (auto intro: safestrcpy_loop_copies)
  have z: "safestrcpy_loop s t 0 m k = 0"
  proof (cases "k = m")
    case True
    then show ?thesis using safestrcpy_loop_last[of 0 m t s] k(2) by simp
  next
    case False
    then show ?thesis using safestrcpy_loop_zero[of k 0 m t s] k by simp
  qed
  have "strlen (safestrcpy_loop s t 0 m) = Some k" by (rule strlen_returns) (use c k z in auto)
  moreover have "\<forall>j. n \<le> int j \<longrightarrow> safestrcpy_loop s t 0 m j = s j"
    using n by (auto intro: safestrcpy_loop_outside)
  ultimately show ?thesis using c k n unfolding r by (intro exI[of _ k]) auto
qed

theorem safestrcpy_terminates_string_witness: "\<exists>k. int k < 3 \<and> strlen (safestrcpy (\<lambda>_. 9) (\<lambda>_. 65) 3) = Some k"
  using safestrcpy_terminates_string[of 3 "\<lambda>_. 65" "\<lambda>_. 9"] by auto

end
