(* ===== verification/Ring.thy ===== *)
theory Ring
  imports Prelude
begin

text \<open>
  The ring buffers of the kernel. \<^verbatim>\<open>struct pipe\<close>, the console input buffer
  \<^verbatim>\<open>cons\<close> and the UART transmit buffer all keep a read and a write counter that only ever
  grow, wrap around at the width of the counter, and are reduced modulo the buffer size when the
  buffer is indexed. The locale \<open>ring\<close> is the contract they share: as long as the buffer size
  divides the counter range, the bytes between the two counters behave as a queue, through every
  wrap-around of the counters. It is interpreted for each of the three buffers in the theory of
  the component, and for the two rings that the disk driver shares with the device.
\<close>

text \<open>The slot of a counter, and the bytes from counter \<open>r\<close> up to counter \<open>w\<close>.\<close>

definition slot :: "nat \<Rightarrow> 'w::len word \<Rightarrow> nat" where
  "slot N c = unat c mod N"

definition ring_list :: "nat \<Rightarrow> 'a list \<Rightarrow> 'w::len word \<Rightarrow> 'w word \<Rightarrow> 'a list" where
  "ring_list N buf r w = map (\<lambda>k. buf ! slot N (r + of_nat k)) [0..<unat (w - r)]"

lemma length_ring_list [simp]: "length (ring_list N buf r w) = unat (w - r)"
  by (simp add: ring_list_def)

lemma ring_list_empty_iff [simp]: "ring_list N buf r w = [] \<longleftrightarrow> w = r"
  by (simp add: ring_list_def unat_0_iff)

locale ring =
  fixes N :: nat and counter :: "'w::len word itself"
  assumes size_pos: "0 < N"
    and size_dvd: "N dvd 2 ^ LENGTH('w)"
    and size_lt: "N < 2 ^ LENGTH('w)"
begin

lemma slot_less: "slot N (c :: 'w word) < N"
  using size_pos by (simp add: slot_def)

lemma slot_add: "slot N (c + of_nat k :: 'w word) = (unat c + k) mod N"
proof -
  have "unat (c + of_nat k) mod N = ((unat c + k mod 2 ^ LENGTH('w)) mod 2 ^ LENGTH('w)) mod N"
    by (simp add: unat_word_ariths unat_of_nat)
  also have "\<dots> = (unat c + k) mod N"
    by (metis mod_add_right_eq mod_mod_cancel[OF size_dvd])
  finally show ?thesis by (simp add: slot_def)
qed

lemma slots_differ:
  assumes "k < l" "l < k + N"
  shows "slot N (c + of_nat k :: 'w word) \<noteq> slot N (c + of_nat l)"
proof
  assume "slot N (c + of_nat k) = slot N (c + of_nat l)"
  then have "(unat c + l) mod N = (unat c + k) mod N" by (simp add: slot_add)
  then have "N dvd (unat c + l) - (unat c + k)" using assms
    by (metis add_le_cancel_left less_imp_le mod_eq_dvd_iff_nat)
  then have "N dvd l - k" by simp
  with assms show False by (auto dest: dvd_imp_le)
qed

lemma count_push:
  assumes "unat (w - r :: 'w word) < N"
  shows "unat (w + 1 - r) = Suc (unat (w - r))"
proof -
  have "unat (w - r) + 1 < 2 ^ LENGTH('w)" using assms size_lt by linarith
  then have "unat ((w - r) + 1) = unat (w - r) + 1"
    by (simp add: unat_word_ariths)
  then show ?thesis by (simp add: algebra_simps)
qed

lemma count_pop:
  assumes "w \<noteq> (r :: 'w word)"
  shows "unat (w - r) = Suc (unat (w - (r + 1)))"
proof -
  from assms have "w - r \<noteq> 0" by simp
  then have "unat ((w - r) - 1) = unat (w - r) - 1" and "unat (w - r) \<noteq> 0"
    by (simp_all add: unat_minus_one unat_0_iff)
  then show ?thesis by (simp add: algebra_simps)
qed

text \<open>Storing at the write counter appends.\<close>

lemma ring_push:
  assumes "unat (w - r :: 'w word) < N" and "length buf = N"
  shows "ring_list N (buf[slot N w := c]) r (w + 1) = ring_list N buf r w @ [c]"
proof -
  define n where "n = unat (w - r)"
  have w: "w = r + of_nat n" by (simp add: n_def)
  have old: "buf[slot N w := c] ! slot N (r + of_nat k) = buf ! slot N (r + of_nat k)" if "k < n" for k
  proof -
    have "slot N (r + of_nat k) \<noteq> slot N w"
      unfolding w using that assms(1) by (intro slots_differ) (auto simp: n_def)
    then show ?thesis by simp
  qed
  have last: "buf[slot N w := c] ! slot N (r + of_nat n) = c"
    using assms(2) slot_less[of w] by (simp flip: w)
  have "unat (w + 1 - r) = Suc n" using count_push[OF assms(1)] by (simp add: n_def)
  then have "ring_list N (buf[slot N w := c]) r (w + 1) =
      map (\<lambda>k. buf[slot N w := c] ! slot N (r + of_nat k)) ([0..<n] @ [n])"
    by (simp add: ring_list_def)
  also have "\<dots> = map (\<lambda>k. buf ! slot N (r + of_nat k)) [0..<n] @ [c]"
    using old last by simp
  finally show ?thesis by (simp add: ring_list_def n_def)
qed

text \<open>Advancing the read counter removes the oldest byte.\<close>

lemma ring_pop:
  assumes "w \<noteq> (r :: 'w word)"
  shows "ring_list N buf r w = buf ! slot N r # ring_list N buf (r + 1) w"
proof -
  have "ring_list N buf r w = map (\<lambda>k. buf ! slot N (r + of_nat k)) (0 # map Suc [0..<unat (w - (r + 1))])"
    using count_pop[OF assms] by (simp add: ring_list_def map_Suc_upt upt_conv_Cons del: upt_Suc)
  then show ?thesis by (simp add: ring_list_def algebra_simps)
qed

text \<open>Retracting the write counter drops the newest byte.\<close>

lemma ring_unpush:
  assumes "w \<noteq> (r :: 'w word)"
  shows "ring_list N buf r w = ring_list N buf r (w - 1) @ [buf ! slot N (w - 1)]"
proof -
  define n where "n = unat (w - 1 - r)"
  have n: "unat (w - r) = Suc n"
  proof -
    from assms have "w - r \<noteq> 0" by simp
    then have "unat ((w - r) - 1) = unat (w - r) - 1" and "unat (w - r) \<noteq> 0"
      by (simp_all add: unat_minus_one unat_0_iff)
    then show ?thesis by (simp add: n_def algebra_simps)
  qed
  have "r + of_nat n = w - 1" by (simp add: n_def)
  then show ?thesis by (simp add: ring_list_def n n_def[symmetric])
qed

end

end
