(* ===== verification/Pipe.thy ===== *)
theory Pipe
  imports Ring
begin

text \<open>
  Pipes, \<^verbatim>\<open>src/kernel/pipe.c\<close>. A call of \<^verbatim>\<open>sleep\<close> ends the modelled call with
  \<open>Blocks\<close>, carrying the channel and the loop counter with which the loop is entered again
  after the wake-up; the channels woken on the way are returned as a list. User memory is
  reached through the routines \<^verbatim>\<open>copyin\<close> and \<^verbatim>\<open>copyout\<close> of the caller's page table,
  which are arguments here (they may allocate pages, so they pass a state on). The lock of the
  pipe makes each run between two calls of \<^verbatim>\<open>sleep\<close> atomic; concurrent use is the step
  relation \<open>pipe_step\<close>.
\<close>

subsection \<open>State and operations\<close>

abbreviation (input) PIPESIZE :: nat where "PIPESIZE \<equiv> 512"

record pipe =
  pi_data :: "u8 list"
  pi_nread :: u32
  pi_nwrite :: u32
  pi_readopen :: bool
  pi_writeopen :: bool

datatype pchan = Ch_nread | Ch_nwrite

datatype presult = Returns int | Blocks pchan int

type_synonym 's copyin1 = "u64 \<Rightarrow> 's \<Rightarrow> u8 option \<times> 's"
type_synonym 's copyout1 = "u64 \<Rightarrow> u8 \<Rightarrow> 's \<Rightarrow> bool \<times> 's"

text \<open>The initialisation that \<^verbatim>\<open>pipealloc\<close> performs on a fresh page.\<close>

definition pipe_init :: "u8 list \<Rightarrow> pipe" where
  "pipe_init page =
     \<lparr>pi_data = page, pi_nread = 0, pi_nwrite = 0, pi_readopen = True, pi_writeopen = True\<rparr>"

text \<open>Returns the new pipe, the channel woken, and whether the page is given to \<^verbatim>\<open>kfree\<close>.\<close>

definition pipeclose :: "pipe \<Rightarrow> bool \<Rightarrow> pipe \<times> pchan \<times> bool" where
  "pipeclose pi writable =
     (let (pi', ch) = (if writable then (pi\<lparr>pi_writeopen := False\<rparr>, Ch_nread)
                       else (pi\<lparr>pi_readopen := False\<rparr>, Ch_nwrite))
      in (pi', ch, \<not> pi_readopen pi' \<and> \<not> pi_writeopen pi'))"

function pipewrite_loop ::
  "'s copyin1 \<Rightarrow> bool \<Rightarrow> u64 \<Rightarrow> int \<Rightarrow> int \<Rightarrow> pipe \<Rightarrow> 's \<Rightarrow> presult \<times> pchan list \<times> pipe \<times> 's" where
  "pipewrite_loop copyin killed addr n i pi s =
     (if i < n then
        (if \<not> pi_readopen pi \<or> killed then (Returns (-1), [], pi, s)
         else if pi_nwrite pi = pi_nread pi + of_nat PIPESIZE
         then (Blocks Ch_nwrite i, [Ch_nread], pi, s)
         else (case copyin (addr + of_int i) s of
                 (None, s') \<Rightarrow> (Returns i, [Ch_nread], pi, s')
               | (Some ch, s') \<Rightarrow>
                   pipewrite_loop copyin killed addr n (i + 1)
                     (pi\<lparr>pi_data := (pi_data pi)[slot PIPESIZE (pi_nwrite pi) := ch],
                         pi_nwrite := pi_nwrite pi + 1\<rparr>) s'))
      else (Returns i, [Ch_nread], pi, s))"
  by pat_completeness auto
termination
  by (relation "measure (\<lambda>(_, _, _, n, i, _, _). nat (n - i))") auto

definition pipewrite ::
  "'s copyin1 \<Rightarrow> bool \<Rightarrow> pipe \<Rightarrow> u64 \<Rightarrow> int \<Rightarrow> 's \<Rightarrow> presult \<times> pchan list \<times> pipe \<times> 's" where
  "pipewrite copyin killed pi addr n s = pipewrite_loop copyin killed addr n 0 pi s"

function piperead_loop ::
  "'s copyout1 \<Rightarrow> u64 \<Rightarrow> int \<Rightarrow> int \<Rightarrow> pipe \<Rightarrow> 's \<Rightarrow> int \<times> pipe \<times> 's" where
  "piperead_loop copyout addr n i pi s =
     (if i < n then
        (if pi_nread pi = pi_nwrite pi then (i, pi, s)
         else (let ch = pi_data pi ! slot PIPESIZE (pi_nread pi);
                   pi' = pi\<lparr>pi_nread := pi_nread pi + 1\<rparr>
               in case copyout (addr + of_int i) ch s of
                    (False, s') \<Rightarrow> (i, pi', s')
                  | (True, s') \<Rightarrow> piperead_loop copyout addr n (i + 1) pi' s'))
      else (i, pi, s))"
  by pat_completeness auto
termination
  by (relation "measure (\<lambda>(_, _, n, i, _, _). nat (n - i))") auto

definition piperead ::
  "'s copyout1 \<Rightarrow> bool \<Rightarrow> pipe \<Rightarrow> u64 \<Rightarrow> int \<Rightarrow> 's \<Rightarrow> presult \<times> pchan list \<times> pipe \<times> 's" where
  "piperead copyout killed pi addr n s =
     (if pi_nread pi = pi_nwrite pi \<and> pi_writeopen pi then
        (if killed then (Returns (-1), [], pi, s) else (Blocks Ch_nread 0, [], pi, s))
      else case piperead_loop copyout addr n 0 pi s of
             (i, pi', s') \<Rightarrow> (Returns i, [Ch_nwrite], pi', s'))"

declare pipewrite_loop.simps [simp del] piperead_loop.simps [simp del]

subsection \<open>Contents and invariant\<close>

definition pipe_contents :: "pipe \<Rightarrow> u8 list" where
  "pipe_contents pi = ring_list PIPESIZE (pi_data pi) (pi_nread pi) (pi_nwrite pi)"

definition pipe_inv :: "pipe \<Rightarrow> bool" where
  "pipe_inv pi \<longleftrightarrow> length (pi_data pi) = PIPESIZE \<and> unat (pi_nwrite pi - pi_nread pi) \<le> PIPESIZE"

interpretation pring: ring PIPESIZE "TYPE(32 word)"
proof unfold_locales
  have "(2 :: nat) ^ 32 = 512 * 2 ^ 23" by simp
  then show "PIPESIZE dvd 2 ^ LENGTH(32)" by simp
qed simp_all

lemma pipe_contents_length:
  "length (pipe_contents pi) = unat (pi_nwrite pi - pi_nread pi)"
  by (simp add: pipe_contents_def)

text \<open>The full test of \<^verbatim>\<open>pipewrite\<close> means what it says, also after a wrap-around.\<close>

lemma pipe_full_iff:
  "pipe_inv pi \<Longrightarrow> pi_nwrite pi = pi_nread pi + 512 \<longleftrightarrow> length (pipe_contents pi) = PIPESIZE"
proof -
  have "pi_nwrite pi = pi_nread pi + 512 \<longleftrightarrow> pi_nwrite pi - pi_nread pi = 512"
    by (auto simp: algebra_simps)
  also have "\<dots> \<longleftrightarrow> unat (pi_nwrite pi - pi_nread pi) = 512"
    by (simp add: word_unat_eq_iff)
  finally show ?thesis by (simp add: pipe_contents_length)
qed

definition pipe_put :: "u8 \<Rightarrow> pipe \<Rightarrow> pipe" where
  "pipe_put ch pi = pi\<lparr>pi_data := (pi_data pi)[slot PIPESIZE (pi_nwrite pi) := ch],
                       pi_nwrite := pi_nwrite pi + 1\<rparr>"

lemma pipe_put_spec:
  assumes "pipe_inv pi" "pi_nwrite pi \<noteq> pi_nread pi + 512"
  shows "pipe_inv (pipe_put ch pi)"
    and "pipe_contents (pipe_put ch pi) = pipe_contents pi @ [ch]"
    and "pi_readopen (pipe_put ch pi) = pi_readopen pi"
    and "pi_writeopen (pipe_put ch pi) = pi_writeopen pi"
proof -
  have lt: "unat (pi_nwrite pi - pi_nread pi) < PIPESIZE"
    using assms pipe_full_iff[OF assms(1)] by (auto simp: pipe_inv_def pipe_contents_length)
  have len: "length (pi_data pi) = PIPESIZE"
    using assms(1) by (simp add: pipe_inv_def)
  show "pipe_inv (pipe_put ch pi)"
    using pring.count_push[OF lt] lt len by (simp add: pipe_inv_def pipe_put_def)
  show "pipe_contents (pipe_put ch pi) = pipe_contents pi @ [ch]"
    using pring.ring_push[OF lt len] by (simp add: pipe_contents_def pipe_put_def)
qed (simp_all add: pipe_put_def)

lemma pipe_take_spec:
  assumes "pipe_inv pi" "pi_nread pi \<noteq> pi_nwrite pi"
  shows "pipe_inv (pi\<lparr>pi_nread := pi_nread pi + 1\<rparr>)"
    and "pipe_contents pi = pi_data pi ! slot PIPESIZE (pi_nread pi) #
           pipe_contents (pi\<lparr>pi_nread := pi_nread pi + 1\<rparr>)"
proof -
  from assms(2) have ne: "pi_nwrite pi \<noteq> pi_nread pi" by simp
  show "pipe_inv (pi\<lparr>pi_nread := pi_nread pi + 1\<rparr>)"
    using pring.count_pop[OF ne] assms(1) by (simp add: pipe_inv_def)
  show "pipe_contents pi = pi_data pi ! slot PIPESIZE (pi_nread pi) #
      pipe_contents (pi\<lparr>pi_nread := pi_nread pi + 1\<rparr>)"
    using pring.ring_pop[OF ne] by (simp add: pipe_contents_def)
qed

subsection \<open>Writing\<close>

text \<open>The bytes that \<open>k\<close> successful calls of \<^verbatim>\<open>copyin\<close> from offset \<open>i\<close> on return.\<close>

fun fetch :: "'s copyin1 \<Rightarrow> u64 \<Rightarrow> int \<Rightarrow> nat \<Rightarrow> 's \<Rightarrow> (u8 list \<times> 's) option" where
  "fetch copyin addr i 0 s = Some ([], s)"
| "fetch copyin addr i (Suc k) s =
     (case copyin (addr + of_int i) s of
        (None, s') \<Rightarrow> None
      | (Some b, s') \<Rightarrow> map_option (\<lambda>(bs, t). (b # bs, t)) (fetch copyin addr (i + 1) k s'))"

text \<open>What one run of the write loop may end with, given the bytes \<open>bs\<close> it appended.\<close>

definition write_outcome ::
  "'s copyin1 \<Rightarrow> bool \<Rightarrow> u64 \<Rightarrow> int \<Rightarrow> int \<Rightarrow> pipe \<Rightarrow> pipe \<Rightarrow> u8 list \<Rightarrow> 's \<Rightarrow> presult \<Rightarrow> bool" where
  "write_outcome copyin killed addr n i pi pi' bs t r =
     (case r of
        Returns k \<Rightarrow>
          k = -1 \<and> bs = [] \<and> i < n \<and> (killed \<or> \<not> pi_readopen pi)
          \<or> k = i + int (length bs) \<and> k \<le> max i n \<and> (n \<le> k \<or> fst (copyin (addr + of_int k) t) = None)
      | Blocks ch k \<Rightarrow>
          ch = Ch_nwrite \<and> k = i + int (length bs) \<and> k < n \<and>
          length (pipe_contents pi') = PIPESIZE)"

lemma pipewrite_loop_spec:
  assumes "pipe_inv pi" and "pipewrite_loop copyin killed addr n i pi s = (r, wk, pi', s')"
  shows "pipe_inv pi' \<and> (\<exists>bs t. pipe_contents pi' = pipe_contents pi @ bs \<and>
     fetch copyin addr i (length bs) s = Some (bs, t) \<and>
     write_outcome copyin killed addr n i pi pi' bs t r)"
  using assms
proof (induction "nat (n - i)" arbitrary: i pi s)
  case 0
  then show ?case
    by (auto simp: pipewrite_loop.simps write_outcome_def intro!: exI[of _ "[]"])
next
  case (Suc d)
  then have lt: "i < n" by simp
  have d: "d = nat (n - (i + 1))" using Suc.hyps(2) by simp
  note run0 = Suc.prems(2)[unfolded pipewrite_loop.simps[of copyin killed addr n i pi s]]
  consider (stop) "\<not> pi_readopen pi \<or> killed"
    | (full) "pi_readopen pi" "\<not> killed" "pi_nwrite pi = pi_nread pi + 512"
    | (go) "pi_readopen pi" "\<not> killed" "pi_nwrite pi \<noteq> pi_nread pi + 512"
    by blast
  then show ?case
  proof cases
    case stop
    with Suc.prems(1) run0 lt show ?thesis
      by (auto simp: write_outcome_def intro!: exI[of _ "[]"])
  next
    case full
    with Suc.prems(1) run0 lt show ?thesis
      using pipe_full_iff[OF Suc.prems(1)]
      by (auto simp: write_outcome_def intro!: exI[of _ "[]"])
  next
    case go
    show ?thesis
    proof (cases "copyin (addr + of_int i) s")
      case (Pair och s1)
      show ?thesis
      proof (cases och)
        case None
        with Suc.prems(1) run0 lt go Pair show ?thesis
          by (auto simp: write_outcome_def intro!: exI[of _ "[]"])
      next
        case (Some ch)
        let ?pi = "pipe_put ch pi"
        have run: "pipewrite_loop copyin killed addr n (i + 1) ?pi s1 = (r, wk, pi', s')"
          using run0 lt go Pair Some by (simp add: pipe_put_def)
        note put = pipe_put_spec[OF Suc.prems(1) go(3), of ch]
        from Suc.hyps(1)[OF d put(1) run]
        obtain bs t where inv: "pipe_inv pi'"
          and bs: "pipe_contents pi' = pipe_contents ?pi @ bs"
            "fetch copyin addr (i + 1) (length bs) s1 = Some (bs, t)"
            "write_outcome copyin killed addr n (i + 1) ?pi pi' bs t r"
          by auto
        have "r \<noteq> Returns (-1) \<or> bs \<noteq> [] \<or> \<not> (killed \<or> \<not> pi_readopen ?pi)"
          using go put(3) by simp
        with bs go(1,2) put(3) lt have "write_outcome copyin killed addr n i pi pi' (ch # bs) t r"
          by (auto simp: write_outcome_def algebra_simps max_def split: presult.splits if_splits)
        with inv bs put(2) Pair Some show ?thesis
          by (intro conjI exI[of _ "ch # bs"] exI[of _ t]) auto
      qed
    qed
  qed
qed

subsection \<open>Reading\<close>

fun deliver :: "'s copyout1 \<Rightarrow> u64 \<Rightarrow> int \<Rightarrow> u8 list \<Rightarrow> 's \<Rightarrow> 's option" where
  "deliver copyout addr i [] s = Some s"
| "deliver copyout addr i (b # bs) s =
     (case copyout (addr + of_int i) b s of
        (False, s') \<Rightarrow> None
      | (True, s') \<Rightarrow> deliver copyout addr (i + 1) bs s')"

text \<open>
  The read loop delivers a prefix of the contents in order. When \<^verbatim>\<open>copyout\<close> fails, the
  byte it was called with has left the pipe already and is lost.
\<close>

lemma piperead_loop_spec:
  assumes "pipe_inv pi" and "piperead_loop copyout addr n i pi s = (k, pi', s')" and "i \<le> n"
  shows "pipe_inv pi' \<and> (\<exists>bs lost t. pipe_contents pi = bs @ lost @ pipe_contents pi' \<and>
     k = i + int (length bs) \<and> deliver copyout addr i bs s = Some t \<and>
     (lost = [] \<and> s' = t \<and> (k = n \<or> pipe_contents pi' = []) \<or>
      (\<exists>b. lost = [b] \<and> copyout (addr + of_int k) b t = (False, s') \<and> k < n)))"
  using assms
proof (induction "nat (n - i)" arbitrary: i pi s)
  case 0
  then show ?case by (auto simp: piperead_loop.simps)
next
  case (Suc d)
  then have lt: "i < n" by simp
  have d: "d = nat (n - (i + 1))" using Suc.hyps(2) by simp
  note run0 = Suc.prems(2)[unfolded piperead_loop.simps[of copyout addr n i pi s]]
  show ?case
  proof (cases "pi_nread pi = pi_nwrite pi")
    case True
    then have "pipe_contents pi = []" by (simp add: pipe_contents_def)
    with True Suc.prems(1) run0 lt show ?thesis by auto
  next
    case False
    let ?ch = "pi_data pi ! slot PIPESIZE (pi_nread pi)"
    let ?pi = "pi\<lparr>pi_nread := pi_nread pi + 1\<rparr>"
    note tk = pipe_take_spec[OF Suc.prems(1) False]
    obtain ok s1 where co: "copyout (addr + of_int i) ?ch s = (ok, s1)" by fastforce
    show ?thesis
    proof (cases ok)
      case False
      with \<open>pi_nread pi \<noteq> pi_nwrite pi\<close> co run0 lt tk show ?thesis
        by (auto simp: Let_def intro!: exI[of _ "[]"])
    next
      case True
      with \<open>pi_nread pi \<noteq> pi_nwrite pi\<close> co run0 lt
      have run: "piperead_loop copyout addr n (i + 1) ?pi s1 = (k, pi', s')"
        by (simp add: Let_def)
      from lt have le: "i + 1 \<le> n" by simp
      from Suc.hyps(1)[OF d tk(1) run le]
      obtain bs lost t where inv: "pipe_inv pi'"
        and bs: "pipe_contents ?pi = bs @ lost @ pipe_contents pi'"
          "k = i + 1 + int (length bs)" "deliver copyout addr (i + 1) bs s1 = Some t"
          "lost = [] \<and> s' = t \<and> (k = n \<or> pipe_contents pi' = []) \<or>
           (\<exists>b. lost = [b] \<and> copyout (addr + of_int k) b t = (False, s') \<and> k < n)"
        by auto
      show ?thesis
        using inv bs tk(2) co True
        by (intro conjI exI[of _ "?ch # bs"] exI[of _ lost] exI[of _ t]) auto
    qed
  qed
qed

subsection \<open>Any interleaving of readers and writers\<close>

text \<open>
  The system is the pipe together with two histories: the bytes that writers have handed over
  and the bytes that readers have received. A writer may be any process at any point of its
  loop (counter \<open>i\<close>, source memory \<open>rd\<close>), a reader any process; each step is one run
  between two calls of \<^verbatim>\<open>sleep\<close>, which the pipe's lock makes atomic.
\<close>

definition progress :: "presult \<Rightarrow> int" where
  "progress r = (case r of Returns k \<Rightarrow> k | Blocks _ k \<Rightarrow> k)"

definition handed :: "(u64 \<Rightarrow> u8) \<Rightarrow> u64 \<Rightarrow> int \<Rightarrow> presult \<Rightarrow> u8 list" where
  "handed rd addr i r = map (\<lambda>j. rd (addr + of_int j)) [i..progress r - 1]"

inductive pipe_step :: "pipe \<times> u8 list \<times> u8 list \<Rightarrow> pipe \<times> u8 list \<times> u8 list \<Rightarrow> bool" where
  step_write: "0 \<le> i \<Longrightarrow>
     pipewrite_loop (\<lambda>a u. (Some (rd a), u)) killed addr n i pi () = (r, wk, pi', u) \<Longrightarrow>
     pipe_step (pi, sent, rcvd) (pi', sent @ handed rd addr i r, rcvd)"
| step_read: "0 \<le> n \<Longrightarrow>
     piperead (\<lambda>a ch log. (True, log @ [ch])) killed pi addr n rcvd = (r, wk, pi', rcvd') \<Longrightarrow>
     pipe_step (pi, sent, rcvd) (pi', sent, rcvd')"
| step_close: "pipeclose pi writable = (pi', ch, freed) \<Longrightarrow>
     pipe_step (pi, sent, rcvd) (pi', sent, rcvd)"

inductive pipe_run :: "pipe \<times> u8 list \<times> u8 list \<Rightarrow> bool" where
  run_init: "length page = PIPESIZE \<Longrightarrow> pipe_run (pipe_init page, [], [])"
| run_step: "pipe_run st \<Longrightarrow> pipe_step st st' \<Longrightarrow> pipe_run st'"

inductive_cases pipe_stepE: "pipe_step (pi, sent, rcvd) st'"

lemma fetch_total:
  "fetch (\<lambda>a u. (Some (rd a), u)) addr i k u = Some (map (\<lambda>j. rd (addr + of_int j)) [i..i + int k - 1], u)"
proof (induction k arbitrary: i)
  case 0
  then show ?case by simp
next
  case (Suc k)
  have "[i..i + int (Suc k) - 1] = i # [i + 1..(i + 1) + int k - 1]"
    by (subst upto_rec1) (auto simp: algebra_simps)
  then show ?case by (simp add: Suc.IH[of "i + 1"])
qed

lemma deliver_log:
  "deliver (\<lambda>a ch log. (True, log @ [ch])) addr i bs log = Some (log @ bs)"
  by (induction bs arbitrary: i log) auto

lemma write_step_appends:
  assumes "pipe_inv pi" "0 \<le> i"
    and "pipewrite_loop (\<lambda>a u. (Some (rd a), u)) killed addr n i pi () = (r, wk, pi', u)"
  shows "pipe_inv pi' \<and> pipe_contents pi' = pipe_contents pi @ handed rd addr i r"
proof -
  from pipewrite_loop_spec[OF assms(1,3)] obtain bs t where inv: "pipe_inv pi'"
    and c: "pipe_contents pi' = pipe_contents pi @ bs"
    and f: "fetch (\<lambda>a u. (Some (rd a), u)) addr i (length bs) () = Some (bs, t)"
    and w: "write_outcome (\<lambda>a u. (Some (rd a), u)) killed addr n i pi pi' bs t r" by auto
  have bs: "bs = map (\<lambda>j. rd (addr + of_int j)) [i..i + int (length bs) - 1]"
    using f by (simp add: fetch_total)
  have "progress r = i + int (length bs) \<or> progress r = -1 \<and> bs = []"
    using w by (auto simp: write_outcome_def progress_def split: presult.splits)
  then have "handed rd addr i r = bs"
    using bs assms(2) by (auto simp: handed_def)
  with inv c show ?thesis by simp
qed

lemma read_step_takes:
  assumes "pipe_inv pi" "0 \<le> n"
    and "piperead (\<lambda>a ch log. (True, log @ [ch])) killed pi addr n rcvd = (r, wk, pi', rcvd')"
  shows "pipe_inv pi' \<and> rcvd @ pipe_contents pi = rcvd' @ pipe_contents pi'"
proof (cases "pi_nread pi = pi_nwrite pi \<and> pi_writeopen pi")
  case True
  with assms show ?thesis by (auto simp: piperead_def split: if_splits)
next
  case False
  then obtain k where "piperead_loop (\<lambda>a ch log. (True, log @ [ch])) addr n 0 pi rcvd = (k, pi', rcvd')"
    using assms(3) by (auto simp: piperead_def split: prod.splits)
  from piperead_loop_spec[OF assms(1) this assms(2)] show ?thesis
    by (auto simp: deliver_log)
qed

lemma pipe_step_inv:
  assumes "pipe_step (pi, sent, rcvd) (pi', sent', rcvd')"
    and "pipe_inv pi" and "sent = rcvd @ pipe_contents pi"
  shows "pipe_inv pi' \<and> sent' = rcvd' @ pipe_contents pi'"
  using assms(1)
proof (cases rule: pipe_step.cases)
  case (step_write i rd killed addr n r wk u)
  with write_step_appends[OF assms(2)] assms(3) show ?thesis by auto
next
  case (step_read n killed addr r wk)
  with read_step_takes[OF assms(2)] assms(3) show ?thesis by auto
next
  case (step_close writable ch freed)
  with assms(2,3) show ?thesis
    by (auto simp: pipeclose_def pipe_inv_def pipe_contents_def split: if_splits)
qed

lemma pipe_run_inv:
  "pipe_run st \<Longrightarrow> (case st of (pi, sent, rcvd) \<Rightarrow> pipe_inv pi \<and> sent = rcvd @ pipe_contents pi)"
proof (induction rule: pipe_run.induct)
  case (run_init page)
  then show ?case by (simp add: pipe_init_def pipe_inv_def pipe_contents_def)
next
  case (run_step st st')
  obtain pi sent rcvd pi' sent' rcvd' where st: "st = (pi, sent, rcvd)" "st' = (pi', sent', rcvd')"
    by (metis prod_cases3)
  show ?case
    using pipe_step_inv[of pi sent rcvd pi' sent' rcvd'] run_step.hyps(2) run_step.IH
    unfolding st prod.case by blast
qed

subsection \<open>Properties\<close>




lemma pipe_init_inv: "length page = PIPESIZE \<Longrightarrow> pipe_inv (pipe_init page)"
  by (simp add: pipe_init_def pipe_inv_def)

lemma pipewrite_one:
  "pipewrite (\<lambda>a u. (Some (7 :: u8), u)) False (pipe_init (replicate 512 0)) 0 1 () =
     (Returns 1, [Ch_nread], pipe_put 7 (pipe_init (replicate 512 0)), ())"
  unfolding pipewrite_def
  by (subst pipewrite_loop.simps, subst pipewrite_loop.simps) (simp add: pipe_init_def pipe_put_def)


text \<open>
  C16: A call of \<^verbatim>\<open>piperead\<close> that finds data returns the number of bytes it delivered, in
  order, and stops early only when the pipe is empty or \<^verbatim>\<open>copyout\<close> fails; in the latter
  case one more byte than it reports has left the pipe.
\<close>

theorem piperead_delivers:
  assumes "pipe_inv pi" and "pipe_contents pi \<noteq> []" and "0 \<le> n"
    and "piperead copyout killed pi addr n s = (r, wk, pi', s')"
  shows "\<exists>bs lost t. r = Returns (int (length bs)) \<and> pipe_inv pi' \<and>
     pipe_contents pi = bs @ lost @ pipe_contents pi' \<and> deliver copyout addr 0 bs s = Some t \<and>
     (lost = [] \<and> (int (length bs) = n \<or> pipe_contents pi' = []) \<or>
      (\<exists>b. lost = [b] \<and> copyout (addr + of_int (int (length bs))) b t = (False, s')))"
proof -
  have "\<not> (pi_nread pi = pi_nwrite pi \<and> pi_writeopen pi)"
    using assms(2) by (auto simp: pipe_contents_def)
  with assms(4) obtain k where run: "piperead_loop copyout addr n 0 pi s = (k, pi', s')"
    and r: "r = Returns k"
    by (auto simp: piperead_def split: prod.splits if_splits)
  from piperead_loop_spec[OF assms(1) run assms(3)] r show ?thesis by auto
qed

theorem piperead_delivers_witness:
  "\<exists>r wk pi' s'. piperead (\<lambda>a ch u. (False, u)) False (pipe_put 7 (pipe_init (replicate 512 0))) 0 1 () =
      (r, wk, pi', s') \<and> r = Returns 0 \<and> pipe_contents pi' = []"
proof -
  let ?p = "pipe_put 7 (pipe_init (replicate 512 0))"
  have inv0: "pipe_inv (pipe_init (replicate 512 0))" by (rule pipe_init_inv) simp
  have put: "pipe_inv ?p" "pipe_contents ?p = [7]"
    using pipe_put_spec(1,2)[OF inv0, of 7] by (simp_all add: pipe_init_def pipe_contents_def)
  obtain r wk pi' s' where
    run: "piperead (\<lambda>a ch u. (False, u)) False ?p 0 1 () = (r, wk, pi', s')"
    by (cases "piperead (\<lambda>a ch u. (False, u)) False ?p 0 1 ()") auto
  have "pipe_contents ?p \<noteq> []" by (simp add: put)
  from piperead_delivers[OF put(1) this _ run] obtain bs lost where
    "r = Returns (int (length bs))" "[7] = bs @ lost @ pipe_contents pi'"
    "deliver (\<lambda>a ch u. (False, u)) 0 0 bs () \<noteq> None"
    "lost = [] \<and> (length bs = 1 \<or> pipe_contents pi' = []) \<or> length lost = 1"
    by (auto simp: put)
  then have "r = Returns 0 \<and> pipe_contents pi' = []"
    by (cases bs) (auto simp: Cons_eq_append_conv)
  with run show ?thesis by blast
qed

end
