(* ===== verification/Spinlock.thy ===== *)
theory Spinlock
  imports Riscv
begin

text \<open>
  Spin locks and interrupt nesting, \<^verbatim>\<open>src/kernel/spinlock.c\<close>, and sleep locks,
  \<^verbatim>\<open>src/kernel/sleeplock.c\<close>. The first part translates each routine for the CPU that
  runs it. \<^verbatim>\<open>acquire\<close> is split at its atomic swap, because what happens between two swaps
  is up to the other CPUs: \<open>acquire_enter\<close> is the code before the loop, \<open>acquire_swap\<close>
  one attempt, \<open>acquire_record\<close> the code after the loop; \<open>release\<close> is split at its swap
  in the same way. The second part runs any number of CPUs against one lock, one atomic step at
  a time, and shows mutual exclusion. The rest of the development relies on it: the routines of
  the other theories are the code between \<^verbatim>\<open>acquire\<close> and \<^verbatim>\<open>release\<close> of the lock that
  guards their data, and run atomically.
\<close>

subsection \<open>Per-CPU state\<close>

text \<open>\<^verbatim>\<open>struct cpu\<close> without the saved context, and the hart's own \<^verbatim>\<open>sstatus\<close> register.\<close>

record cpu =
  c_proc :: "nat option"
  c_noff :: int
  c_intena :: bool
  c_sstatus :: u64

record spinlock =
  lk_locked :: u32
  lk_cpu :: "nat option"

definition initlock :: spinlock where
  "initlock = \<lparr>lk_locked = 0, lk_cpu = None\<rparr>"

definition push_off :: "cpu \<Rightarrow> cpu" where
  "push_off c =
     (let old = intr_get (c_sstatus c);
          c1 = c\<lparr>c_sstatus := intr_off (c_sstatus c)\<rparr>;
          c2 = (if c_noff c1 = 0 then c1\<lparr>c_intena := old\<rparr> else c1)
      in c2\<lparr>c_noff := c_noff c2 + 1\<rparr>)"

definition pop_off :: "cpu \<Rightarrow> kerr + cpu" where
  "pop_off c =
     (if intr_get (c_sstatus c) then Inl (Panic ''pop_off - interruptible'')
      else if c_noff c < 1 then Inl (Panic ''pop_off'')
      else let c1 = c\<lparr>c_noff := c_noff c - 1\<rparr>
           in Inr (if c_noff c1 = 0 \<and> c_intena c1
                   then c1\<lparr>c_sstatus := intr_on (c_sstatus c1)\<rparr> else c1))"

definition holding :: "nat \<Rightarrow> spinlock \<Rightarrow> bool" where
  "holding me lk = (lk_locked lk \<noteq> 0 \<and> lk_cpu lk = Some me)"

definition acquire_enter :: "nat \<Rightarrow> spinlock \<Rightarrow> cpu \<Rightarrow> kerr + cpu" where
  "acquire_enter me lk c =
     (let c1 = push_off c in if holding me lk then Inl (Panic ''acquire'') else Inr c1)"

definition acquire_swap :: "spinlock \<Rightarrow> bool \<times> spinlock" where
  "acquire_swap lk = (lk_locked lk = 0, lk\<lparr>lk_locked := 1\<rparr>)"

definition acquire_record :: "nat \<Rightarrow> spinlock \<Rightarrow> spinlock" where
  "acquire_record me lk = lk\<lparr>lk_cpu := Some me\<rparr>"

definition release_clear :: "nat \<Rightarrow> spinlock \<Rightarrow> kerr + spinlock" where
  "release_clear me lk =
     (if \<not> holding me lk then Inl (Panic ''release'') else Inr (lk\<lparr>lk_cpu := None\<rparr>))"

definition release_swap :: "spinlock \<Rightarrow> spinlock" where
  "release_swap lk = lk\<lparr>lk_locked := 0\<rparr>"

text \<open>\<^verbatim>\<open>myproc\<close> reads the current process between a \<^verbatim>\<open>push_off\<close> and a \<^verbatim>\<open>pop_off\<close>.\<close>

definition myproc :: "cpu \<Rightarrow> kerr + nat option \<times> cpu" where
  "myproc c = (let c1 = push_off c; p = c_proc c1
               in case pop_off c1 of Inl e \<Rightarrow> Inl e | Inr c2 \<Rightarrow> Inr (p, c2))"

subsection \<open>Sleep locks\<close>

record sleeplock =
  sl_locked :: bool
  sl_pid :: int

definition initsleeplock :: sleeplock where
  "initsleeplock = \<lparr>sl_locked = False, sl_pid = 0\<rparr>"

text \<open>The loop \<^verbatim>\<open>while(lk->locked) sleep(...)\<close> blocks a sequential caller for good.\<close>

definition acquiresleep :: "int \<Rightarrow> sleeplock \<Rightarrow> kerr + sleeplock" where
  "acquiresleep pid lk =
     (if sl_locked lk then Inl (Sleep ''sleeplock'') else Inr (lk\<lparr>sl_locked := True, sl_pid := pid\<rparr>))"

definition releasesleep :: "sleeplock \<Rightarrow> sleeplock" where
  "releasesleep lk = lk\<lparr>sl_locked := False, sl_pid := 0\<rparr>"

definition holdingsleep :: "int \<Rightarrow> sleeplock \<Rightarrow> bool" where
  "holdingsleep pid lk = (sl_locked lk \<and> sl_pid lk = pid)"

lemma acquiresleep_holding:
  "acquiresleep pid lk = Inr lk' \<Longrightarrow> holdingsleep pid lk' \<and> \<not> holdingsleep pid (releasesleep lk')"
  by (auto simp: acquiresleep_def holdingsleep_def releasesleep_def split: if_splits)

subsection \<open>Nesting of interrupt disabling\<close>

text \<open>
  What \<^verbatim>\<open>push_off\<close> and \<^verbatim>\<open>pop_off\<close> rely on and keep: inside at least one level of
  nesting interrupts are off.
\<close>

definition cpu_ok :: "cpu \<Rightarrow> bool" where
  "cpu_ok c \<longleftrightarrow> 0 \<le> c_noff c \<and> (0 < c_noff c \<longrightarrow> \<not> intr_get (c_sstatus c))"

text \<open>Whether interrupts will be on once every level has been popped.\<close>

definition intr_base :: "cpu \<Rightarrow> bool" where
  "intr_base c = (if c_noff c = 0 then intr_get (c_sstatus c) else c_intena c)"

lemma push_off_ok [simp]: "cpu_ok c \<Longrightarrow> cpu_ok (push_off c)"
  by (auto simp: cpu_ok_def push_off_def Let_def)

lemma push_off_facts:
  "c_noff (push_off c) = c_noff c + 1" "\<not> intr_get (c_sstatus (push_off c))"
  "c_proc (push_off c) = c_proc c"
  by (auto simp: push_off_def Let_def)

lemma push_off_base: "cpu_ok c \<Longrightarrow> intr_base (push_off c) = intr_base c"
  by (auto simp: cpu_ok_def intr_base_def push_off_def Let_def)

lemma pop_off_ok:
  assumes "cpu_ok c" "0 < c_noff c"
  shows "\<exists>c'. pop_off c = Inr c' \<and> cpu_ok c' \<and> c_noff c' = c_noff c - 1 \<and>
    intr_base c' = intr_base c \<and> c_proc c' = c_proc c"
  using assms by (auto simp: cpu_ok_def intr_base_def pop_off_def Let_def)

text \<open>Any sequence of nested calls, \<open>True\<close> for \<^verbatim>\<open>push_off\<close>.\<close>

fun nest :: "bool list \<Rightarrow> cpu \<Rightarrow> kerr + cpu" where
  "nest [] c = Inr c"
| "nest (b # bs) c =
     (if b then nest bs (push_off c)
      else case pop_off c of Inl e \<Rightarrow> Inl e | Inr c' \<Rightarrow> nest bs c')"

text \<open>Never more pops than pushes, starting at a given depth.\<close>

fun balanced :: "int \<Rightarrow> bool list \<Rightarrow> bool" where
  "balanced d [] \<longleftrightarrow> d = 0"
| "balanced d (b # bs) \<longleftrightarrow> (if b then balanced (d + 1) bs else 0 < d \<and> balanced (d - 1) bs)"

lemma nest_ok:
  "cpu_ok c \<Longrightarrow> 0 \<le> d \<Longrightarrow> d \<le> c_noff c \<Longrightarrow> balanced d bs \<Longrightarrow>
     \<exists>c'. nest bs c = Inr c' \<and> cpu_ok c' \<and> c_noff c' = c_noff c - d \<and> intr_base c' = intr_base c"
proof (induction bs arbitrary: c d)
  case Nil
  then show ?case by simp
next
  case (Cons b bs)
  show ?case
  proof (cases b)
    case True
    with Cons.prems have "balanced (d + 1) bs" by simp
    with Cons.IH[of "push_off c" "d + 1"] Cons.prems True show ?thesis
      by (auto simp: push_off_facts push_off_base)
  next
    case False
    with Cons.prems have d: "0 < d" "balanced (d - 1) bs" by simp_all
    with pop_off_ok[OF Cons.prems(1)] Cons.prems(3) obtain c1 where
      c1: "pop_off c = Inr c1" "cpu_ok c1" "c_noff c1 = c_noff c - 1" "intr_base c1 = intr_base c"
      by force
    with Cons.IH[of c1 "d - 1"] Cons.prems d False show ?thesis by auto
  qed
qed

subsection \<open>Several CPUs and one lock\<close>

text \<open>
  Where a CPU is with respect to the lock: outside, in the swap loop, between its successful
  swap and the store to \<^verbatim>\<open>lk->cpu\<close>, inside the critical section, or in
  \<^verbatim>\<open>release\<close> between the store and the swap back.
\<close>

datatype lockpc = Outside | Spinning | Swapped | Inside | Leaving

record locksys =
  ls_lock :: spinlock
  ls_cpu :: "nat \<Rightarrow> cpu"
  ls_pc :: "nat \<Rightarrow> lockpc"

inductive lock_step :: "locksys \<Rightarrow> locksys \<Rightarrow> bool" where
  enter: "ls_pc s i = Outside \<Longrightarrow> acquire_enter i (ls_lock s) (ls_cpu s i) = Inr c \<Longrightarrow>
     lock_step s (s\<lparr>ls_cpu := (ls_cpu s)(i := c), ls_pc := (ls_pc s)(i := Spinning)\<rparr>)"
| swap: "ls_pc s i = Spinning \<Longrightarrow> acquire_swap (ls_lock s) = (got, lk) \<Longrightarrow>
     lock_step s (s\<lparr>ls_lock := lk, ls_pc := (ls_pc s)(i := if got then Swapped else Spinning)\<rparr>)"
| record_holder: "ls_pc s i = Swapped \<Longrightarrow>
     lock_step s (s\<lparr>ls_lock := acquire_record i (ls_lock s), ls_pc := (ls_pc s)(i := Inside)\<rparr>)"
| clear: "ls_pc s i = Inside \<Longrightarrow> release_clear i (ls_lock s) = Inr lk \<Longrightarrow>
     lock_step s (s\<lparr>ls_lock := lk, ls_pc := (ls_pc s)(i := Leaving)\<rparr>)"
| leave: "ls_pc s i = Leaving \<Longrightarrow> pop_off (ls_cpu s i) = Inr c \<Longrightarrow>
     lock_step s (s\<lparr>ls_lock := release_swap (ls_lock s), ls_cpu := (ls_cpu s)(i := c),
                    ls_pc := (ls_pc s)(i := Outside)\<rparr>)"

inductive lock_reach :: "locksys \<Rightarrow> bool" where
  lock_init: "\<forall>i. cpu_ok (cs i) \<Longrightarrow>
     lock_reach \<lparr>ls_lock = initlock, ls_cpu = cs, ls_pc = (\<lambda>_. Outside)\<rparr>"
| lock_next: "lock_reach s \<Longrightarrow> lock_step s t \<Longrightarrow> lock_reach t"

definition owns :: "lockpc \<Rightarrow> bool" where
  "owns pc \<longleftrightarrow> pc \<in> {Swapped, Inside, Leaving}"

lemma owns_simps [simp]:
  "\<not> owns Outside" "\<not> owns Spinning" "owns Swapped" "owns Inside" "owns Leaving"
  by (simp_all add: owns_def)

definition lock_inv_at :: "nat option \<Rightarrow> locksys \<Rightarrow> bool" where
  "lock_inv_at h s \<longleftrightarrow>
     (\<forall>i. owns (ls_pc s i) \<longleftrightarrow> h = Some i) \<and>
     (lk_locked (ls_lock s) \<noteq> 0 \<longleftrightarrow> h \<noteq> None) \<and>
     (\<forall>i. lk_cpu (ls_lock s) = Some i \<longleftrightarrow> ls_pc s i = Inside) \<and>
     (\<forall>i. cpu_ok (ls_cpu s i)) \<and>
     (\<forall>i. ls_pc s i \<noteq> Outside \<longrightarrow> 0 < c_noff (ls_cpu s i))"

definition lock_inv :: "locksys \<Rightarrow> bool" where
  "lock_inv s \<longleftrightarrow> (\<exists>h. lock_inv_at h s)"

lemma lock_invD:
  assumes "lock_inv_at h s"
  shows "owns (ls_pc s i) \<longleftrightarrow> h = Some i" "lk_locked (ls_lock s) \<noteq> 0 \<longleftrightarrow> h \<noteq> None"
    "lk_cpu (ls_lock s) = Some i \<longleftrightarrow> ls_pc s i = Inside" "cpu_ok (ls_cpu s i)"
    "ls_pc s i \<noteq> Outside \<Longrightarrow> 0 < c_noff (ls_cpu s i)"
  using assms by (auto simp: lock_inv_at_def)

lemma lock_step_enter:
  assumes "lock_inv_at h s" "ls_pc s i = Outside" "acquire_enter i (ls_lock s) (ls_cpu s i) = Inr c"
  shows "lock_inv_at h (s\<lparr>ls_cpu := (ls_cpu s)(i := c), ls_pc := (ls_pc s)(i := Spinning)\<rparr>)"
proof -
  have c: "c = push_off (ls_cpu s i)"
    using assms(3) by (simp add: acquire_enter_def Let_def split: if_splits)
  have ok: "0 \<le> c_noff (ls_cpu s i)" "cpu_ok (ls_cpu s i)"
    using lock_invD(4)[OF assms(1), of i] by (simp_all add: cpu_ok_def)
  have "h \<noteq> Some i" "lk_cpu (ls_lock s) \<noteq> Some i"
    using lock_invD(1,3)[OF assms(1), of i] assms(2) by simp_all
  with assms(1) ok show ?thesis
    by (simp add: lock_inv_at_def c push_off_facts)
qed

lemma lock_step_swap:
  assumes "lock_inv_at h s" "ls_pc s i = Spinning" "acquire_swap (ls_lock s) = (got, lk)"
  shows "lock_inv_at (if got then Some i else h)
    (s\<lparr>ls_lock := lk, ls_pc := (ls_pc s)(i := if got then Swapped else Spinning)\<rparr>)"
proof -
  have lk: "lk = (ls_lock s)\<lparr>lk_locked := 1\<rparr>" "got \<longleftrightarrow> lk_locked (ls_lock s) = 0"
    using assms(3) by (auto simp: acquire_swap_def)
  have h: "h \<noteq> Some i" "lk_cpu (ls_lock s) \<noteq> Some i"
    using lock_invD(1,3)[OF assms(1), of i] assms(2) by simp_all
  have "got \<longleftrightarrow> h = None" using lk lock_invD(2)[OF assms(1)] by (cases h) simp_all
  with assms(1,2) lk(1) h show ?thesis by (cases got) (auto simp: lock_inv_at_def)
qed

lemma lock_step_record:
  assumes "lock_inv_at h s" "ls_pc s i = Swapped"
  shows "lock_inv_at h
    (s\<lparr>ls_lock := acquire_record i (ls_lock s), ls_pc := (ls_pc s)(i := Inside)\<rparr>)"
proof -
  have h: "h = Some i" using lock_invD(1)[OF assms(1), of i] assms(2) by simp
  have "ls_pc s j \<noteq> Inside" if "j \<noteq> i" for j
    using lock_invD(1)[OF assms(1), of j] that h by auto
  with assms h show ?thesis by (simp add: lock_inv_at_def acquire_record_def)
qed

lemma lock_step_clear:
  assumes "lock_inv_at h s" "ls_pc s i = Inside" "release_clear i (ls_lock s) = Inr lk"
  shows "lock_inv_at h (s\<lparr>ls_lock := lk, ls_pc := (ls_pc s)(i := Leaving)\<rparr>)"
proof -
  have h: "h = Some i" using lock_invD(1)[OF assms(1), of i] assms(2) by simp
  have "ls_pc s j \<noteq> Inside" if "j \<noteq> i" for j
    using lock_invD(1)[OF assms(1), of j] that h by auto
  with assms h show ?thesis
    by (auto simp: lock_inv_at_def release_clear_def split: if_splits)
qed

lemma lock_step_leave:
  assumes "lock_inv_at h s" "ls_pc s i = Leaving" "pop_off (ls_cpu s i) = Inr c"
  shows "lock_inv_at None (s\<lparr>ls_lock := release_swap (ls_lock s), ls_cpu := (ls_cpu s)(i := c),
    ls_pc := (ls_pc s)(i := Outside)\<rparr>)"
proof -
  have "0 < c_noff (ls_cpu s i)" using lock_invD(5)[OF assms(1), of i] assms(2) by simp
  with pop_off_ok[OF lock_invD(4)[OF assms(1), of i]] assms(3) have c: "cpu_ok c" by auto
  have h: "h = Some i" using lock_invD(1)[OF assms(1), of i] assms(2) by simp
  have "\<not> owns (ls_pc s j) \<and> ls_pc s j \<noteq> Inside" if "j \<noteq> i" for j
    using lock_invD(1)[OF assms(1), of j] that h by auto
  moreover from this have "lk_cpu (ls_lock s) \<noteq> Some j" for j
    using lock_invD(3)[OF assms(1), of j] assms(2) by (cases "j = i") auto
  ultimately show ?thesis
    using assms c by (simp add: lock_inv_at_def release_swap_def)
qed

lemma lock_step_inv: "lock_step s t \<Longrightarrow> lock_inv s \<Longrightarrow> lock_inv t"
  unfolding lock_inv_def
  by (induction rule: lock_step.induct)
     (blast intro: lock_step_enter lock_step_swap lock_step_record lock_step_clear lock_step_leave)+

lemma lock_reach_inv: "lock_reach s \<Longrightarrow> lock_inv s"
proof (induction rule: lock_reach.induct)
  case (lock_init cs)
  then have "lock_inv_at None \<lparr>ls_lock = initlock, ls_cpu = cs, ls_pc = (\<lambda>_. Outside)\<rparr>"
    by (simp add: lock_inv_at_def initlock_def)
  then show ?case unfolding lock_inv_def by blast
next
  case (lock_next s t)
  then show ?case by (blast intro: lock_step_inv)
qed

subsection \<open>Properties\<close>


definition boot_cpu :: cpu where
  "boot_cpu = \<lparr>c_proc = None, c_noff = 0, c_intena = False, c_sstatus = SSTATUS_SIE\<rparr>"


text \<open>
  C13: \<^verbatim>\<open>push_off\<close> and \<^verbatim>\<open>pop_off\<close> match: any well-nested sequence of them runs without a
  panic and leaves the nesting depth and the interrupt state as it found them.
\<close>

theorem push_pop_restore:
  assumes "cpu_ok c" and "balanced 0 bs"
  shows "\<exists>c'. nest bs c = Inr c' \<and> c_noff c' = c_noff c \<and> cpu_ok c' \<and>
    (c_noff c = 0 \<longrightarrow> intr_get (c_sstatus c') = intr_get (c_sstatus c))"
  using nest_ok[of c 0 bs] assms by (auto simp: cpu_ok_def intr_base_def)

theorem push_pop_restore_witness:
  "\<exists>c'. nest [True, True, False, False] boot_cpu = Inr c' \<and> intr_get (c_sstatus c')"
proof -
  have "cpu_ok boot_cpu" "balanced 0 [True, True, False, False]"
    by (simp_all add: boot_cpu_def cpu_ok_def)
  from push_pop_restore[OF this] show ?thesis
    by (auto simp: boot_cpu_def intr_get_def)
qed

end
