(* ===== verification/Bytes.thy ===== *)
theory Bytes
  imports Riscv KString
begin

text \<open>
  Little-endian encodings, used wherever the kernel overlays a struct or an array of integers on
  raw bytes: page-table entries and free-list links in physical memory, and the super block,
  inodes, bitmaps, indirect blocks, directory entries and log header in disk blocks. A block is
  a list of bytes; the accessors \<open>get\<close> and \<open>put\<close> read and overwrite a field of \<open>n\<close>
  bytes at an offset.
\<close>

subsection \<open>Integers as bytes\<close>

fun le_val :: "u8 list \<Rightarrow> nat" where
  "le_val [] = 0"
| "le_val (b # bs) = unat b + 256 * le_val bs"

fun le_bytes :: "nat \<Rightarrow> nat \<Rightarrow> u8 list" where
  "le_bytes 0 v = []"
| "le_bytes (Suc n) v = of_nat (v mod 256) # le_bytes n (v div 256)"

lemma length_le_bytes [simp]: "length (le_bytes n v) = n"
  by (induction n v rule: le_bytes.induct) auto

lemma le_val_le_bytes: "le_val (le_bytes n v) = v mod 256 ^ n"
proof (induction n v rule: le_bytes.induct)
  case (1 v)
  then show ?case by simp
next
  case (2 n v)
  then show ?case by (simp add: unat_of_nat mod_mult2_eq)
qed

lemma le_bytes_le_val: "le_bytes (length bs) (le_val bs) = bs"
proof (induction bs)
  case Nil
  then show ?case by simp
next
  case (Cons b bs)
  have "unat b < 256" by (rule unat_u8)
  then show ?case using Cons by simp
qed

lemma le_val_less: "le_val bs < 256 ^ length bs"
proof (induction bs)
  case Nil
  then show ?case by simp
next
  case (Cons b bs)
  have "unat b < 256" by (rule unat_u8)
  with Cons show ?case by simp
qed

lemma le_val_replicate_0 [simp]: "le_val (replicate n 0) = 0"
  by (induction n) auto

subsection \<open>Fields of a block\<close>

definition get :: "nat \<Rightarrow> u8 list \<Rightarrow> nat \<Rightarrow> nat" where
  "get n bs off = le_val (take n (drop off bs))"

definition splice :: "u8 list \<Rightarrow> nat \<Rightarrow> u8 list \<Rightarrow> u8 list" where
  "splice bs off xs = take off bs @ xs @ drop (off + length xs) bs"

definition put :: "nat \<Rightarrow> u8 list \<Rightarrow> nat \<Rightarrow> nat \<Rightarrow> u8 list" where
  "put n bs off v = splice bs off (le_bytes n v)"

lemma length_splice [simp]: "off + length xs \<le> length bs \<Longrightarrow> length (splice bs off xs) = length bs"
  by (simp add: splice_def)

lemma length_put [simp]: "off + n \<le> length bs \<Longrightarrow> length (put n bs off v) = length bs"
  by (simp add: put_def)

lemma take_drop_splice_same:
  "off + length xs \<le> length bs \<Longrightarrow> take (length xs) (drop off (splice bs off xs)) = xs"
  by (simp add: splice_def)

lemma take_drop_splice_before:
  assumes "off' + n \<le> off" "off + length xs \<le> length bs"
  shows "take n (drop off' (splice bs off xs)) = take n (drop off' bs)"
  using assms by (simp add: splice_def drop_take)

lemma take_drop_splice_after:
  assumes "off + length xs \<le> off'" "off + length xs \<le> length bs"
  shows "take n (drop off' (splice bs off xs)) = take n (drop off' bs)"
  using assms by (simp add: splice_def)

lemma nth_splice:
  assumes "off + length xs \<le> length bs" "i < length bs"
  shows "splice bs off xs ! i = (if off \<le> i \<and> i < off + length xs then xs ! (i - off) else bs ! i)"
  using assms by (auto simp: splice_def nth_append not_less)

lemma get_put_same:
  "off + n \<le> length bs \<Longrightarrow> v < 256 ^ n \<Longrightarrow> get n (put n bs off v) off = v"
  using take_drop_splice_same[of off "le_bytes n v" bs]
  by (simp add: get_def put_def le_val_le_bytes)

lemma get_put_other:
  assumes "off + n \<le> length bs" and "off' + k \<le> off \<or> off + n \<le> off'"
  shows "get k (put n bs off v) off' = get k bs off'"
  using assms take_drop_splice_before[of off' k off "le_bytes n v" bs]
    take_drop_splice_after[of off "le_bytes n v" off' bs k]
  by (auto simp: get_def put_def)

lemma put_get_id:
  assumes "off + n \<le> length bs"
  shows "put n bs off (get n bs off) = bs"
proof -
  have "le_bytes n (get n bs off) = take n (drop off bs)"
    using le_bytes_le_val[of "take n (drop off bs)"] assms by (simp add: get_def)
  then show ?thesis
    using assms by (simp add: put_def splice_def) (metis add.commute append_take_drop_id drop_drop)
qed

lemma get_replicate_0 [simp]: "get n (replicate m 0) off = 0"
  by (simp add: get_def take_replicate)

subsection \<open>Words in physical memory\<close>

fun store_bytes :: "memory \<Rightarrow> u64 \<Rightarrow> u8 list \<Rightarrow> memory" where
  "store_bytes m a [] = m"
| "store_bytes m a (b # bs) = store_bytes (m(a := b)) (a + 1) bs"

definition load_bytes :: "memory \<Rightarrow> u64 \<Rightarrow> nat \<Rightarrow> u8 list" where
  "load_bytes m a n = map (\<lambda>i. m (a + of_nat i)) [0..<n]"

definition load64 :: "memory \<Rightarrow> u64 \<Rightarrow> u64" where
  "load64 m a = of_nat (le_val (load_bytes m a 8))"

definition store64 :: "memory \<Rightarrow> u64 \<Rightarrow> u64 \<Rightarrow> memory" where
  "store64 m a v = store_bytes m a (le_bytes 8 (unat v))"

lemma length_load_bytes [simp]: "length (load_bytes m a n) = n"
  by (simp add: load_bytes_def)

lemma nth_load_bytes [simp]: "i < n \<Longrightarrow> load_bytes m a n ! i = m (a + of_nat i)"
  by (simp add: load_bytes_def)

lemma store_bytes_apply:
  assumes "length bs \<le> 2 ^ 64"
  shows "store_bytes m a bs x = (if unat (x - a) < length bs then bs ! unat (x - a) else m x)"
  using assms
proof (induction bs arbitrary: m a)
  case Nil
  then show ?case by simp
next
  case (Cons b bs)
  have len: "length bs \<le> 2 ^ 64 - 1" using Cons.prems by simp
  then have "length bs \<le> 2 ^ 64" by simp
  note ih = Cons.IH[OF this]
  show ?case
  proof (cases "x = a")
    case True
    have "unat (a - (a + 1)) = 2 ^ 64 - 1"
      by (simp add: unsigned_minus_1_eq_mask mask_eq_exp_minus_1)
    with len have "\<not> unat (a - (a + 1)) < length bs" by linarith
    with True show ?thesis unfolding store_bytes.simps ih by simp
  next
    case False
    then have "unat (x - a) = Suc (unat (x - (a + 1)))"
      using unat_minus_one[of "x - a"] unat_gt_0[of "x - a"] by (simp add: algebra_simps)
    with False show ?thesis unfolding store_bytes.simps ih by simp
  qed
qed

lemma load_store_bytes_same:
  assumes "length bs < 2 ^ 64"
  shows "load_bytes (store_bytes m a bs) a (length bs) = bs"
  using assms by (intro nth_equalityI) (auto simp: store_bytes_apply unat_of_nat)

lemma load64_store64_same [simp]: "load64 (store64 m a v) a = v"
  using load_store_bytes_same[of "le_bytes 8 (unat v)" m a] unat_u64[of v]
  by (simp add: load64_def store64_def le_val_le_bytes)

text \<open>Eight-byte aligned words do not overlap.\<close>

definition aligned8 :: "u64 \<Rightarrow> bool" where
  "aligned8 a = (unat a mod 8 = 0)"

lemma mod_room:
  fixes x :: nat
  assumes "x mod k = 0" "x < k * n" "i < k"
  shows "x + i < k * n"
proof -
  from assms(1) obtain j where x: "x = k * j" by auto
  with assms have "j < n" by simp
  then have "k * Suc j \<le> k * n" by (intro mult_le_mono2) simp
  with x assms(3) show ?thesis by simp
qed

lemmas mod8_room = mod_room[where k = 8 and n = "2 ^ 61", simplified]
lemmas mod4096_room = mod_room[where k = 4096 and n = "2 ^ 52", simplified]

lemma unat_add_small: "unat a + unat b < 2 ^ 64 \<Longrightarrow> unat (a + b) = unat a + unat b" for a b :: u64
  by (simp add: unat_word_ariths)

lemma sub_mod_8:
  fixes a b :: u64
  assumes "unat a mod 8 = 0" "unat b mod 8 = 0"
  shows "unat (b - a) mod 8 = 0"
proof -
  have "8 dvd unat a" "8 dvd unat b" "8 dvd (2 ^ 64 :: nat)" using assms by auto
  then have "8 dvd unat (b - a)" by (simp add: unat_sub_if_size word_size)
  then show ?thesis by simp
qed

lemma aligned8_offset:
  assumes "aligned8 a" "aligned8 b" "a \<noteq> b" "i < 8"
  shows "\<not> unat (b + of_nat i - a) < 8"
proof -
  define d where "d = b - a"
  have d: "unat d mod 8 = 0"
    using sub_mod_8 assms(1,2) by (simp add: d_def aligned8_def)
  have "unat d \<noteq> 0" using assms(3) by (simp add: d_def unat_eq_zero)
  moreover have "unat d + i < 2 ^ 64"
    using mod8_room[OF d unat_u64 assms(4)] by simp
  moreover from this have "unat (d + of_nat i) = unat d + i"
    by (simp add: unat_word_ariths unat_of_nat)
  ultimately have "\<not> unat (d + of_nat i) < 8" using d by auto
  then show ?thesis by (simp add: d_def algebra_simps)
qed

lemma load_bytes_cong:
  "(\<And>i. i < n \<Longrightarrow> m (a + of_nat i) = m' (a + of_nat i)) \<Longrightarrow> load_bytes m a n = load_bytes m' a n"
  by (rule nth_equalityI) simp_all

lemma load64_cong:
  assumes "\<And>i. i < 8 \<Longrightarrow> m (a + of_nat i) = m' (a + of_nat i)"
  shows "load64 m a = load64 m' a"
  using load_bytes_cong[of 8 m a m'] assms by (simp add: load64_def)

lemma load64_store64_other:
  assumes "aligned8 a" "aligned8 b" "a \<noteq> b"
  shows "load64 (store64 m a v) b = load64 m b"
  by (rule load64_cong) (simp add: store64_def store_bytes_apply aligned8_offset[OF assms])

subsection \<open>Pages\<close>

lemma page_aligned_8: "page_aligned p \<Longrightarrow> aligned8 p"
  using mod_mod_cancel[of 8 4096 "unat p"] by (simp add: page_aligned_unat aligned8_def)

lemma in_page_iff:
  assumes "page_aligned p"
  shows "unat (x - p) < 4096 \<longleftrightarrow> PGROUNDDOWN x = p"
proof
  assume lt: "unat (x - p) < 4096"
  have p: "unat p mod 4096 = 0" using assms by (simp add: page_aligned_unat)
  have "unat x = unat p + unat (x - p)"
  proof -
    have "unat p + unat (x - p) < 2 ^ 64" using mod4096_room[OF p unat_u64 lt] by simp
    from unat_add_small[OF this] show ?thesis by simp
  qed
  then have "unat (PGROUNDDOWN x) = unat p"
    using p lt by (simp add: PGROUNDDOWN_unat mod_add_left_eq[symmetric])
  then show "PGROUNDDOWN x = p" by (simp add: word_unat_eq_iff)
next
  assume "PGROUNDDOWN x = p"
  then have "unat (x - p) = unat x mod 4096" using PGROUNDDOWN_offset[of x] by simp
  then show "unat (x - p) < 4096" by simp
qed

lemma PGROUNDDOWN_aligned8_add:
  assumes "aligned8 a" "i < 8"
  shows "PGROUNDDOWN (a + of_nat i) = PGROUNDDOWN a"
proof -
  have "unat a + i < 2 ^ 64"
    using mod8_room[OF assms(1)[unfolded aligned8_def] unat_u64 assms(2)] by simp
  then have u: "unat (a + of_nat i) = unat a + i" by (simp add: unat_word_ariths unat_of_nat)
  obtain k where "unat a = 8 * k" using assms(1) by (auto simp: aligned8_def)
  then have "(unat a + i) div 4096 = unat a div 4096"
    using assms(2) div_mult2_eq[of "unat a + i" 8 512] div_mult2_eq[of "unat a" 8 512] by simp
  then have "unat (PGROUNDDOWN (a + of_nat i)) = unat (PGROUNDDOWN a)"
    by (simp add: PGROUNDDOWN_unat u minus_mod_eq_div_mult)
  then show ?thesis by (simp add: word_unat_eq_iff)
qed

lemma memset_page_apply:
  assumes "page_aligned p"
  shows "memset p c 4096 m x = (if PGROUNDDOWN x = p then ucast c else m x)"
  using in_page_iff[OF assms, of x] by (simp add: memset_apply)

lemma load64_memset_other:
  assumes "page_aligned p" "aligned8 a" "PGROUNDDOWN a \<noteq> p"
  shows "load64 (memset p c 4096 m) a = load64 m a"
  by (rule load64_cong) (simp add: memset_page_apply assms PGROUNDDOWN_aligned8_add)

lemma load64_memset_zero:
  assumes "page_aligned p" "aligned8 a" "PGROUNDDOWN a = p"
  shows "load64 (memset p 0 4096 m) a = 0"
proof -
  have "load_bytes (memset p 0 4096 m) a 8 = replicate 8 0"
    by (rule nth_equalityI) (simp_all add: memset_page_apply assms PGROUNDDOWN_aligned8_add)
  then show ?thesis by (simp add: load64_def)
qed

lemma store64_other_page:
  assumes "aligned8 a" "PGROUNDDOWN x \<noteq> PGROUNDDOWN a"
  shows "store64 m a v x = m x"
proof -
  have "\<not> unat (x - a) < 8"
  proof
    assume "unat (x - a) < 8"
    from PGROUNDDOWN_aligned8_add[OF assms(1) this] assms(2) show False by simp
  qed
  then show ?thesis by (simp add: store64_def store_bytes_apply)
qed

end
