(* ===== verification/Kalloc.thy ===== *)
theory Kalloc
  imports Bytes
begin

text \<open>
  The physical page allocator of \<^verbatim>\<open>src/kernel/kalloc.c\<close>. The free pages form a singly linked
  list threaded through the pages themselves: the first eight bytes of a free page are the
  address of the next one. The model keeps the whole of physical memory as bytes, so that the
  junk fill of \<^verbatim>\<open>kfree\<close> and \<^verbatim>\<open>kalloc\<close> and the link words really share storage. The field
  \<open>km_end\<close> is the linker symbol \<^verbatim>\<open>end\<close>, the first address after the kernel.

  The interface of the allocator is the locale \<open>page_allocator\<close>: what its clients (page tables,
  user memory, pipes, trap frames) may rely on. The ownership theorem is proved from that
  interface alone and then transferred to \<^verbatim>\<open>kalloc\<close> and \<^verbatim>\<open>kfree\<close>.
\<close>

subsection \<open>Model\<close>

record kmem =
  km_mem :: memory
  km_freelist :: u64
  km_end :: u64

definition kfree :: "u64 \<Rightarrow> ('a kmem_scheme, unit) kmon" where
  "kfree pa =
     kbind (kget km_end) (\<lambda>kend.
       if pa mod PGSIZE \<noteq> 0 \<or> pa < kend \<or> pa \<ge> PHYSTOP then panic ''kfree''
       else
         kseq (kmodify (\<lambda>s. s\<lparr>km_mem := memset pa 1 4096 (km_mem s)\<rparr>))
        (kseq (kmodify (\<lambda>s. s\<lparr>km_mem := store64 (km_mem s) pa (km_freelist s)\<rparr>))
              (kmodify (\<lambda>s. s\<lparr>km_freelist := pa\<rparr>))))"

definition kalloc :: "('a kmem_scheme, u64) kmon" where
  "kalloc =
     kbind (kget km_freelist) (\<lambda>r.
       kseq (kwhen (r \<noteq> 0) (kmodify (\<lambda>s. s\<lparr>km_freelist := load64 (km_mem s) r\<rparr>)))
      (kseq (kwhen (r \<noteq> 0) (kmodify (\<lambda>s. s\<lparr>km_mem := memset r 5 4096 (km_mem s)\<rparr>)))
            (kret r)))"

text \<open>
  The loop of \<^verbatim>\<open>freerange\<close> compares wrapping pointers, so it does not end for every range; not
  returning is the value \<^term>\<open>None\<close>.
\<close>

partial_function (option) freerange_loop ::
  "u64 \<Rightarrow> u64 \<Rightarrow> 'a kmem_scheme \<Rightarrow> (kerr + unit \<times> 'a kmem_scheme) option" where
  "freerange_loop p pa_end s =
     (if p + PGSIZE \<le> pa_end
      then (case kfree p s of
              Inl e \<Rightarrow> Some (Inl e)
            | Inr (_, s') \<Rightarrow> freerange_loop (p + PGSIZE) pa_end s')
      else Some (Inr ((), s)))"

definition freerange ::
  "u64 \<Rightarrow> u64 \<Rightarrow> 'a kmem_scheme \<Rightarrow> (kerr + unit \<times> 'a kmem_scheme) option" where
  "freerange pa_start pa_end = freerange_loop (PGROUNDUP pa_start) pa_end"

definition kinit :: "'a kmem_scheme \<Rightarrow> (kerr + unit \<times> 'a kmem_scheme) option" where
  "kinit s = freerange (km_end s) PHYSTOP s"

subsection \<open>The free list and its invariant\<close>

primrec freelist :: "memory \<Rightarrow> u64 \<Rightarrow> u64 list \<Rightarrow> bool" where
  "freelist m p [] = (p = 0)"
| "freelist m p (x # xs) = (p = x \<and> x \<noteq> 0 \<and> freelist m (load64 m x) xs)"

definition page_ok :: "'a kmem_scheme \<Rightarrow> u64 \<Rightarrow> bool" where
  "page_ok s p = (page_aligned p \<and> km_end s \<le> p \<and> p < PHYSTOP)"

definition kmem_inv :: "'a kmem_scheme \<Rightarrow> u64 list \<Rightarrow> bool" where
  "kmem_inv s fs =
     (freelist (km_mem s) (km_freelist s) fs \<and> distinct fs \<and> 0 < km_end s
      \<and> list_all (page_ok s) fs)"

lemma freelist_cong:
  "(\<And>x. x \<in> set xs \<Longrightarrow> load64 m x = load64 m' x) \<Longrightarrow> freelist m p xs = freelist m' p xs"
  by (induction xs arbitrary: p) auto

lemma mod_PGSIZE: "pa mod PGSIZE = 0 \<longleftrightarrow> page_aligned pa" for pa :: u64
  by (simp add: page_aligned_unat word_unat_eq_iff unat_mod_distrib)

lemma page_okD:
  assumes "page_ok s p"
  shows "page_aligned p" "aligned8 p" "PGROUNDDOWN p = p"
  using assms page_aligned_8 PGROUNDDOWN_id by (auto simp: page_ok_def)

lemma kmem_inv_page_ok: "kmem_inv s fs \<Longrightarrow> p \<in> set fs \<Longrightarrow> page_ok s p"
  by (auto simp: kmem_inv_def list_all_iff)

text \<open>Any change of memory outside the free pages keeps the free list.\<close>

lemma kmem_inv_mem_update:
  assumes inv: "kmem_inv s fs" and out: "\<And>x. PGROUNDDOWN x \<in> set fs \<Longrightarrow> m x = km_mem s x"
  shows "kmem_inv (s\<lparr>km_mem := m\<rparr>) fs"
proof -
  have "load64 m x = load64 (km_mem s) x" if "x \<in> set fs" for x
  proof (rule load64_cong, rule out)
    fix i :: nat assume "i < 8"
    then show "PGROUNDDOWN (x + of_nat i) \<in> set fs"
      using page_okD[OF kmem_inv_page_ok[OF inv that]] that by (simp add: PGROUNDDOWN_aligned8_add)
  qed
  then show ?thesis
    using inv freelist_cong[of fs m "km_mem s" "km_freelist s"] by (simp add: kmem_inv_def page_ok_def[abs_def])
qed

lemma kfree_inv:
  assumes inv: "kmem_inv s fs" and p: "page_ok s p" and new: "p \<notin> set fs"
  shows "\<exists>s'. kfree p s = Inr ((), s') \<and> kmem_inv s' (p # fs) \<and> km_end s' = km_end s
              \<and> (\<forall>x. PGROUNDDOWN x \<noteq> p \<longrightarrow> km_mem s' x = km_mem s x)"
proof -
  note pd = page_okD[OF p]
  define m where "m = store64 (memset p 1 4096 (km_mem s)) p (km_freelist s)"
  have mem: "m x = km_mem s x" if "PGROUNDDOWN x \<noteq> p" for x
    using that pd by (simp add: m_def store64_other_page memset_page_apply)
  have run: "kfree p s = Inr ((), s\<lparr>km_mem := m, km_freelist := p\<rparr>)"
    using p by (simp add: kfree_def kmon_defs mod_PGSIZE page_ok_def not_less not_le m_def)
  have "kmem_inv (s\<lparr>km_mem := m\<rparr>) fs"
    using new by (intro kmem_inv_mem_update[OF inv] mem) blast
  moreover have "load64 m p = km_freelist s" by (simp add: m_def)
  moreover have "p \<noteq> 0" using inv p by (auto simp: kmem_inv_def page_ok_def)
  ultimately have "kmem_inv (s\<lparr>km_mem := m, km_freelist := p\<rparr>) (p # fs)"
    using p new by (simp add: kmem_inv_def page_ok_def[abs_def])
  then show ?thesis using run mem by auto
qed

lemma kalloc_empty: "kmem_inv s [] \<Longrightarrow> kalloc s = Inr (0, s)"
  by (simp add: kalloc_def kmon_defs kmem_inv_def)

lemma kalloc_cons:
  assumes inv: "kmem_inv s (p # fs)"
  shows "\<exists>s'. kalloc s = Inr (p, s') \<and> kmem_inv s' fs \<and> km_end s' = km_end s
              \<and> (\<forall>x. km_mem s' x = (if PGROUNDDOWN x = p then 5 else km_mem s x))"
proof -
  have "page_ok s p" using kmem_inv_page_ok[OF inv] by simp
  note p = page_okD(1)[OF this]
  define m where "m = memset p 5 4096 (km_mem s)"
  have mem: "m x = (if PGROUNDDOWN x = p then 5 else km_mem s x)" for x
    by (simp add: m_def memset_page_apply[OF p])
  have "kmem_inv (s\<lparr>km_freelist := load64 (km_mem s) p\<rparr>) fs"
    using inv by (simp add: kmem_inv_def page_ok_def[abs_def])
  moreover have "m x = km_mem s x" if "PGROUNDDOWN x \<in> set fs" for x
    using that inv by (auto simp: mem kmem_inv_def)
  ultimately have "kmem_inv (s\<lparr>km_freelist := load64 (km_mem s) p, km_mem := m\<rparr>) fs"
    using kmem_inv_mem_update[of "s\<lparr>km_freelist := load64 (km_mem s) p\<rparr>" fs m] by simp
  moreover have "kalloc s = Inr (p, s\<lparr>km_freelist := load64 (km_mem s) p, km_mem := m\<rparr>)"
    using inv by (simp add: kalloc_def kmon_defs kmem_inv_def m_def)
  ultimately show ?thesis using mem by auto
qed

subsection \<open>The interface of the allocator\<close>

text \<open>
  Owners allocate pages, write into pages they own, and free them. The relation is stated for any
  pair of operations; \<open>upd\<close> applies a function to the memory of a state.
\<close>

inductive own_step ::
  "('s, u64) kmon \<Rightarrow> (u64 \<Rightarrow> ('s, unit) kmon) \<Rightarrow> ((memory \<Rightarrow> memory) \<Rightarrow> 's \<Rightarrow> 's) \<Rightarrow> 'o
    \<Rightarrow> 's \<times> (u64 \<rightharpoonup> 'o) \<Rightarrow> 's \<times> (u64 \<rightharpoonup> 'o) \<Rightarrow> bool"
  for alloc free upd w where
  own_alloc: "alloc s = Inr (p, s') \<Longrightarrow> p \<noteq> 0 \<Longrightarrow>
     own_step alloc free upd w (s, own) (s', own(p \<mapsto> w))"
| own_alloc_fail: "alloc s = Inr (0, s') \<Longrightarrow> own_step alloc free upd w (s, own) (s', own)"
| own_free: "own p = Some w \<Longrightarrow> free p s = Inr (u, s') \<Longrightarrow>
     own_step alloc free upd w (s, own) (s', own(p := None))"
| own_write: "own (PGROUNDDOWN x) = Some w \<Longrightarrow>
     own_step alloc free upd w (s, own) (upd (\<lambda>m. m(x := b)) s, own)"

locale page_allocator =
  fixes alloc :: "('s, u64) kmon"
    and free :: "u64 \<Rightarrow> ('s, unit) kmon"
    and upd :: "(memory \<Rightarrow> memory) \<Rightarrow> 's \<Rightarrow> 's"
    and mem :: "'s \<Rightarrow> memory"
    and valid :: "'s \<Rightarrow> u64 \<Rightarrow> bool"
    and rep :: "'s \<Rightarrow> u64 list \<Rightarrow> bool"
  assumes rep_distinct: "rep s fs \<Longrightarrow> distinct fs"
    and rep_valid: "rep s fs \<Longrightarrow> p \<in> set fs \<Longrightarrow> valid s p \<and> p \<noteq> 0"
    and alloc_empty: "rep s [] \<Longrightarrow> alloc s = Inr (0, s)"
    and alloc_cons: "rep s (p # fs) \<Longrightarrow>
      \<exists>s'. alloc s = Inr (p, s') \<and> rep s' fs \<and> valid s' = valid s
         \<and> (\<forall>x. PGROUNDDOWN x \<noteq> p \<longrightarrow> mem s' x = mem s x)"
    and free_page: "rep s fs \<Longrightarrow> valid s p \<Longrightarrow> p \<notin> set fs \<Longrightarrow>
      \<exists>s'. free p s = Inr ((), s') \<and> rep s' (p # fs) \<and> valid s' = valid s
         \<and> (\<forall>x. PGROUNDDOWN x \<noteq> p \<longrightarrow> mem s' x = mem s x)"
    and write_owned: "rep s fs \<Longrightarrow> PGROUNDDOWN x \<notin> set fs \<Longrightarrow>
      rep (upd (\<lambda>m. m(x := b)) s) fs \<and> valid (upd (\<lambda>m. m(x := b)) s) = valid s
      \<and> mem (upd (\<lambda>m. m(x := b)) s) = (mem s)(x := b)"
begin

lemma alloc_fresh:
  assumes "rep s fs" "alloc s = Inr (p, s')" "p \<noteq> 0"
  shows "\<exists>gs. fs = p # gs \<and> rep s' gs \<and> valid s' = valid s
           \<and> (\<forall>x. PGROUNDDOWN x \<noteq> p \<longrightarrow> mem s' x = mem s x)"
  using assms alloc_empty[of s] alloc_cons[of s] by (cases fs) fastforce+

lemma alloc_null:
  assumes "rep s fs" "alloc s = Inr (0, s')"
  shows "fs = [] \<and> s' = s"
  using assms alloc_empty[of s] alloc_cons[of s] rep_valid[of s fs 0] by (cases fs) fastforce+

definition owned_inv :: "u64 set \<Rightarrow> 's \<times> (u64 \<rightharpoonup> 'o) \<Rightarrow> u64 list \<Rightarrow> bool" where
  "owned_inv U c fs \<longleftrightarrow>
     rep (fst c) fs \<and> set fs \<inter> dom (snd c) = {} \<and> set fs \<union> dom (snd c) = U
     \<and> (\<forall>p \<in> U. valid (fst c) p \<and> p \<noteq> 0)"

text \<open>One step of owner \<open>w\<close>: pages are conserved, and every other owner's pages are untouched.\<close>

lemma own_step_inv:
  assumes inv: "owned_inv U (s, own) fs" and step: "own_step alloc free upd w (s, own) (s', own')"
  shows "\<exists>gs. owned_inv U (s', own') gs"
    and "own p = Some v \<Longrightarrow> v \<noteq> w \<Longrightarrow>
      own' p = Some v \<and> (\<forall>x. PGROUNDDOWN x = p \<longrightarrow> mem s' x = mem s x)"
proof -
  from inv have R: "rep s fs" "set fs \<inter> dom own = {}" "set fs \<union> dom own = U"
      "\<forall>p \<in> U. valid s p \<and> p \<noteq> 0"
    by (auto simp: owned_inv_def)
  have "(\<exists>gs. owned_inv U (s', own') gs) \<and> (\<forall>p v. own p = Some v \<longrightarrow> v \<noteq> w \<longrightarrow>
      own' p = Some v \<and> (\<forall>x. PGROUNDDOWN x = p \<longrightarrow> mem s' x = mem s x))"
    using step
  proof (cases rule: own_step.cases)
    case (own_alloc p)
    then have "alloc s = Inr (p, s')" "p \<noteq> 0" by auto
    from alloc_fresh[OF R(1) this] obtain gs where gs: "fs = p # gs" "rep s' gs"
        "valid s' = valid s" "\<forall>x. PGROUNDDOWN x \<noteq> p \<longrightarrow> mem s' x = mem s x"
      by blast
    moreover have "p \<notin> set gs" using rep_distinct[OF R(1)] gs by simp
    ultimately have "owned_inv U (s', own') gs" using R own_alloc by (auto simp: owned_inv_def)
    then show ?thesis using own_alloc gs R by auto
  next
    case own_alloc_fail
    then have "alloc s = Inr (0, s')" "own' = own" by auto
    with alloc_null[OF R(1) this(1)] inv show ?thesis by auto
  next
    case (own_free p u)
    have "p \<in> U" "p \<notin> set fs" using R own_free by auto
    with R obtain s1 where s1: "free p s = Inr ((), s1)" "rep s1 (p # fs)" "valid s1 = valid s"
        "\<forall>x. PGROUNDDOWN x \<noteq> p \<longrightarrow> mem s1 x = mem s x"
      using free_page[of s fs p] by blast
    then have "owned_inv U (s', own') (p # fs)" using R own_free by (auto simp: owned_inv_def)
    then show ?thesis using own_free s1 by auto
  next
    case (own_write x b)
    have "PGROUNDDOWN x \<notin> set fs" using R own_write by auto
    from write_owned[OF R(1) this, of b] own_write R
    have "owned_inv U (s', own') fs" "mem s' = (mem s)(x := b)" by (auto simp: owned_inv_def)
    then show ?thesis using own_write by auto
  qed
  then show "\<exists>gs. owned_inv U (s', own') gs"
    and "own p = Some v \<Longrightarrow> v \<noteq> w \<Longrightarrow>
      own' p = Some v \<and> (\<forall>x. PGROUNDDOWN x = p \<longrightarrow> mem s' x = mem s x)"
    by blast+
qed

lemma own_reach_inv:
  assumes "owned_inv U (s0, own0) fs0"
    and "(\<lambda>c c'. \<exists>w. own_step alloc free upd w c c')\<^sup>*\<^sup>* (s0, own0) (s, own)"
  shows "\<exists>fs. owned_inv U (s, own) fs"
  using assms(2)
proof (induction "(s, own)" arbitrary: s own rule: rtranclp_induct)
  case base
  then show ?case using assms(1) by auto
next
  case (step c)
  then show ?case by (cases c) (blast dest: own_step_inv(1))
qed

end

subsection \<open>kinit\<close>

text \<open>The pages that \<^verbatim>\<open>freerange\<close> passes to \<^verbatim>\<open>kfree\<close>, from the last one to the first.\<close>

definition page_seq :: "u64 \<Rightarrow> nat \<Rightarrow> u64 list" where
  "page_seq p n = rev (map (\<lambda>i. p + of_nat i * PGSIZE) [0..<n])"

lemma page_seq_Suc: "page_seq p (Suc n) = page_seq (p + PGSIZE) n @ [p]"
  by (simp add: page_seq_def upt_conv_Cons map_Suc_upt[symmetric] algebra_simps del: upt_Suc)

lemma unat_page_add:
  assumes "unat p + n * 4096 \<le> unat (PHYSTOP :: u64)"
  shows "unat (p + of_nat n * PGSIZE) = unat p + n * 4096"
  using assms by (simp add: unat_word_ariths unat_of_nat)

lemma freerange_loop_pages:
  assumes "kmem_inv s fs" and "page_aligned p" "km_end s \<le> p"
    and "unat p + n * 4096 = unat (PHYSTOP :: u64)"
    and "\<forall>x \<in> set fs. x < p"
  shows "\<exists>s'. freerange_loop p PHYSTOP s = Some (Inr ((), s')) \<and> kmem_inv s' (page_seq p n @ fs)
              \<and> km_end s' = km_end s"
  using assms
proof (induction n arbitrary: p s fs)
  case 0
  then have "p = PHYSTOP" by (simp add: word_unat_eq_iff)
  with "0.prems" show ?case
    by (subst freerange_loop.simps) (simp add: page_seq_def)
next
  case (Suc n)
  have next_p: "unat (p + PGSIZE) = unat p + 4096"
    using unat_page_add[of p 1] Suc.prems(4) by simp
  have lt: "p < PHYSTOP" using Suc.prems(4) by (simp add: word_less_nat_alt)
  have le: "p + PGSIZE \<le> PHYSTOP" using Suc.prems(4) next_p by (simp add: word_le_nat_alt)
  have "page_ok s p" using Suc.prems lt by (simp add: page_ok_def)
  moreover have "p \<notin> set fs" using Suc.prems(5) by auto
  ultimately obtain s' where s': "kfree p s = Inr ((), s')" "kmem_inv s' (p # fs)"
      "km_end s' = km_end s"
    using kfree_inv[OF Suc.prems(1)] by blast
  have "\<exists>s''. freerange_loop (p + PGSIZE) PHYSTOP s' = Some (Inr ((), s'')) \<and>
          kmem_inv s'' (page_seq (p + PGSIZE) n @ p # fs) \<and> km_end s'' = km_end s'"
  proof (rule Suc.IH[OF s'(2)])
    show "page_aligned (p + PGSIZE)" using Suc.prems(2) next_p by (simp add: page_aligned_unat)
    show "km_end s' \<le> p + PGSIZE" using Suc.prems(3) next_p s'(3) by (simp add: word_le_nat_alt)
    show "unat (p + PGSIZE) + n * 4096 = unat (PHYSTOP :: u64)" using Suc.prems(4) next_p by simp
    show "\<forall>x\<in>set (p # fs). x < p + PGSIZE"
      using Suc.prems(5) next_p by (auto simp: word_less_nat_alt)
  qed
  then show ?case
    using s' le by (subst freerange_loop.simps) (auto simp: page_seq_Suc)
qed

lemma page_seq_set:
  assumes al: "page_aligned p" and n: "unat p + n * 4096 = unat (PHYSTOP :: u64)"
  shows "set (page_seq p n) = {x. page_aligned x \<and> p \<le> x \<and> x < PHYSTOP}"
proof (intro set_eqI iffI)
  fix x assume "x \<in> set (page_seq p n)"
  then obtain i where i: "i < n" "x = p + of_nat i * PGSIZE" by (auto simp: page_seq_def)
  then have "unat x = unat p + i * 4096" using n unat_page_add[of p i] by simp
  then show "x \<in> {x. page_aligned x \<and> p \<le> x \<and> x < PHYSTOP}"
    using al n i by (simp add: page_aligned_unat word_le_nat_alt word_less_nat_alt)
next
  fix x assume x: "x \<in> {x. page_aligned x \<and> p \<le> x \<and> x < PHYSTOP}"
  obtain j q where jq: "unat x = 4096 * j" "unat p = 4096 * q"
    using x al by (auto simp: page_aligned_unat elim!: dvdE)
  have i: "q \<le> j" "j - q < n"
    using x n jq by (auto simp: word_le_nat_alt word_less_nat_alt)
  then have "unat (p + of_nat (j - q) * PGSIZE) = unat x"
    using n jq unat_page_add[of p "j - q"] by simp
  then have "x = p + of_nat (j - q) * PGSIZE" by (simp add: word_unat_eq_iff)
  then show "x \<in> set (page_seq p n)"
    using i(2) unfolding page_seq_def set_rev set_map by (intro image_eqI[of _ _ "j - q"]) auto
qed

lemma PGROUNDUP_le_iff:
  assumes "page_aligned x" and "unat sz + 4095 < 2 ^ 64"
  shows "PGROUNDUP sz \<le> x \<longleftrightarrow> sz \<le> x"
proof -
  obtain j where "unat x = 4096 * j" using assms(1) by (auto simp: page_aligned_unat elim!: dvdE)
  then show ?thesis
    using assms(2) by (simp add: word_le_nat_alt PGROUNDUP_unat) linarith
qed

text \<open>
  C12: at boot, \<^verbatim>\<open>kinit\<close> returns (its loop ends and no call of \<^verbatim>\<open>kfree\<close> panics) and leaves
  a well-formed free list holding exactly the whole pages between the end of the kernel and
  \<^verbatim>\<open>PHYSTOP\<close>, each once, whatever the memory contained before.
\<close>

theorem kinit_frees_all_pages:
  assumes "km_freelist s = 0" and "0 < km_end s" and "km_end s \<le> PHYSTOP"
  shows "\<exists>s' fs. kinit s = Some (Inr ((), s')) \<and> kmem_inv s' fs \<and> distinct fs
           \<and> set fs = {p. page_aligned p \<and> km_end s \<le> p \<and> p < PHYSTOP}"
proof -
  have end_le: "unat (km_end s) \<le> unat (PHYSTOP :: u64)"
    using assms(3) by (simp add: word_le_nat_alt)
  then have small: "unat (km_end s) + 4095 < 2 ^ 64" by simp
  define k where "k = (unat (km_end s) + 4095) div 4096"
  have "k \<le> 0x88000" using end_le by (simp add: k_def)
  then have n: "unat (PGROUNDUP (km_end s)) + (0x88000 - k) * 4096 = unat (PHYSTOP :: u64)"
    using small by (simp add: PGROUNDUP_unat k_def diff_mult_distrib)
  have ge: "km_end s \<le> PGROUNDUP (km_end s)"
    using PGROUNDUP_le_iff[OF _ small, of "PGROUNDUP (km_end s)"] by simp
  have "kmem_inv s []" using assms by (simp add: kmem_inv_def)
  from freerange_loop_pages[OF this _ ge n]
  obtain s' where s': "freerange_loop (PGROUNDUP (km_end s)) PHYSTOP s = Some (Inr ((), s'))"
      "kmem_inv s' (page_seq (PGROUNDUP (km_end s)) (0x88000 - k))"
    by auto
  have "set (page_seq (PGROUNDUP (km_end s)) (0x88000 - k)) =
      {p. page_aligned p \<and> km_end s \<le> p \<and> p < PHYSTOP}"
    using page_seq_set[OF _ n] PGROUNDUP_le_iff[OF _ small] by auto
  then show ?thesis using s' unfolding kinit_def freerange_def kmem_inv_def by blast
qed

definition one_page :: kmem where
  "one_page = \<lparr>km_mem = (\<lambda>_. 0), km_freelist = 0x87FFF000, km_end = 0x80022000\<rparr>"

lemma one_page_inv: "kmem_inv one_page [0x87FFF000]"
proof -
  have "load_bytes (\<lambda>_. 0) 0x87FFF000 8 = replicate 8 0"
    by (rule nth_equalityI) simp_all
  then show ?thesis
    by (simp add: one_page_def kmem_inv_def page_ok_def load64_def page_aligned_unat)
qed

theorem kinit_frees_all_pages_witness:
  "\<exists>s' fs. kinit (one_page\<lparr>km_freelist := 0\<rparr>) = Some (Inr ((), s')) \<and> kmem_inv s' fs \<and> distinct fs
     \<and> set fs = {p. page_aligned p \<and> 0x80022000 \<le> p \<and> p < PHYSTOP}"
  using kinit_frees_all_pages[of "one_page\<lparr>km_freelist := 0\<rparr>"] by (simp add: one_page_def)

subsection \<open>Ownership of pages\<close>

lemma km_mem_update_const: "km_mem_update f s = s\<lparr>km_mem := f (km_mem s)\<rparr>"
  by (cases s) simp

interpretation kmem_alloc: page_allocator kalloc kfree km_mem_update km_mem page_ok kmem_inv
proof
  fix s :: "'a kmem_scheme" and fs p x b
  show "distinct fs" if "kmem_inv s fs" using that by (simp add: kmem_inv_def)
  show "page_ok s p \<and> p \<noteq> 0" if "kmem_inv s fs" "p \<in> set fs"
    using kmem_inv_page_ok[OF that] that(1) by (auto simp: kmem_inv_def page_ok_def)
  show "kalloc s = Inr (0, s)" if "kmem_inv s []" using that by (rule kalloc_empty)
  show "\<exists>s'. kalloc s = Inr (p, s') \<and> kmem_inv s' fs \<and> page_ok s' = page_ok s
      \<and> (\<forall>x. PGROUNDDOWN x \<noteq> p \<longrightarrow> km_mem s' x = km_mem s x)" if "kmem_inv s (p # fs)"
    using kalloc_cons[OF that] by (auto simp: page_ok_def fun_eq_iff)
  show "\<exists>s'. kfree p s = Inr ((), s') \<and> kmem_inv s' (p # fs) \<and> page_ok s' = page_ok s
      \<and> (\<forall>x. PGROUNDDOWN x \<noteq> p \<longrightarrow> km_mem s' x = km_mem s x)"
    if "kmem_inv s fs" "page_ok s p" "p \<notin> set fs"
    using kfree_inv[OF that] by (auto simp: page_ok_def fun_eq_iff)
  show "kmem_inv (km_mem_update (\<lambda>m. m(x := b)) s) fs
      \<and> page_ok (km_mem_update (\<lambda>m. m(x := b)) s) = page_ok s
      \<and> km_mem (km_mem_update (\<lambda>m. m(x := b)) s) = (km_mem s)(x := b)"
    if "kmem_inv s fs" "PGROUNDDOWN x \<notin> set fs"
    unfolding km_mem_update_const[of "\<lambda>m. m(x := b)"]
    using that(2) by (auto simp: page_ok_def fun_eq_iff intro!: kmem_inv_mem_update[OF that(1)])
qed

text \<open>
  C11: memory isolation. Start from a well-formed free list with no page owned and let any owners
  (processes, page tables, pipes) interleave \<^verbatim>\<open>kalloc\<close>, \<^verbatim>\<open>kfree\<close> of pages they own and writes
  into pages they own. Then at every moment each page of the initial free list is either free or
  owned, never both, and none is lost; and the next step of an owner \<open>w\<close> neither takes away nor
  changes a byte of a page of another owner.
\<close>

theorem kalloc_ownership:
  assumes "kmem_inv s0 fs0"
    and "(\<lambda>c c'. \<exists>w. own_step kalloc kfree km_mem_update w c c')\<^sup>*\<^sup>* (s0, Map.empty) (s, own)"
  shows "(\<exists>fs. kmem_inv s fs \<and> set fs \<inter> dom own = {} \<and> set fs \<union> dom own = set fs0)
    \<and> (\<forall>w s' own' p v. own_step kalloc kfree km_mem_update w (s, own) (s', own')
          \<longrightarrow> own p = Some v \<longrightarrow> v \<noteq> w
          \<longrightarrow> own' p = Some v \<and> (\<forall>x. PGROUNDDOWN x = p \<longrightarrow> km_mem s' x = km_mem s x))"
proof -
  have "kmem_alloc.owned_inv (set fs0) (s0, Map.empty) fs0"
    using assms(1) kmem_alloc.rep_valid[OF assms(1)] by (simp add: kmem_alloc.owned_inv_def)
  from kmem_alloc.own_reach_inv[OF this assms(2)]
  obtain fs where fs: "kmem_alloc.owned_inv (set fs0) (s, own) fs" by blast
  then have "\<exists>fs. kmem_inv s fs \<and> set fs \<inter> dom own = {} \<and> set fs \<union> dom own = set fs0"
    by (auto simp: kmem_alloc.owned_inv_def)
  then show ?thesis using kmem_alloc.own_step_inv(2)[OF fs] by blast
qed

theorem kalloc_ownership_witness:
  "\<exists>s own fs. kalloc one_page = Inr (0x87FFF000, s) \<and> own = [0x87FFF000 \<mapsto> (1::nat)]
     \<and> kmem_inv s fs \<and> set fs \<inter> dom own = {} \<and> set fs \<union> dom own = {0x87FFF000}"
proof -
  obtain s where s: "kalloc one_page = Inr (0x87FFF000, s)"
    using kalloc_cons[OF one_page_inv] by blast
  then have "own_step kalloc kfree km_mem_update (1::nat) (one_page, Map.empty)
      (s, [0x87FFF000 \<mapsto> 1])"
    by (intro own_alloc) simp_all
  then have "(\<lambda>c c'. \<exists>w :: nat. own_step kalloc kfree km_mem_update w c c')\<^sup>*\<^sup>*
      (one_page, Map.empty) (s, [0x87FFF000 \<mapsto> 1])"
    by (intro r_into_rtranclp) blast
  with kalloc_ownership[OF one_page_inv] s show ?thesis by fastforce
qed

end
