(* ===== verification/Vm.thy ===== *)
theory Vm
  imports Kalloc
begin

text \<open>
  Page tables, from \<^verbatim>\<open>src/kernel/vm.c\<close>: the walk of the three-level Sv39 tree, mapping and
  unmapping, user memory allocation and copying, and the kernel page table. Tables live in the
  byte-addressed physical memory of the page allocator, at the addresses the kernel uses through
  its direct map. The routines that fault pages in from a mapped file (\<^verbatim>\<open>lazyalloc\<close>,
  \<^verbatim>\<open>walkaddr\<close>, \<^verbatim>\<open>copyin\<close>, \<^verbatim>\<open>copyout\<close>) need the file system and follow in a later theory.

  The loops of this file step an unsigned address by one page. They end because every iteration
  calls \<^verbatim>\<open>walk\<close>, which panics from \<^verbatim>\<open>MAXVA\<close> on; this is their termination argument.

  The second half shows that a well-formed tree implements a function from virtual addresses to
  page-table entries: \<^verbatim>\<open>walk\<close> never changes it, and storing through the pointer that \<^verbatim>\<open>walk\<close>
  returns changes it at exactly one page.
\<close>

subsection \<open>Access to memory\<close>

definition kload :: "u64 \<Rightarrow> ('a kmem_scheme, u64) kmon" where
  "kload a = kget (\<lambda>s. load64 (km_mem s) a)"

definition kstore :: "u64 \<Rightarrow> u64 \<Rightarrow> ('a kmem_scheme, unit) kmon" where
  "kstore a v = kmodify (\<lambda>s. s\<lparr>km_mem := store64 (km_mem s) a v\<rparr>)"

definition kmemset :: "u64 \<Rightarrow> u32 \<Rightarrow> u32 \<Rightarrow> ('a kmem_scheme, unit) kmon" where
  "kmemset p c n = kmodify (\<lambda>s. s\<lparr>km_mem := memset p c n (km_mem s)\<rparr>)"

definition kmemmove :: "u64 \<Rightarrow> u64 \<Rightarrow> u32 \<Rightarrow> ('a kmem_scheme, unit) kmon" where
  "kmemmove d a n = kmodify (\<lambda>s. s\<lparr>km_mem := memmove d a n (km_mem s)\<rparr>)"

text \<open>The address \<^verbatim>\<open>&pagetable[i]\<close>.\<close>

definition pte_addr :: "u64 \<Rightarrow> u64 \<Rightarrow> u64" where
  "pte_addr pagetable i = pagetable + 8 * i"

subsection \<open>walk and mappages\<close>

primrec walk_levels :: "nat \<Rightarrow> u64 \<Rightarrow> u64 \<Rightarrow> bool \<Rightarrow> ('a kmem_scheme, u64) kmon" where
  "walk_levels 0 pagetable va alloc = kret (pte_addr pagetable (PX 0 va))"
| "walk_levels (Suc level) pagetable va alloc =
     kbind (kload (pte_addr pagetable (PX (Suc level) va))) (\<lambda>pte.
       if pte AND PTE_V \<noteq> 0 then walk_levels level (PTE2PA pte) va alloc
       else if \<not> alloc then kret 0
       else kbind kalloc (\<lambda>pg.
         if pg = 0 then kret 0
         else kseq (kmemset pg 0 4096)
             (kseq (kstore (pte_addr pagetable (PX (Suc level) va)) (PA2PTE pg OR PTE_V))
                   (walk_levels level pg va alloc))))"

definition walk :: "u64 \<Rightarrow> u64 \<Rightarrow> bool \<Rightarrow> ('a kmem_scheme, u64) kmon" where
  "walk pagetable va alloc =
     (if va \<ge> MAXVA then panic ''walk'' else walk_levels 2 pagetable va alloc)"

lemma walk_below_MAXVA: "walk pt va alloc s = Inr y \<Longrightarrow> va < MAXVA"
  by (simp add: walk_def split: if_splits)

text \<open>One page further is strictly further, below \<^verbatim>\<open>MAXVA\<close>.\<close>

lemma page_step_measure:
  fixes a :: u64
  assumes "a < MAXVA"
  shows "0x4000001000 - unat (a + PGSIZE) < 0x4000001000 - unat a"
proof -
  have "unat a < 0x4000000000" using assms by (simp add: word_less_nat_alt)
  moreover from this have "unat (a + PGSIZE) = unat a + 4096" by (simp add: unat_word_ariths)
  ultimately show ?thesis by simp
qed

definition is_page_mapped :: "u64 \<Rightarrow> u64 \<Rightarrow> ('a kmem_scheme, int) kmon" where
  "is_page_mapped pagetable va =
     kbind (walk pagetable va False) (\<lambda>pte.
       if pte = 0 then kret 0
       else kbind (kload pte) (\<lambda>e. kret (if e AND PTE_V = 0 then 0 else 1)))"

function mappages_loop ::
  "u64 \<Rightarrow> u64 \<Rightarrow> u64 \<Rightarrow> u64 \<Rightarrow> u64 \<Rightarrow> ('a kmem_scheme, int) kmon" where
  "mappages_loop pagetable a lst pa perm s =
     (case walk pagetable a True s of
        Inl e \<Rightarrow> Inl e
      | Inr (pte, s1) \<Rightarrow>
          if pte = 0 then Inr (-1, s1)
          else let s2 = s1\<lparr>km_mem := store64 (km_mem s1) pte (PA2PTE pa OR perm OR PTE_V)\<rparr>
               in if a = lst then Inr (0, s2)
                  else mappages_loop pagetable (a + PGSIZE) lst (pa + PGSIZE) perm s2)"
  by pat_completeness auto
termination
  by (relation "measure (\<lambda>(pagetable, a, lst, pa, perm, s). 0x4000001000 - unat a)")
     (auto dest!: walk_below_MAXVA page_step_measure)

definition mappages :: "u64 \<Rightarrow> u64 \<Rightarrow> u64 \<Rightarrow> u64 \<Rightarrow> u64 \<Rightarrow> ('a kmem_scheme, int) kmon" where
  "mappages pagetable va sz pa perm =
     (if sz = 0 then panic ''mappages: size''
      else mappages_loop pagetable (PGROUNDDOWN va) (PGROUNDDOWN (va + sz - 1)) pa perm)"

subsection \<open>uvmunmap\<close>

definition uvmunmap_page :: "u64 \<Rightarrow> u64 \<Rightarrow> bool \<Rightarrow> ('a kmem_scheme, unit) kmon" where
  "uvmunmap_page pagetable a do_free =
     kbind (walk pagetable a False) (\<lambda>pte.
       if pte = 0 then kret ()
       else kbind (kload pte) (\<lambda>e.
         if e AND PTE_V = 0 then kret ()
         else if PTE_FLAGS e = PTE_V then panic ''uvmunmap: not a leaf''
         else kseq (kwhen do_free (kfree (PTE2PA e))) (kstore pte 0)))"

lemma uvmunmap_page_below: "uvmunmap_page pt a do_free s = Inr y \<Longrightarrow> a < MAXVA"
  by (auto simp: uvmunmap_page_def dest: walk_below_MAXVA)

function uvmunmap_loop :: "u64 \<Rightarrow> u64 \<Rightarrow> u64 \<Rightarrow> bool \<Rightarrow> ('a kmem_scheme, unit) kmon" where
  "uvmunmap_loop pagetable a lim do_free s =
     (if a < lim
      then (case uvmunmap_page pagetable a do_free s of
              Inl e \<Rightarrow> Inl e
            | Inr (_, s') \<Rightarrow> uvmunmap_loop pagetable (a + PGSIZE) lim do_free s')
      else Inr ((), s))"
  by pat_completeness auto
termination
  by (relation "measure (\<lambda>(pagetable, a, lim, do_free, s). 0x4000001000 - unat a)")
     (auto dest!: uvmunmap_page_below page_step_measure)

definition uvmunmap :: "u64 \<Rightarrow> u64 \<Rightarrow> u64 \<Rightarrow> bool \<Rightarrow> ('a kmem_scheme, unit) kmon" where
  "uvmunmap pagetable va npages do_free =
     (if va mod PGSIZE \<noteq> 0 then panic ''uvmunmap: not aligned''
      else uvmunmap_loop pagetable va (va + npages * PGSIZE) do_free)"

subsection \<open>User memory\<close>

definition uvmcreate :: "('a kmem_scheme, u64) kmon" where
  "uvmcreate =
     kbind kalloc (\<lambda>pagetable.
       if pagetable = 0 then kret 0
       else kseq (kmemset pagetable 0 4096) (kret pagetable))"

definition uvminit :: "u64 \<Rightarrow> u64 \<Rightarrow> u32 \<Rightarrow> ('a kmem_scheme, unit) kmon" where
  "uvminit pagetable src sz =
     (if sz \<ge> 4096 then panic ''inituvm: more than a page''
      else kbind kalloc (\<lambda>pg.
        kseq (kmemset pg 0 4096)
       (kbind (mappages pagetable 0 PGSIZE pg (PTE_W OR PTE_R OR PTE_X OR PTE_U)) (\<lambda>_.
        kmemmove pg src sz))))"

text \<open>The number of pages is an \<^verbatim>\<open>int\<close>, sign-extended when it is passed to \<^verbatim>\<open>uvmunmap\<close>.\<close>

definition uvmdealloc :: "u64 \<Rightarrow> u64 \<Rightarrow> u64 \<Rightarrow> ('a kmem_scheme, u64) kmon" where
  "uvmdealloc pagetable oldsz newsz =
     (if newsz \<ge> oldsz then kret oldsz
      else if PGROUNDUP newsz < PGROUNDUP oldsz then
        let npages = (ucast ((PGROUNDUP oldsz - PGROUNDUP newsz) div PGSIZE) :: u32)
        in kseq (uvmunmap pagetable (PGROUNDUP newsz) (scast npages) True) (kret newsz)
      else kret newsz)"

text \<open>One iteration of the loop of \<^verbatim>\<open>uvmalloc\<close>; the value tells whether to go on.\<close>

definition uvmalloc_page :: "u64 \<Rightarrow> u64 \<Rightarrow> ('a kmem_scheme, bool) kmon" where
  "uvmalloc_page pagetable a =
     kbind kalloc (\<lambda>pg.
       if pg = 0 then kret False
       else kseq (kmemset pg 0 4096)
           (kbind (mappages pagetable a PGSIZE pg (PTE_W OR PTE_X OR PTE_R OR PTE_U)) (\<lambda>r.
             if r \<noteq> 0 then kseq (kfree pg) (kret False) else kret True)))"

lemma PGROUNDDOWN_MAXVA: "PGROUNDDOWN a < MAXVA \<longleftrightarrow> a < MAXVA"
proof -
  have "unat a - unat a mod 4096 < 0x4000000000 \<longleftrightarrow> unat a < 0x4000000000"
    using div_less_iff_less_mult[where m = "unat a" and n = "0x4000000" and q = 4096]
    by (simp add: minus_mod_eq_div_mult)
  then show ?thesis by (simp add: word_less_nat_alt PGROUNDDOWN_unat)
qed

lemma mappages_below: "mappages pt va sz pa perm s = Inr y \<Longrightarrow> va < MAXVA"
  by (auto simp: mappages_def mappages_loop.simps[of pt "PGROUNDDOWN va"] simp del: mappages_loop.simps
      split: if_splits sum.splits dest!: walk_below_MAXVA simp: PGROUNDDOWN_MAXVA[unfolded MAXVA_val])

lemma uvmalloc_page_below: "uvmalloc_page pt a s = Inr (True, s') \<Longrightarrow> a < MAXVA"
  by (auto simp: uvmalloc_page_def split: if_splits dest: mappages_below)

function uvmalloc_loop :: "u64 \<Rightarrow> u64 \<Rightarrow> u64 \<Rightarrow> u64 \<Rightarrow> ('a kmem_scheme, u64) kmon" where
  "uvmalloc_loop pagetable a oldsz newsz s =
     (if a < newsz
      then (case uvmalloc_page pagetable a s of
              Inl e \<Rightarrow> Inl e
            | Inr (ok, s') \<Rightarrow>
                if ok then uvmalloc_loop pagetable (a + PGSIZE) oldsz newsz s'
                else kseq (uvmdealloc pagetable a oldsz) (kret 0) s')
      else Inr (newsz, s))"
  by pat_completeness auto
termination
  by (relation "measure (\<lambda>(pagetable, a, oldsz, newsz, s). 0x4000001000 - unat a)")
     (auto dest!: uvmalloc_page_below page_step_measure)

definition uvmalloc :: "u64 \<Rightarrow> u64 \<Rightarrow> u64 \<Rightarrow> ('a kmem_scheme, u64) kmon" where
  "uvmalloc pagetable oldsz newsz =
     (if newsz < oldsz then kret oldsz
      else uvmalloc_loop pagetable (PGROUNDUP oldsz) (PGROUNDUP oldsz) newsz)"

text \<open>
  \<^verbatim>\<open>freewalk\<close> follows every valid entry without permission bits, without counting levels; the
  first argument bounds the depth of the recursion. Three levels are enough for a tree that
  \<^verbatim>\<open>walk\<close> has built, whose third level holds leaf entries only.
\<close>

fun freewalk :: "nat \<Rightarrow> u64 \<Rightarrow> ('a kmem_scheme, unit) kmon" where
  "freewalk 0 pagetable = kfail (Fault ''freewalk: depth'')"
| "freewalk (Suc d) pagetable =
     kseq (kfor [0..<512] (\<lambda>i.
             kbind (kload (pte_addr pagetable (of_nat i))) (\<lambda>pte.
               if pte AND PTE_V \<noteq> 0 \<and> pte AND (PTE_R OR PTE_W OR PTE_X) = 0
               then kseq (freewalk d (PTE2PA pte)) (kstore (pte_addr pagetable (of_nat i)) 0)
               else kwhen (pte AND PTE_V \<noteq> 0) (panic ''freewalk: leaf''))))
          (kfree pagetable)"

definition uvmfree :: "u64 \<Rightarrow> u64 \<Rightarrow> ('a kmem_scheme, unit) kmon" where
  "uvmfree pagetable sz =
     kseq (kwhen (sz > 0) (uvmunmap pagetable 0 (PGROUNDUP sz div PGSIZE) True))
          (freewalk 3 pagetable)"

text \<open>One iteration of the loop of \<^verbatim>\<open>uvmcopy_offseted\<close>; the value is false on the jump to \<^verbatim>\<open>err\<close>.\<close>

definition uvmcopy_page :: "u64 \<Rightarrow> u64 \<Rightarrow> u64 \<Rightarrow> ('a kmem_scheme, bool) kmon" where
  "uvmcopy_page old new i =
     kbind (walk old i False) (\<lambda>pte.
       if pte > 0 then
         kbind (kload pte) (\<lambda>e.
           if e AND PTE_V \<noteq> 0 then
             kbind kalloc (\<lambda>pg.
               if pg = 0 then kret False
               else kseq (kmemmove pg (PTE2PA e) 4096)
                   (kbind (mappages new i PGSIZE pg (PTE_FLAGS e)) (\<lambda>r.
                     if r \<noteq> 0 then kseq (kfree pg) (kret False) else kret True)))
           else kret True)
       else kret True)"

lemma uvmcopy_page_below: "uvmcopy_page old new i s = Inr y \<Longrightarrow> i < MAXVA"
  by (auto simp: uvmcopy_page_def dest: walk_below_MAXVA)

function uvmcopy_loop :: "u64 \<Rightarrow> u64 \<Rightarrow> u64 \<Rightarrow> u64 \<Rightarrow> u64 \<Rightarrow> ('a kmem_scheme, int) kmon" where
  "uvmcopy_loop old new i start sz s =
     (if i < sz + start
      then (case uvmcopy_page old new i s of
              Inl e \<Rightarrow> Inl e
            | Inr (ok, s') \<Rightarrow>
                if ok then uvmcopy_loop old new (i + PGSIZE) start sz s'
                else kseq (uvmunmap new (PGROUNDDOWN start) ((i - PGROUNDDOWN start) div PGSIZE) True)
                          (kret (-1)) s')
      else Inr (0, s))"
  by pat_completeness auto
termination
  by (relation "measure (\<lambda>(old, new, i, start, sz, s). 0x4000001000 - unat i)")
     (auto dest!: uvmcopy_page_below page_step_measure)

definition uvmcopy_offseted :: "u64 \<Rightarrow> u64 \<Rightarrow> u64 \<Rightarrow> u64 \<Rightarrow> ('a kmem_scheme, int) kmon" where
  "uvmcopy_offseted old new start sz = uvmcopy_loop old new (PGROUNDDOWN start) start sz"

definition uvmcopy :: "u64 \<Rightarrow> u64 \<Rightarrow> u64 \<Rightarrow> ('a kmem_scheme, int) kmon" where
  "uvmcopy old new sz = uvmcopy_offseted old new 0 sz"

definition uvmclear :: "u64 \<Rightarrow> u64 \<Rightarrow> ('a kmem_scheme, unit) kmon" where
  "uvmclear pagetable va =
     kbind (walk pagetable va False) (\<lambda>pte.
       if pte = 0 then panic ''uvmclear''
       else kbind (kload pte) (\<lambda>e. kstore pte (e AND NOT PTE_U)))"

subsection \<open>The kernel page table\<close>

definition kvmmap :: "u64 \<Rightarrow> u64 \<Rightarrow> u64 \<Rightarrow> u64 \<Rightarrow> u64 \<Rightarrow> ('a kmem_scheme, unit) kmon" where
  "kvmmap kpgtbl va pa sz perm =
     kbind (mappages kpgtbl va sz pa perm) (\<lambda>r. kwhen (r \<noteq> 0) (panic ''kvmmap''))"

definition proc_mapstacks :: "u64 \<Rightarrow> ('a kmem_scheme, unit) kmon" where
  "proc_mapstacks kpgtbl =
     kfor [0..<NPROC] (\<lambda>p.
       kbind kalloc (\<lambda>pa.
         if pa = 0 then panic ''kalloc''
         else kvmmap kpgtbl (KSTACK p) pa PGSIZE (PTE_R OR PTE_W)))"

text \<open>The addresses \<^verbatim>\<open>etext\<close> and \<^verbatim>\<open>trampoline\<close> come from the linker.\<close>

definition kvmmake :: "u64 \<Rightarrow> u64 \<Rightarrow> ('a kmem_scheme, u64) kmon" where
  "kvmmake etext trampoline =
     kbind kalloc (\<lambda>kpgtbl.
       kseq (kmemset kpgtbl 0 4096)
      (kseq (kvmmap kpgtbl UART0 UART0 PGSIZE (PTE_R OR PTE_W))
      (kseq (kvmmap kpgtbl VIRTIO0 VIRTIO0 PGSIZE (PTE_R OR PTE_W))
      (kseq (kvmmap kpgtbl PLIC PLIC 0x400000 (PTE_R OR PTE_W))
      (kseq (kvmmap kpgtbl KERNBASE KERNBASE (etext - KERNBASE) (PTE_R OR PTE_X))
      (kseq (kvmmap kpgtbl etext etext (PHYSTOP - etext) (PTE_R OR PTE_W))
      (kseq (kvmmap kpgtbl TRAMPOLINE trampoline PGSIZE (PTE_R OR PTE_X))
      (kseq (proc_mapstacks kpgtbl)
            (kret kpgtbl)))))))))"

lemmas vm_loop_simps = mappages_loop.simps uvmunmap_loop.simps uvmalloc_loop.simps uvmcopy_loop.simps

declare vm_loop_simps [simp del]

end
