(* ===== verification/Vmtree.thy ===== *)
theory Vmtree
  imports Vm "HOL-Library.Sublist"
begin

text \<open>
  What the page-table code of \<^verbatim>\<open>src/kernel/vm.c\<close> implements. A set of page tables with distinct
  pages is a forest in physical memory; each root is seen as the function \<open>pte_of\<close> from virtual
  addresses to page-table entries. \<^verbatim>\<open>walk\<close> keeps that function while it adds tables, and
  \<^verbatim>\<open>mappages\<close> and \<^verbatim>\<open>uvmunmap\<close> update it on exactly the pages of their range.
\<close>

subsection \<open>Tables as paths of indices\<close>

definition node :: "memory \<Rightarrow> u64 \<Rightarrow> u64 \<Rightarrow> u64 option" where
  "node m q i = (let e = load64 m (pte_addr q i) in if e AND PTE_V \<noteq> 0 then Some (PTE2PA e) else None)"

definition tbl :: "memory \<Rightarrow> u64 \<Rightarrow> u64 list \<Rightarrow> u64 option" where
  "tbl m r \<pi> = foldl (\<lambda>oq i. Option.bind oq (\<lambda>q. node m q i)) (Some r) \<pi>"

definition path :: "u64 list \<Rightarrow> bool" where
  "path \<pi> = (length \<pi> \<le> 2 \<and> list_all (\<lambda>i. i < 512) \<pi>)"

definition pte_of :: "memory \<Rightarrow> u64 \<Rightarrow> u64 \<Rightarrow> u64" where
  "pte_of m r va =
     (case tbl m r [PX 2 va, PX 1 va] of
        None \<Rightarrow> 0
      | Some q \<Rightarrow> load64 m (pte_addr q (PX 0 va)))"

text \<open>Two addresses use the same leaf entry.\<close>

definition same_pte :: "u64 \<Rightarrow> u64 \<Rightarrow> bool" where
  "same_pte va va' = (PX 2 va = PX 2 va' \<and> PX 1 va = PX 1 va' \<and> PX 0 va = PX 0 va')"

text \<open>
  The forest of the roots \<open>R\<close> is well formed when every table page is aligned, satisfies \<open>ok\<close>
  and is reached by one path from one root only.
\<close>

definition pt_wf :: "memory \<Rightarrow> u64 set \<Rightarrow> (u64 \<Rightarrow> bool) \<Rightarrow> bool" where
  "pt_wf m R ok \<longleftrightarrow>
     (\<forall>r\<in>R. \<forall>\<pi> q. path \<pi> \<longrightarrow> tbl m r \<pi> = Some q \<longrightarrow> page_aligned q \<and> ok q) \<and>
     (\<forall>r\<in>R. \<forall>r'\<in>R. \<forall>\<pi> \<pi>' q. path \<pi> \<longrightarrow> path \<pi>' \<longrightarrow> tbl m r \<pi> = Some q \<longrightarrow> tbl m r' \<pi>' = Some q
        \<longrightarrow> r = r' \<and> \<pi> = \<pi>')"

definition in_tables :: "memory \<Rightarrow> u64 set \<Rightarrow> u64 \<Rightarrow> bool" where
  "in_tables m R q \<longleftrightarrow> (\<exists>r\<in>R. \<exists>\<pi>. path \<pi> \<and> tbl m r \<pi> = Some q)"

lemma tbl_Nil [simp]: "tbl m r [] = Some r"
  by (simp add: tbl_def)

lemma tbl_snoc [simp]: "tbl m r (\<pi> @ [i]) = Option.bind (tbl m r \<pi>) (\<lambda>q. node m q i)"
  by (simp add: tbl_def)

lemma tbl_prefix_None:
  assumes "tbl m r \<pi> = None"
  shows "tbl m r (\<pi> @ \<rho>) = None"
  using assms by (induction \<rho> rule: rev_induct) (simp_all flip: append_assoc)

lemma tbl_two: "tbl m r [i, j] = Option.bind (tbl m r [i]) (\<lambda>q. node m q j)"
  using tbl_snoc[of m r "[i]" j] by simp

lemma tbl_one: "tbl m r [i] = node m r i"
  using tbl_snoc[of m r "[]" i] by simp

lemma path_Nil [simp]: "path []"
  by (simp add: path_def)

lemma path_snocD: "path (\<pi> @ [i]) \<Longrightarrow> path \<pi> \<and> i < 512 \<and> length \<pi> \<le> 1"
  by (auto simp: path_def)

lemma PX_lt: "PX l va < 512"
  using PX_less[of l va] by (simp add: word_less_nat_alt)

lemma path_PX [simp]: "path [PX 2 va, PX 1 va]" "path [PX 2 va]"
  by (simp_all add: path_def PX_lt)

lemma pt_wfD:
  assumes "pt_wf m R ok" "r \<in> R" "path \<pi>" "tbl m r \<pi> = Some q"
  shows "page_aligned q" "ok q"
  using assms unfolding pt_wf_def by blast+

lemma pt_wf_inj:
  assumes "pt_wf m R ok" "r \<in> R" "r' \<in> R" "path \<pi>" "path \<pi>'" "tbl m r \<pi> = Some q"
    "tbl m r' \<pi>' = Some q"
  shows "r = r' \<and> \<pi> = \<pi>'"
  using assms unfolding pt_wf_def by blast

subsection \<open>Addresses of entries\<close>

lemma pte_addr_unat:
  assumes "page_aligned q" "i < 512"
  shows "unat (pte_addr q i) = unat q + 8 * unat i"
proof -
  have i: "unat i < 512" using assms(2) by (simp add: word_less_nat_alt)
  then have "8 * unat i < 4096" by simp
  then have "unat q + 8 * unat i < 2 ^ 64"
    using mod4096_room[OF assms(1)[unfolded page_aligned_unat] unat_u64] by simp
  moreover have "unat (8 * i) = 8 * unat i" using i by (simp add: unat_word_ariths)
  ultimately show ?thesis unfolding pte_addr_def using unat_add_small[of q "8 * i"] by simp
qed

lemma pte_addr_page:
  assumes "page_aligned q" "i < 512"
  shows "PGROUNDDOWN (pte_addr q i) = q" and "aligned8 (pte_addr q i)"
proof -
  have i: "8 * unat i < 4096" using assms(2) by (simp add: word_less_nat_alt)
  have "pte_addr q i - q = 8 * i" by (simp add: pte_addr_def)
  moreover have "unat (8 * i) < 4096" using i by (simp add: unat_word_ariths)
  ultimately show "PGROUNDDOWN (pte_addr q i) = q" using in_page_iff[OF assms(1)] by metis
  show "aligned8 (pte_addr q i)"
    using page_aligned_8[OF assms(1)] by (simp add: aligned8_def pte_addr_unat[OF assms] mod_add_left_eq[symmetric])
qed

lemma pte_addr_nonzero: "q \<noteq> 0 \<Longrightarrow> page_aligned q \<Longrightarrow> i < 512 \<Longrightarrow> pte_addr q i \<noteq> 0"
  using pte_addr_unat[of q i] by (metis add_is_0 unat_0 unat_eq_zero)

lemma pte_addr_eq:
  assumes "page_aligned q" "i < 512" "page_aligned q'" "i' < 512"
  shows "pte_addr q i = pte_addr q' i' \<longleftrightarrow> q = q' \<and> i = i'"
proof
  assume eq: "pte_addr q i = pte_addr q' i'"
  then have q: "q = q'" using pte_addr_page(1)[OF assms(1,2)] pte_addr_page(1)[OF assms(3,4)] by simp
  then have "unat i = unat i'" using eq pte_addr_unat[OF assms(1,2)] pte_addr_unat[OF assms(3,4)] by simp
  with q show "q = q' \<and> i = i'" by (simp add: word_unat_eq_iff)
qed simp

lemma load64_store_pte:
  assumes "page_aligned q" "i < 512" "page_aligned q'" "i' < 512"
  shows "load64 (store64 m (pte_addr q i) e) (pte_addr q' i') =
    (if q' = q \<and> i' = i then e else load64 m (pte_addr q' i'))"
  using load64_store64_other[of "pte_addr q i" "pte_addr q' i'" m e] pte_addr_eq[OF assms]
    pte_addr_page(2)[OF assms(1,2)] pte_addr_page(2)[OF assms(3,4)]
  by auto

lemma node_store_pte:
  assumes "page_aligned q" "i < 512" "page_aligned q'" "i' < 512" "\<not> (q' = q \<and> i' = i)"
  shows "node (store64 m (pte_addr q i) e) q' i' = node m q' i'"
  using load64_store_pte[OF assms(1-4)] assms(5) by (auto simp: node_def Let_def)

lemma load64_pte_cong:
  assumes "page_aligned q" "i < 512" and "\<And>x. PGROUNDDOWN x = q \<Longrightarrow> m' x = m x"
  shows "load64 m' (pte_addr q i) = load64 m (pte_addr q i)"
  by (rule load64_cong, rule assms(3))
     (simp add: PGROUNDDOWN_aligned8_add pte_addr_page[OF assms(1,2)])

subsection \<open>Changes of memory\<close>

text \<open>Memory outside the table pages does not matter.\<close>

lemma tbl_frame:
  assumes wf: "pt_wf m R ok" and r: "r \<in> R" and p: "path \<pi>"
    and same: "\<And>x. in_tables m R (PGROUNDDOWN x) \<Longrightarrow> m' x = m x"
  shows "tbl m' r \<pi> = tbl m r \<pi>"
  using p
proof (induction \<pi> rule: rev_induct)
  case Nil
  then show ?case by simp
next
  case (snoc i \<pi>)
  note pd = path_snocD[OF snoc.prems]
  have "node m' q i = node m q i" if q: "tbl m r \<pi> = Some q" for q
  proof -
    have "page_aligned q" using pt_wfD(1)[OF wf r _ q] pd by simp
    moreover have "in_tables m R q" using r q pd by (auto simp: in_tables_def)
    ultimately show ?thesis
      using load64_pte_cong[of q i m' m] same pd by (simp add: node_def)
  qed
  then show ?case using snoc.IH pd by (cases "tbl m r \<pi>") auto
qed

lemma pte_of_frame:
  assumes wf: "pt_wf m R ok" and r: "r \<in> R"
    and same: "\<And>x. in_tables m R (PGROUNDDOWN x) \<Longrightarrow> m' x = m x"
  shows "pte_of m' r va = pte_of m r va"
proof (cases "tbl m r [PX 2 va, PX 1 va]")
  case None
  then show ?thesis using tbl_frame[OF wf r path_PX(1) same] by (simp add: pte_of_def)
next
  case (Some q)
  have "in_tables m R q" using Some r path_PX(1) by (auto simp: in_tables_def)
  moreover have "page_aligned q" by (rule pt_wfD(1)[OF wf r path_PX(1) Some])
  ultimately have "load64 m' (pte_addr q (PX 0 va)) = load64 m (pte_addr q (PX 0 va))"
    by (intro load64_pte_cong same) (auto simp: PX_lt)
  then show ?thesis using tbl_frame[OF wf r path_PX(1) same] Some by (simp add: pte_of_def)
qed

lemma pt_wf_cong:
  assumes wf: "pt_wf m R ok" and same: "\<And>r \<pi>. r \<in> R \<Longrightarrow> path \<pi> \<Longrightarrow> tbl m' r \<pi> = tbl m r \<pi>"
    and ok: "\<And>q. in_tables m R q \<Longrightarrow> ok q \<Longrightarrow> ok' q"
  shows "pt_wf m' R ok'"
  using wf ok unfolding pt_wf_def in_tables_def by (auto simp: same)

lemma pt_wf_frame:
  assumes "pt_wf m R ok" and "\<And>x. in_tables m R (PGROUNDDOWN x) \<Longrightarrow> m' x = m x"
  shows "pt_wf m' R ok"
  by (rule pt_wf_cong[OF assms(1) tbl_frame[OF assms(1)]]) (use assms(2) in auto)

text \<open>Storing an entry at index \<open>i\<close> of the table at path \<open>\<pi>\<close> affects only paths through it.\<close>

lemma tbl_store:
  assumes wf: "pt_wf m R ok" and r: "r \<in> R" "path \<pi>" "tbl m r \<pi> = Some q" "i < 512"
    and r': "r' \<in> R" "path \<pi>'" "\<not> (r' = r \<and> prefix (\<pi> @ [i]) \<pi>')"
  shows "tbl (store64 m (pte_addr q i) e) r' \<pi>' = tbl m r' \<pi>'"
  using r'(2,3)
proof (induction \<pi>' rule: rev_induct)
  case Nil
  then show ?case by simp
next
  case (snoc j \<pi>')
  note pd = path_snocD[OF snoc.prems(1)]
  have np: "\<not> (r' = r \<and> prefix (\<pi> @ [i]) \<pi>')" using snoc.prems(2) by auto
  have "node (store64 m (pte_addr q i) e) q' j = node m q' j" if q': "tbl m r' \<pi>' = Some q'" for q'
  proof (rule node_store_pte)
    show "page_aligned q" by (rule pt_wfD(1)[OF wf r(1,2,3)])
    show "page_aligned q'" using pt_wfD(1)[OF wf r'(1) _ q'] pd by blast
    show "\<not> (q' = q \<and> j = i)"
    proof
      assume "q' = q \<and> j = i"
      with pt_wf_inj[OF wf r(1) r'(1) r(2) _ r(3)] q' pd have "r = r' \<and> \<pi> = \<pi>' \<and> j = i" by blast
      with snoc.prems(2) show False by auto
    qed
  qed (use r pd in auto)
  then show ?case using snoc.IH np pd by (cases "tbl m r' \<pi>'") auto
qed

text \<open>Storing a leaf entry.\<close>

lemma store_leaf:
  assumes wf: "pt_wf m R ok" and r: "r \<in> R" and q: "tbl m r [PX 2 va, PX 1 va] = Some q"
    and m': "m' = store64 m (pte_addr q (PX 0 va)) e"
  shows "pt_wf m' R ok"
    and "r' \<in> R \<Longrightarrow> path \<pi> \<Longrightarrow> tbl m' r' \<pi> = tbl m r' \<pi>"
    and "r' \<in> R \<Longrightarrow> pte_of m' r' va' =
      (if r' = r \<and> same_pte va' va then e else pte_of m r' va')"
proof -
  have tbl': "tbl m' r' \<pi> = tbl m r' \<pi>" if "r' \<in> R" "path \<pi>" for r' \<pi>
    unfolding m' using that
    by (intro tbl_store[OF wf r path_PX(1) q PX_lt]) (auto simp: path_def dest: prefix_length_le)
  then show "r' \<in> R \<Longrightarrow> path \<pi> \<Longrightarrow> tbl m' r' \<pi> = tbl m r' \<pi>" by blast
  show "pt_wf m' R ok" by (rule pt_wf_cong[OF wf tbl'])
  show "pte_of m' r' va' = (if r' = r \<and> same_pte va' va then e else pte_of m r' va')"
    if r': "r' \<in> R"
  proof (cases "tbl m r' [PX 2 va', PX 1 va']")
    case None
    with q have "\<not> (r' = r \<and> same_pte va' va)" by (auto simp: same_pte_def)
    with None show ?thesis using tbl'[OF r' path_PX(1)[of va']] by (auto simp: pte_of_def)
  next
    case (Some q')
    have al: "page_aligned q" "page_aligned q'"
      using pt_wfD(1)[OF wf r path_PX(1) q] pt_wfD(1)[OF wf r' path_PX(1) Some] by auto
    have "(q' = q \<and> PX 0 va' = PX 0 va) = (r' = r \<and> same_pte va' va)"
      using pt_wf_inj[OF wf r r' path_PX(1)[of va] path_PX(1)[of va'] q] Some q
      unfolding same_pte_def by auto
    then show ?thesis
      using Some tbl'[OF r' path_PX(1)[of va']] load64_store_pte[OF al(1) PX_lt al(2) PX_lt, of m 0 va e 0 va']
      by (simp add: pte_of_def m')
  qed
qed

lemma PX_PGROUNDDOWN [simp]: "PX l (PGROUNDDOWN va) = PX l va"
proof -
  have "unat (PGROUNDDOWN va) div 2 ^ (12 + 9 * l) = unat va div 2 ^ (12 + 9 * l)"
    by (simp add: PGROUNDDOWN_unat power_add div_mult2_eq minus_mod_eq_div_mult)
  then have "unat (PX l (PGROUNDDOWN va)) = unat (PX l va)" unfolding PX_unat by simp
  then show ?thesis by (simp add: word_unat_eq_iff)
qed

lemma same_pte_iff:
  assumes "va < MAXVA" "va' < MAXVA"
  shows "same_pte va va' \<longleftrightarrow> PGROUNDDOWN va = PGROUNDDOWN va'"
proof
  assume same: "same_pte va va'"
  show "PGROUNDDOWN va = PGROUNDDOWN va'"
  proof (rule PX_inject)
    show "PGROUNDDOWN va < MAXVA" "PGROUNDDOWN va' < MAXVA"
      using assms by (simp_all only: PGROUNDDOWN_MAXVA)
  qed (use same in \<open>simp_all add: same_pte_def\<close>)
next
  assume eq: "PGROUNDDOWN va = PGROUNDDOWN va'"
  have "PX l va = PX l va'" for l
    using PX_PGROUNDDOWN[of l va] PX_PGROUNDDOWN[of l va'] eq by simp
  then show "same_pte va va'" by (simp add: same_pte_def)
qed

subsection \<open>Adding a table\<close>

lemma PTE_V_new [simp]: "(PA2PTE p OR PTE_V) AND PTE_V \<noteq> 0"
  using PA2PTE_flag_bits[of PTE_V p PTE_V] by (simp add: mask_eq_exp_minus_1)

lemma PTE2PA_new:
  assumes "page_aligned p" "p < PHYSTOP"
  shows "PTE2PA (PA2PTE p OR PTE_V) = p"
  using assms by (intro PTE2PA_PA2PTE) (auto simp: word_less_nat_alt)

text \<open>
  A page outside the forest, cleared and installed at an invalid entry of a table of level two
  or one: the forest stays well formed and maps exactly what it mapped before.
\<close>

lemma install_table:
  assumes wf: "pt_wf m R ok" and r: "r \<in> R" and q: "tbl m r \<pi> = Some q" and p: "path (\<pi> @ [i])"
    and none: "node m q i = None" and pg: "page_aligned pg" "pg < PHYSTOP" "\<not> ok pg"
    and m0: "\<forall>x. PGROUNDDOWN x \<noteq> pg \<longrightarrow> m0 x = m x"
    and zero: "\<forall>j<512. load64 m0 (pte_addr pg j) = 0"
    and m': "m' = store64 m0 (pte_addr q i) (PA2PTE pg OR PTE_V)"
  shows "pt_wf m' R (\<lambda>x. ok x \<or> x = pg)"
    and "tbl m' r (\<pi> @ [i]) = Some pg"
    and "r' \<in> R \<Longrightarrow> pte_of m' r' va = pte_of m r' va"
    and "PGROUNDDOWN x \<noteq> q \<Longrightarrow> PGROUNDDOWN x \<noteq> pg \<Longrightarrow> m' x = m x"
    and "in_tables m' R x \<Longrightarrow> in_tables m R x \<or> x = pg"
proof -
  note pd = path_snocD[OF p]
  have nopg: "\<not> in_tables m R pg" using pg(3) wf unfolding pt_wf_def in_tables_def by blast
  then have frame: "m0 x = m x" if "in_tables m R (PGROUNDDOWN x)" for x
    using m0 that by metis
  note tbl0 = tbl_frame[OF wf _ _ frame]
  have wf0: "pt_wf m0 R ok" by (rule pt_wf_frame[OF wf frame])
  have q0: "tbl m0 r \<pi> = Some q" using tbl0[OF r] pd q by simp
  have al: "page_aligned q" "q \<noteq> pg" using pt_wfD[OF wf r _ q] pd pg by auto
  have other: "tbl m' r' \<pi>' = tbl m r' \<pi>'"
    if "r' \<in> R" "path \<pi>'" "\<not> (r' = r \<and> prefix (\<pi> @ [i]) \<pi>')" for r' \<pi>'
    unfolding m' using tbl_store[OF wf0 r _ q0 _ that] pd tbl0[OF that(1,2)] by simp
  have "tbl m' r \<pi> = Some q" using other[OF r, of \<pi>] pd q by (auto dest: prefix_length_le)
  moreover have "node m' q i = Some pg"
    using pd al pg unfolding m' node_def by (simp add: Let_def load64_store_pte PTE2PA_new)
  ultimately show new: "tbl m' r (\<pi> @ [i]) = Some pg" by simp
  have zero': "load64 m' (pte_addr pg j) = 0" if "j < 512" for j
    using zero pd al pg that unfolding m' by (simp add: load64_store_pte)
  then have none': "node m' pg j = None" if "j < 512" for j
    using that by (simp add: node_def)
  have through: "\<pi>' = \<pi> @ [i] \<or> tbl m' r \<pi>' = None" if "path \<pi>'" "prefix (\<pi> @ [i]) \<pi>'" for \<pi>'
  proof -
    from that(2) obtain \<rho> where \<rho>: "\<pi>' = \<pi> @ [i] @ \<rho>" by (auto elim: prefixE)
    show ?thesis
    proof (cases \<rho>)
      case (Cons j \<rho>')
      then have "\<rho>' = []" "j < 512" using that(1) \<rho> by (auto simp: path_def)
      then show ?thesis using new none' \<rho> Cons tbl_snoc[of m' r "\<pi> @ [i]" j] by simp
    qed (simp add: \<rho>)
  qed
  have cases': "(r' = r \<and> \<pi>' = \<pi> @ [i] \<and> x = pg) \<or> (tbl m r' \<pi>' = Some x \<and> x \<noteq> pg)"
    if "r' \<in> R" "path \<pi>'" "tbl m' r' \<pi>' = Some x" for r' \<pi>' x
    using that other[OF that(1,2)] through[OF that(2)] new nopg
    unfolding in_tables_def by (metis option.distinct(1) option.inject)
  show "in_tables m' R x \<Longrightarrow> in_tables m R x \<or> x = pg"
    using cases' unfolding in_tables_def by blast
  show "pt_wf m' R (\<lambda>x. ok x \<or> x = pg)"
    unfolding pt_wf_def using cases' wf[unfolded pt_wf_def] pg(1) by (intro conjI) metis+
  show "PGROUNDDOWN x \<noteq> q \<Longrightarrow> PGROUNDDOWN x \<noteq> pg \<Longrightarrow> m' x = m x"
    unfolding m' using m0 pte_addr_page[OF al(1), of i] pd by (simp add: store64_other_page)
  show "pte_of m' r' va = pte_of m r' va" if r': "r' \<in> R"
  proof (cases "r' = r \<and> prefix (\<pi> @ [i]) [PX 2 va, PX 1 va]")
    case True
    then obtain \<rho> where \<rho>: "[PX 2 va, PX 1 va] = (\<pi> @ [i]) @ \<rho>" by (auto elim: prefixE)
    have "tbl m r (\<pi> @ [i]) = None" using q none by simp
    from tbl_prefix_None[OF this, of \<rho>] have "pte_of m r va = 0" using \<rho> by (simp add: pte_of_def)
    moreover have "tbl m' r [PX 2 va, PX 1 va] = Some pg \<or> tbl m' r [PX 2 va, PX 1 va] = None"
      using through[OF path_PX(1)[of va]] True new by metis
    then have "pte_of m' r va = 0" using zero'[OF PX_lt] by (auto simp: pte_of_def)
    ultimately show ?thesis using True by simp
  next
    case False
    note same = other[OF r' path_PX(1) False]
    show ?thesis
    proof (cases "tbl m r' [PX 2 va, PX 1 va]")
      case (Some q')
      have q': "page_aligned q'" by (rule pt_wfD(1)[OF wf r' path_PX(1) Some])
      have "q' \<noteq> q"
        using pt_wf_inj[OF wf r r' _ path_PX(1)[of va] q] Some pd by auto
      moreover have "q' \<noteq> pg" using nopg Some r' path_PX(1)[of va] by (auto simp: in_tables_def)
      ultimately have "load64 m' (pte_addr q' (PX 0 va)) = load64 m (pte_addr q' (PX 0 va))"
        using load64_store_pte[OF al(1) _ q' PX_lt, of i m0] pd
          load64_pte_cong[OF q' PX_lt[of 0 va], of m0 m] m0
        unfolding m' by simp
      then show ?thesis using same Some by (simp add: pte_of_def)
    qed (use same in \<open>simp add: pte_of_def\<close>)
  qed
qed

subsection \<open>walk\<close>

text \<open>
  The invariant of memory management: a well-formed free list, and a well-formed forest whose
  pages come from the allocator and are not free.
\<close>

definition vm_inv :: "'a kmem_scheme \<Rightarrow> u64 list \<Rightarrow> u64 set \<Rightarrow> bool" where
  "vm_inv s fs R = (kmem_inv s fs \<and> pt_wf (km_mem s) R (\<lambda>q. page_ok s q \<and> q \<notin> set fs))"

text \<open>
  What a call of \<^verbatim>\<open>walk\<close> may do: take pages from the free list and add them to the tables, without
  changing any mapping, any page that was neither free nor a table, or any other part of the state.
\<close>

definition vm_frame :: "u64 set \<Rightarrow> 'a kmem_scheme \<Rightarrow> u64 list \<Rightarrow> 'a kmem_scheme \<Rightarrow> u64 list \<Rightarrow> bool" where
  "vm_frame R s fs s' fs' \<longleftrightarrow>
     vm_inv s' fs' R \<and> suffix fs' fs
     \<and> (\<exists>m f. s' = s\<lparr>km_mem := m, km_freelist := f\<rparr>)
     \<and> (\<forall>x. PGROUNDDOWN x \<notin> set fs \<longrightarrow> \<not> in_tables (km_mem s) R (PGROUNDDOWN x)
            \<longrightarrow> km_mem s' x = km_mem s x)
     \<and> (\<forall>x. in_tables (km_mem s') R x \<longrightarrow> in_tables (km_mem s) R x \<or> x \<in> set fs)"

definition vm_ext :: "u64 set \<Rightarrow> 'a kmem_scheme \<Rightarrow> u64 list \<Rightarrow> 'a kmem_scheme \<Rightarrow> u64 list \<Rightarrow> bool" where
  "vm_ext R s fs s' fs' \<longleftrightarrow>
     vm_frame R s fs s' fs' \<and> (\<forall>r\<in>R. \<forall>va. pte_of (km_mem s') r va = pte_of (km_mem s) r va)"

lemma vm_frame_inv: "vm_frame R s fs s' fs' \<Longrightarrow> vm_inv s' fs' R"
  by (simp add: vm_frame_def)

lemma vm_frame_refl: "vm_inv s fs R \<Longrightarrow> vm_frame R s fs s fs"
  unfolding vm_frame_def by (auto intro!: exI[of _ "km_mem s"] exI[of _ "km_freelist s"])

lemma vm_ext_refl: "vm_inv s fs R \<Longrightarrow> vm_ext R s fs s fs"
  by (simp add: vm_ext_def vm_frame_refl)

lemma vm_frame_trans:
  assumes "vm_frame R s fs s1 fs1" "vm_frame R s1 fs1 s2 fs2"
  shows "vm_frame R s fs s2 fs2"
proof -
  note A = assms(1)[unfolded vm_frame_def] and B = assms(2)[unfolded vm_frame_def]
  have sub: "set fs1 \<subseteq> set fs" using A by (auto dest: set_mono_suffix)
  have "\<exists>m f. s2 = s\<lparr>km_mem := m, km_freelist := f\<rparr>" using A B by force
  moreover have "suffix fs2 fs" using A B by (auto intro: suffix_order.trans)
  moreover have "km_mem s2 x = km_mem s x"
    if "PGROUNDDOWN x \<notin> set fs" "\<not> in_tables (km_mem s) R (PGROUNDDOWN x)" for x
    using A B that sub by (metis subsetD)
  moreover have "in_tables (km_mem s) R x \<or> x \<in> set fs" if "in_tables (km_mem s2) R x" for x
    using A B that sub by blast
  ultimately show ?thesis using A B unfolding vm_frame_def by simp
qed

lemma vm_ext_trans: "vm_ext R s fs s1 fs1 \<Longrightarrow> vm_ext R s1 fs1 s2 fs2 \<Longrightarrow> vm_ext R s fs s2 fs2"
  unfolding vm_ext_def by (auto intro: vm_frame_trans)

lemma kalloc_frame:
  assumes "kalloc s = Inr (p, s')"
  shows "\<exists>m f. s' = s\<lparr>km_mem := m, km_freelist := f\<rparr>"
proof (cases "km_freelist s = 0")
  case True
  then have "s' = s\<lparr>km_mem := km_mem s, km_freelist := km_freelist s\<rparr>" using assms by (simp add: kalloc_def)
  then show ?thesis by blast
next
  case False
  then have "s' = s\<lparr>km_mem := memset (km_freelist s) 5 4096 (km_mem s), km_freelist := load64 (km_mem s) (km_freelist s)\<rparr>"
    using assms by (simp add: kalloc_def)
  then show ?thesis by blast
qed

lemma walk_step_install:
  assumes inv: "vm_inv s fs R" and r: "r \<in> R" and q: "tbl (km_mem s) r \<pi> = Some q"
    and p: "path (\<pi> @ [i])" and none: "node (km_mem s) q i = None"
    and al: "kalloc s = Inr (pg, s1)" "pg \<noteq> 0"
    and s': "s' = s1\<lparr>km_mem := store64 (memset pg 0 4096 (km_mem s1)) (pte_addr q i) (PA2PTE pg OR PTE_V)\<rparr>"
  shows "\<exists>fs'. vm_ext R s fs s' fs' \<and> tbl (km_mem s') r (\<pi> @ [i]) = Some pg"
proof -
  let ?m0 = "memset pg 0 4096 (km_mem s1)"
  have kinv: "kmem_inv s fs" and wf: "pt_wf (km_mem s) R (\<lambda>q. page_ok s q \<and> q \<notin> set fs)"
    using inv by (auto simp: vm_inv_def)
  obtain fs' where fs: "fs = pg # fs'" "kmem_inv s1 fs'"
      and mem1: "\<forall>x. PGROUNDDOWN x \<noteq> pg \<longrightarrow> km_mem s1 x = km_mem s x" and ok1: "page_ok s1 = page_ok s"
    using kmem_alloc.alloc_fresh[OF kinv al] by blast
  have pgok: "page_ok s pg" "pg \<notin> set fs'" using kmem_inv_page_ok[OF kinv] kinv fs by (auto simp: kmem_inv_def)
  note pg = page_okD[OF pgok(1)]
  have m0: "\<forall>x. PGROUNDDOWN x \<noteq> pg \<longrightarrow> ?m0 x = km_mem s x"
    using mem1 pg by (simp add: memset_page_apply)
  have zero: "\<forall>j<512. load64 ?m0 (pte_addr pg j) = 0"
    using pte_addr_page[OF pg(1)] pg by (simp add: load64_memset_zero)
  have notin: "q \<noteq> pg" "q \<notin> set fs'" "page_aligned q"
    using pt_wfD[OF wf r _ q] path_snocD[OF p] fs by auto
  have *: "pg < PHYSTOP" "\<not> (page_ok s pg \<and> pg \<notin> set fs)" "km_mem s' = store64 ?m0 (pte_addr q i) (PA2PTE pg OR PTE_V)"
    using pgok fs s' by (auto simp: page_ok_def)
  note inst = install_table[OF wf r q p none pg(1) *(1,2) m0 zero *(3)]
  have ext: "s' = s\<lparr>km_mem := km_mem s', km_freelist := km_freelist s'\<rparr>"
    using kalloc_frame[OF al(1)] s' by auto
  have "kmem_inv (s1\<lparr>km_mem := km_mem s'\<rparr>) fs'"
    using inst(4) notin pgok mem1 by (intro kmem_inv_mem_update[OF fs(2)]) metis
  then have "kmem_inv s' fs'" using s' by simp
  moreover have "page_ok s' = page_ok s" by (subst ext) (simp add: page_ok_def[abs_def])
  ultimately have "vm_inv s' fs' R"
    using pt_wf_cong[OF inst(1), of "km_mem s'" "\<lambda>q. page_ok s' q \<and> q \<notin> set fs'"] pgok fs
    unfolding vm_inv_def by auto
  moreover have "suffix fs' fs" using fs by (auto simp: suffix_def)
  moreover have "in_tables (km_mem s) R q" using q r path_snocD[OF p] by (auto simp: in_tables_def)
  then have "\<forall>x. PGROUNDDOWN x \<notin> set fs \<longrightarrow> \<not> in_tables (km_mem s) R (PGROUNDDOWN x)
      \<longrightarrow> km_mem s' x = km_mem s x"
    using inst(4) fs(1) by (metis list.set_intros(1))
  moreover have "\<forall>x. in_tables (km_mem s') R x \<longrightarrow> in_tables (km_mem s) R x \<or> x \<in> set fs"
    using inst(5) fs(1) by auto
  ultimately have "vm_ext R s fs s' fs'" using inst(3) ext unfolding vm_ext_def vm_frame_def by blast
  with inst(2) show ?thesis by blast
qed

lemma walk_levels_ok:
  assumes "vm_inv s fs R" "r \<in> R" "l \<le> 2"
    and "tbl (km_mem s) r (take (2 - l) [PX 2 va, PX 1 va]) = Some q"
    and "walk_levels l q va alloc s = Inr (a, s')"
  shows "\<exists>fs'. vm_ext R s fs s' fs'
    \<and> (a \<noteq> 0 \<longrightarrow> (\<exists>q0. tbl (km_mem s') r [PX 2 va, PX 1 va] = Some q0 \<and> a = pte_addr q0 (PX 0 va)))
    \<and> (a = 0 \<longrightarrow> alloc \<longrightarrow> fs' = [])
    \<and> (\<not> alloc \<longrightarrow> s' = s \<and> (a = 0 \<longrightarrow> tbl (km_mem s) r [PX 2 va, PX 1 va] = None))"
  using assms
proof (induction l arbitrary: s fs q)
  case 0
  then have wf: "pt_wf (km_mem s) R (\<lambda>q. page_ok s q \<and> q \<notin> set fs)" "0 < km_end s"
    by (auto simp: vm_inv_def kmem_inv_def)
  have q: "tbl (km_mem s) r [PX 2 va, PX 1 va] = Some q" using "0.prems"(4) by simp
  have "page_aligned q" "q \<noteq> 0" using pt_wfD[OF wf(1) "0.prems"(2) path_PX(1) q] wf(2)
    by (auto simp: page_ok_def)
  then show ?case
    using "0.prems" q vm_ext_refl pte_addr_nonzero[OF _ _ PX_lt] by auto
next
  case (Suc l)
  let ?m = "km_mem s" and ?\<pi> = "take (2 - Suc l) [PX 2 va, PX 1 va]" and ?i = "PX (Suc l) va"
  have l: "l = 0 \<or> l = 1" using Suc.prems(3) by auto
  have step: "take (2 - l) [PX 2 va, PX 1 va] = ?\<pi> @ [?i]" using l by (auto simp: numeral_2_eq_2)
  have p: "path (?\<pi> @ [?i])" using l by (auto simp: path_def PX_lt numeral_2_eq_2)
  obtain \<rho> where \<rho>: "[PX 2 va, PX 1 va] = (?\<pi> @ [?i]) @ \<rho>" using step by (metis append_take_drop_id)
  let ?e = "load64 ?m (pte_addr q ?i)"
  show ?case
  proof (cases "?e AND PTE_V \<noteq> 0")
    case True
    then have "tbl ?m r (?\<pi> @ [?i]) = Some (PTE2PA ?e)" using Suc.prems(4) by (simp add: node_def)
    moreover have "walk_levels l (PTE2PA ?e) va alloc s = Inr (a, s')"
      using Suc.prems(5) True by (simp add: kload_def)
    ultimately show ?thesis using Suc.IH[OF Suc.prems(1,2)] l step by auto
  next
    case False
    then have none: "node ?m q ?i = None" by (simp add: node_def)
    then have "tbl ?m r (?\<pi> @ [?i]) = None" using Suc.prems(4) by simp
    then have tnone: "tbl ?m r [PX 2 va, PX 1 va] = None" using tbl_prefix_None \<rho> by metis
    show ?thesis
    proof (cases alloc)
      case no: False
      then show ?thesis using Suc.prems(1,5) False tnone vm_ext_refl by (auto simp: kload_def)
    next
      case yes: True
      from Suc.prems(5) False yes obtain pg s1 where al: "kalloc s = Inr (pg, s1)"
        by (auto simp: kload_def)
      show ?thesis
      proof (cases "pg = 0")
        case True
        then have "fs = [] \<and> s1 = s" using kmem_alloc.alloc_null[of s fs s1] al Suc.prems(1) by (simp add: vm_inv_def)
        then show ?thesis using Suc.prems(1,5) False yes al True vm_ext_refl by (auto simp: kload_def)
      next
        case pg: False
        define s2 where "s2 = s1\<lparr>km_mem := store64 (memset pg 0 4096 (km_mem s1)) (pte_addr q ?i) (PA2PTE pg OR PTE_V)\<rparr>"
        obtain fs2 where e2: "vm_ext R s fs s2 fs2" and t2: "tbl (km_mem s2) r (?\<pi> @ [?i]) = Some pg"
          using walk_step_install[OF Suc.prems(1,2,4) p none al pg s2_def] by blast
        have "walk_levels l pg va alloc s2 = Inr (a, s')"
          using Suc.prems(5) False yes al pg by (simp add: kload_def kmemset_def kstore_def s2_def)
        moreover have "vm_inv s2 fs2 R" using e2 by (simp add: vm_ext_def vm_frame_def)
        ultimately obtain fs' where "vm_ext R s2 fs2 s' fs'"
            "a \<noteq> 0 \<longrightarrow> (\<exists>q0. tbl (km_mem s') r [PX 2 va, PX 1 va] = Some q0 \<and> a = pte_addr q0 (PX 0 va))"
            "a = 0 \<longrightarrow> alloc \<longrightarrow> fs' = []"
          using Suc.IH[of s2 fs2 pg] Suc.prems(2,3) t2 step by auto
        then show ?thesis using vm_ext_trans[OF e2] yes by blast
      qed
    qed
  qed
qed

lemma walk_ok:
  assumes "vm_inv s fs R" "r \<in> R" "walk r va alloc s = Inr (a, s')"
  shows "\<exists>fs'. vm_ext R s fs s' fs'
    \<and> (a \<noteq> 0 \<longrightarrow> (\<exists>q0. tbl (km_mem s') r [PX 2 va, PX 1 va] = Some q0 \<and> a = pte_addr q0 (PX 0 va)))
    \<and> (a = 0 \<longrightarrow> alloc \<longrightarrow> fs' = [])
    \<and> (\<not> alloc \<longrightarrow> s' = s \<and> (a = 0 \<longrightarrow> tbl (km_mem s) r [PX 2 va, PX 1 va] = None))"
  using assms walk_levels_ok[of s fs R r 2 va r alloc a s']
  by (auto simp: walk_def split: if_splits)

lemma walk_levels_total: "\<exists>a s'. walk_levels l q va alloc s = Inr (a, s')"
  by (induction l arbitrary: q s)
     (auto simp: kload_def kalloc_def kmemset_def kstore_def kmon_defs split: sum.split)

lemma walk_total: "va < MAXVA \<Longrightarrow> \<exists>a s'. walk r va alloc s = Inr (a, s')"
  using walk_levels_total[of 2 r va alloc s] by (simp add: walk_def not_le)

subsection \<open>mappages\<close>

lemma vm_store_leaf:
  assumes inv: "vm_inv s fs R" and r: "r \<in> R" and q: "tbl (km_mem s) r [PX 2 va, PX 1 va] = Some q"
    and s': "s' = s\<lparr>km_mem := store64 (km_mem s) (pte_addr q (PX 0 va)) e\<rparr>"
  shows "vm_frame R s fs s' fs"
    and "r' \<in> R \<Longrightarrow> pte_of (km_mem s') r' va' =
      (if r' = r \<and> same_pte va' va then e else pte_of (km_mem s) r' va')"
proof -
  have wf: "pt_wf (km_mem s) R (\<lambda>q. page_ok s q \<and> q \<notin> set fs)" and k: "kmem_inv s fs"
    using inv by (auto simp: vm_inv_def)
  have m': "km_mem s' = store64 (km_mem s) (pte_addr q (PX 0 va)) e" using s' by simp
  note leaf = store_leaf[OF wf r q m']
  have q': "page_aligned q" "q \<notin> set fs" using pt_wfD[OF wf r path_PX(1) q] by auto
  have out: "km_mem s' x = km_mem s x" if "PGROUNDDOWN x \<noteq> q" for x
    using that pte_addr_page[OF q'(1) PX_lt[of 0 va]] by (simp add: m' store64_other_page)
  have "kmem_inv (s\<lparr>km_mem := km_mem s'\<rparr>) fs"
    using q'(2) by (intro kmem_inv_mem_update[OF k] out) blast
  then have "kmem_inv s' fs" by (simp add: s')
  moreover have "page_ok s' = page_ok s" by (simp add: s' page_ok_def[abs_def])
  ultimately have "vm_inv s' fs R" using leaf(1) by (simp add: vm_inv_def)
  moreover have "in_tables (km_mem s) R q" using q r path_PX(1)[of va] by (auto simp: in_tables_def)
  moreover have "in_tables (km_mem s') R x = in_tables (km_mem s) R x" for x
    using leaf(2) unfolding in_tables_def by metis
  moreover have "\<exists>m f. s' = s\<lparr>km_mem := m, km_freelist := f\<rparr>"
    by (rule exI, rule exI[of _ "km_freelist s"]) (simp add: s')
  ultimately show "vm_frame R s fs s' fs" using out unfolding vm_frame_def by (metis suffix_order.refl)
  show "r' \<in> R \<Longrightarrow> pte_of (km_mem s') r' va' =
      (if r' = r \<and> same_pte va' va then e else pte_of (km_mem s) r' va')"
    by (rule leaf(3))
qed

text \<open>The addresses in the \<open>n\<close> pages from \<open>a\<close>.\<close>

definition in_pages :: "u64 \<Rightarrow> nat \<Rightarrow> u64 \<Rightarrow> bool" where
  "in_pages a n va = (unat a \<le> unat va \<and> unat va < unat a + n * 4096)"

lemma in_pages_one:
  assumes "page_aligned a"
  shows "in_pages a 1 va \<longleftrightarrow> PGROUNDDOWN va = a"
proof
  assume "in_pages a 1 va"
  then have "unat (va - a) < 4096" by (auto simp: in_pages_def unat_sub word_le_nat_alt)
  with in_page_iff[OF assms] show "PGROUNDDOWN va = a" by simp
next
  assume "PGROUNDDOWN va = a"
  then have "unat va - unat va mod 4096 = unat a" using PGROUNDDOWN_unat[of va] by simp
  moreover have "unat va mod 4096 < 4096" by simp
  ultimately show "in_pages a 1 va" unfolding in_pages_def by linarith
qed

lemma in_pages_Suc:
  assumes "page_aligned a" "unat (a + PGSIZE) = unat a + 4096"
  shows "in_pages a (Suc n) va \<longleftrightarrow> PGROUNDDOWN va = a \<or> in_pages (a + PGSIZE) n va"
  using in_pages_one[OF assms(1), of va] assms(2) by (auto simp: in_pages_def)

lemma next_page:
  fixes a :: u64
  assumes "a < MAXVA" "page_aligned a"
  shows "unat (a + PGSIZE) = unat a + 4096" "page_aligned (a + PGSIZE)"
proof -
  have "unat a < 0x4000000000" using assms by (simp add: word_less_nat_alt)
  then show "unat (a + PGSIZE) = unat a + 4096" by (simp add: unat_word_ariths)
  then show "page_aligned (a + PGSIZE)" using assms(2) by (simp add: page_aligned_unat)
qed

lemma mappages_loop_ok:
  assumes "vm_inv s fs R" "r \<in> R" "page_aligned a"
    and "mappages_loop r a lst pa perm s = Inr (ret, s')"
  shows "\<exists>fs' n. vm_frame R s fs s' fs'
    \<and> (\<forall>r'\<in>R. \<forall>va<MAXVA. pte_of (km_mem s') r' va =
          (if r' = r \<and> in_pages a n va
           then PA2PTE (pa + (PGROUNDDOWN va - a)) OR perm OR PTE_V
           else pte_of (km_mem s) r' va))
    \<and> (ret = 0 \<longrightarrow> unat lst + 4096 = unat a + n * 4096)
    \<and> (ret \<noteq> 0 \<longrightarrow> ret = -1 \<and> fs' = [])"
  using assms
proof (induction r a lst pa perm s arbitrary: fs rule: mappages_loop.induct)
  case (1 r a lst pa perm s)
  from "1.prems"(4)[unfolded mappages_loop.simps[of r a]] obtain pte s1
    where w: "walk r a True s = Inr (pte, s1)" by (auto split: sum.splits)
  note run = "1.prems"(4)[unfolded mappages_loop.simps[of r a], unfolded w, simplified]
  from walk_ok[OF "1.prems"(1,2) w] obtain fs1 where e1: "vm_ext R s fs s1 fs1"
    and a1: "pte \<noteq> 0 \<Longrightarrow> \<exists>q0. tbl (km_mem s1) r [PX 2 a, PX 1 a] = Some q0 \<and> pte = pte_addr q0 (PX 0 a)"
    and a0: "pte = 0 \<longrightarrow> fs1 = []"
    by auto
  have alt: "a < MAXVA" by (rule walk_below_MAXVA[OF w])
  have e1': "vm_frame R s fs s1 fs1" "vm_inv s1 fs1 R"
    and same: "\<And>r' va. r' \<in> R \<Longrightarrow> pte_of (km_mem s1) r' va = pte_of (km_mem s) r' va"
    using e1 by (auto simp: vm_ext_def vm_frame_def)
  show ?case
  proof (cases "pte = 0")
    case True
    then show ?thesis using run e1' same a0
      by (intro exI[of _ fs1] exI[of _ 0]) (auto simp: in_pages_def)
  next
    case False
    define e where "e = PA2PTE pa OR perm OR PTE_V"
    define s2 where "s2 = s1\<lparr>km_mem := store64 (km_mem s1) pte e\<rparr>"
    obtain q0 where q0: "tbl (km_mem s1) r [PX 2 a, PX 1 a] = Some q0" "pte = pte_addr q0 (PX 0 a)"
      using a1[OF False] by blast
    note leaf = vm_store_leaf[OF e1'(2) "1.prems"(2) q0(1) s2_def[unfolded q0(2)]]
    have f2: "vm_frame R s fs s2 fs1" by (rule vm_frame_trans[OF e1'(1) leaf(1)])
    have p2: "pte_of (km_mem s2) r' va = (if r' = r \<and> PGROUNDDOWN va = a then e else pte_of (km_mem s) r' va)"
      if "r' \<in> R" "va < MAXVA" for r' va
      using leaf(2)[OF that(1)] same[OF that(1)] same_pte_iff[OF that(2) alt] "1.prems"(3)
      by (simp add: PGROUNDDOWN_id)
    show ?thesis
    proof (cases "a = lst")
      case True
      then have "ret = 0" "s' = s2" using run False by (auto simp: s2_def e_def Let_def)
      then show ?thesis using f2 p2 True in_pages_one[OF "1.prems"(3)]
        by (intro exI[of _ fs1] exI[of _ 1]) (auto simp: e_def)
    next
      case more: False
      have rec: "mappages_loop r (a + PGSIZE) lst (pa + PGSIZE) perm s2 = Inr (ret, s')"
        using run False more by (simp add: s2_def e_def Let_def)
      note np = next_page[OF alt "1.prems"(3)]
      obtain fs' n where IH: "vm_frame R s2 fs1 s' fs'"
          "\<forall>r'\<in>R. \<forall>va<MAXVA. pte_of (km_mem s') r' va =
            (if r' = r \<and> in_pages (a + PGSIZE) n va
             then PA2PTE (pa + PGSIZE + (PGROUNDDOWN va - (a + PGSIZE))) OR perm OR PTE_V
             else pte_of (km_mem s2) r' va)"
          "ret = 0 \<longrightarrow> unat lst + 4096 = unat (a + PGSIZE) + n * 4096"
          "ret \<noteq> 0 \<longrightarrow> ret = -1 \<and> fs' = []"
        using "1.IH"[OF w refl False _ more vm_frame_inv[OF f2] "1.prems"(2) np(2)] rec
        unfolding s2_def e_def by blast
      then show ?thesis
        using vm_frame_trans[OF f2 IH(1)] p2 np(1) in_pages_Suc[OF "1.prems"(3) np(1), of n]
        by (intro exI[of _ fs'] exI[of _ "Suc n"]) (auto simp: e_def in_pages_def)
    qed
  qed
qed

lemma mappages_loop_total:
  assumes "page_aligned a" "page_aligned lst" "a \<le> lst" "lst < MAXVA"
  shows "\<exists>ret s'. mappages_loop r a lst pa perm s = Inr (ret, s')"
  using assms
proof (induction r a lst pa perm s rule: mappages_loop.induct)
  case (1 r a lst pa perm s)
  have alt: "a < MAXVA" using "1.prems"(3,4) by (rule le_less_trans)
  then obtain pte s1 where w: "walk r a True s = Inr (pte, s1)" using walk_total by blast
  note np = next_page[OF alt "1.prems"(1)]
  have "a + PGSIZE \<le> lst" if "a \<noteq> lst"
  proof -
    obtain i j where "unat a = 4096 * i" "unat lst = 4096 * j"
      using "1.prems"(1,2) by (auto simp: page_aligned_unat elim!: dvdE)
    moreover have "unat a < unat lst" using "1.prems"(3) that by (simp add: word_le_nat_alt word_unat_eq_iff)
    ultimately have "unat a + 4096 \<le> unat lst" by simp
    then show ?thesis using np(1) by (simp add: word_le_nat_alt)
  qed
  with "1.IH"[OF w refl] "1.prems"(2,4) np(2) w show ?case
    by (subst mappages_loop.simps) (auto simp: Let_def)
qed

lemma page_bound_iff: "x < y div 4096 * 4096 + 4096 \<longleftrightarrow> x div 4096 * 4096 \<le> y" for x y :: nat
proof -
  have "x < Suc (y div 4096) * 4096 \<longleftrightarrow> x div 4096 < Suc (y div 4096)"
    by (rule div_less_iff_less_mult[symmetric]) simp
  also have "\<dots> \<longleftrightarrow> x div 4096 * 4096 \<le> y"
    using less_eq_div_iff_mult_less_eq[of 4096 "x div 4096" y] by (simp add: less_Suc_eq_le)
  finally show ?thesis by (simp add: add.commute)
qed

text \<open>
  C2: \<^verbatim>\<open>mappages\<close> on a well-formed forest of page tables, for a non-empty range below
  \<^verbatim>\<open>MAXVA\<close>. It never panics. When it returns 0, the entry of every page of the range is the one
  asked for, with consecutive physical pages, and every other page of this and of every other page
  table has the entry it had. When it returns -1 the allocator has run out of pages. In both
  cases the invariant holds again, table pages are taken from the free list only, and no byte
  outside free and table pages has changed.
\<close>

theorem mappages_maps:
  assumes inv: "vm_inv s fs R" and r: "r \<in> R" and sz: "0 < sz" "unat va + unat sz \<le> unat MAXVA"
  shows "\<exists>ret s' fs'. mappages r va sz pa perm s = Inr (ret, s') \<and> vm_frame R s fs s' fs'
    \<and> (ret = 0 \<and> (\<forall>r'\<in>R. \<forall>va'<MAXVA. pte_of (km_mem s') r' va' =
          (if r' = r \<and> PGROUNDDOWN va \<le> va' \<and> PGROUNDDOWN va' \<le> va + sz - 1
           then PA2PTE (pa + (PGROUNDDOWN va' - PGROUNDDOWN va)) OR perm OR PTE_V
           else pte_of (km_mem s) r' va'))
       \<or> ret = -1 \<and> fs' = [])"
proof -
  let ?a = "PGROUNDDOWN va" and ?last = "PGROUNDDOWN (va + sz - 1)"
  have "unat (va + sz) = unat va + unat sz" using sz(2) by (intro unat_add_small) simp
  then have hi: "unat (va + sz - 1) = unat va + unat sz - 1"
    using sz by (simp add: unat_minus_one word_less_nat_alt word_unat_eq_iff)
  have le: "va \<le> va + sz - 1" "va + sz - 1 < MAXVA"
    using sz hi by (auto simp: word_le_nat_alt word_less_nat_alt)
  have mono: "PGROUNDDOWN x \<le> PGROUNDDOWN y" if "x \<le> y" for x y
    using that by (simp add: word_le_nat_alt PGROUNDDOWN_unat minus_mod_eq_div_mult div_le_mono)
  obtain ret s' where run: "mappages_loop r ?a ?last pa perm s = Inr (ret, s')"
    using mappages_loop_total[of ?a ?last r pa perm s] mono[OF le(1)] le(2)
    by (auto simp: PGROUNDDOWN_MAXVA[unfolded MAXVA_val])
  from mappages_loop_ok[OF inv r _ run] obtain fs' n where ok: "vm_frame R s fs s' fs'"
      "\<forall>r'\<in>R. \<forall>va'<MAXVA. pte_of (km_mem s') r' va' = (if r' = r \<and> in_pages ?a n va'
           then PA2PTE (pa + (PGROUNDDOWN va' - ?a)) OR perm OR PTE_V else pte_of (km_mem s) r' va')"
      "ret = 0 \<longrightarrow> unat ?last + 4096 = unat ?a + n * 4096" "ret \<noteq> 0 \<longrightarrow> ret = -1 \<and> fs' = []"
    by auto
  have "in_pages ?a n va' \<longleftrightarrow> ?a \<le> va' \<and> PGROUNDDOWN va' \<le> va + sz - 1" if "ret = 0" for va'
  proof -
    have "in_pages ?a n va' \<longleftrightarrow> ?a \<le> va' \<and> unat va' < unat ?last + 4096"
      using ok(3) that by (simp add: in_pages_def word_le_nat_alt)
    moreover have "unat va' < unat ?last + 4096 \<longleftrightarrow> PGROUNDDOWN va' \<le> va + sz - 1"
      by (simp only: word_le_nat_alt PGROUNDDOWN_unat minus_mod_eq_div_mult page_bound_iff)
    ultimately show ?thesis by simp
  qed
  moreover have "mappages r va sz pa perm s = Inr (ret, s')" using run sz(1) by (auto simp: mappages_def)
  ultimately show ?thesis using ok by (cases "ret = 0") auto
qed

text \<open>A single root page without entries, in cleared memory.\<close>

lemma load64_zero [simp]: "load64 (\<lambda>_. 0) a = 0"
proof -
  have "load_bytes (\<lambda>_. 0) a 8 = replicate 8 0" by (rule nth_equalityI) simp_all
  then show ?thesis by (simp add: load64_def)
qed

lemma one_root: "vm_inv one_page [0x87FFF000] {0x80030000}"
proof -
  have none: "tbl (\<lambda>_. 0) r \<pi> = Some q \<Longrightarrow> \<pi> = [] \<and> q = r" for r \<pi> q
    by (cases \<pi> rule: rev_cases) (auto simp: node_def bind_eq_Some_conv)
  show ?thesis
    unfolding vm_inv_def pt_wf_def using one_page_inv
    by (auto simp: one_page_def page_ok_def page_aligned_unat dest!: none)
qed

theorem mappages_maps_witness:
  "\<exists>ret s' fs'. mappages 0x80030000 0x1000 1 0x80040000 PTE_R one_page = Inr (ret, s')
    \<and> vm_frame {0x80030000} one_page [0x87FFF000] s' fs'
    \<and> (ret = 0 \<and> (\<forall>r'\<in>{0x80030000}. \<forall>va'<MAXVA. pte_of (km_mem s') r' va' =
          (if r' = 0x80030000 \<and> PGROUNDDOWN 0x1000 \<le> va' \<and> PGROUNDDOWN va' \<le> 0x1000 + 1 - 1
           then PA2PTE (0x80040000 + (PGROUNDDOWN va' - PGROUNDDOWN 0x1000)) OR PTE_R OR PTE_V
           else pte_of (km_mem one_page) r' va'))
       \<or> ret = -1 \<and> fs' = [])"
  by (rule mappages_maps[OF one_root]) simp_all

end
