(* ===== verification/Bio.thy ===== *)
theory Bio
  imports Bytes Spinlock
begin

text \<open>
  The buffer cache of \<^verbatim>\<open>src/kernel/bio.c\<close>. Buffers are the indices below \<^verbatim>\<open>NBUF\<close>; index
  \<^verbatim>\<open>NBUF\<close> is the list head \<^verbatim>\<open>bcache.head\<close>. The least-recently-used list is kept the way the
  code keeps it, as \<^verbatim>\<open>prev\<close> and \<^verbatim>\<open>next\<close> links between buffers. The searches of \<^verbatim>\<open>bget\<close>
  follow these links, so they carry a bound on the number of links followed; \<^verbatim>\<open>NBUF + 1\<close> is
  enough on a well-formed list.

  The disk behind the cache is a function from block numbers to blocks. \<open>bio_writes\<close> records the
  block writes in the order the disk performs them, so that a crash between any two of them can
  be expressed.
\<close>

abbreviation (input) BSIZE :: nat where "BSIZE \<equiv> 1024"

record buf =
  bf_valid :: bool
  bf_disk :: bool
  bf_dev :: u32
  bf_blockno :: u32
  bf_lock :: sleeplock
  bf_refcnt :: u32
  bf_prev :: nat
  bf_next :: nat
  bf_data :: "u8 list"

type_synonym block = "u8 list"

record bio =
  bio_buf :: "nat \<Rightarrow> buf"
  bio_disk :: "u32 \<Rightarrow> block"
  bio_writes :: "(u32 \<times> block) list"

abbreviation (input) bhead :: nat where "bhead \<equiv> NBUF"

definition upd_buf :: "nat \<Rightarrow> (buf \<Rightarrow> buf) \<Rightarrow> 'a bio_scheme \<Rightarrow> 'a bio_scheme" where
  "upd_buf b f s = s\<lparr>bio_buf := (bio_buf s)(b := f (bio_buf s b))\<rparr>"

subsection \<open>The list\<close>

text \<open>Insert \<open>b\<close> after the head; the four assignments of \<^verbatim>\<open>binit\<close> and of \<^verbatim>\<open>brelse\<close>.\<close>

definition link_front :: "nat \<Rightarrow> 'a bio_scheme \<Rightarrow> 'a bio_scheme" where
  "link_front b s =
     (let s1 = upd_buf b (\<lambda>x. x\<lparr>bf_next := bf_next (bio_buf s bhead)\<rparr>) s;
          s2 = upd_buf b (\<lambda>x. x\<lparr>bf_prev := bhead\<rparr>) s1;
          s3 = upd_buf (bf_next (bio_buf s2 bhead)) (\<lambda>x. x\<lparr>bf_prev := b\<rparr>) s2
      in upd_buf bhead (\<lambda>x. x\<lparr>bf_next := b\<rparr>) s3)"

definition unlink :: "nat \<Rightarrow> 'a bio_scheme \<Rightarrow> 'a bio_scheme" where
  "unlink b s =
     (let s1 = upd_buf (bf_next (bio_buf s b)) (\<lambda>x. x\<lparr>bf_prev := bf_prev (bio_buf s b)\<rparr>) s
      in upd_buf (bf_prev (bio_buf s1 b)) (\<lambda>x. x\<lparr>bf_next := bf_next (bio_buf s1 b)\<rparr>) s1)"

definition binit :: "'a bio_scheme \<Rightarrow> 'a bio_scheme" where
  "binit s =
     foldl (\<lambda>s b. upd_buf b (\<lambda>x. x\<lparr>bf_lock := initsleeplock\<rparr>) (link_front b s))
       (upd_buf bhead (\<lambda>x. x\<lparr>bf_prev := bhead, bf_next := bhead\<rparr>) s) [0..<NBUF]"

text \<open>
  Follow links from \<open>b\<close> until the head or a buffer that satisfies \<open>P\<close>: \<open>None\<close> when the bound is
  exhausted first, \<open>Some None\<close> when the head is reached.
\<close>

primrec scan :: "nat \<Rightarrow> (buf \<Rightarrow> nat) \<Rightarrow> (buf \<Rightarrow> bool) \<Rightarrow> (nat \<Rightarrow> buf) \<Rightarrow> nat \<Rightarrow> nat option option" where
  "scan 0 link P bufs b = None"
| "scan (Suc n) link P bufs b =
     (if b = bhead then Some None
      else if P (bufs b) then Some (Some b)
      else scan n link P bufs (link (bufs b)))"

subsection \<open>Operations\<close>

definition lock_buf :: "int \<Rightarrow> nat \<Rightarrow> ('a bio_scheme, nat) kmon" where
  "lock_buf pid b s =
     (case acquiresleep pid (bf_lock (bio_buf s b)) of
        Inl e \<Rightarrow> Inl e
      | Inr lk \<Rightarrow> Inr (b, upd_buf b (\<lambda>x. x\<lparr>bf_lock := lk\<rparr>) s))"

definition bget :: "int \<Rightarrow> u32 \<Rightarrow> u32 \<Rightarrow> ('a bio_scheme, nat) kmon" where
  "bget pid dev blockno s =
     (case scan (Suc NBUF) bf_next (\<lambda>b. bf_dev b = dev \<and> bf_blockno b = blockno) (bio_buf s)
             (bf_next (bio_buf s bhead)) of
        None \<Rightarrow> Inl (Fault ''bget: list'')
      | Some (Some b) \<Rightarrow> lock_buf pid b (upd_buf b (\<lambda>x. x\<lparr>bf_refcnt := bf_refcnt x + 1\<rparr>) s)
      | Some None \<Rightarrow>
          (case scan (Suc NBUF) bf_prev (\<lambda>b. bf_refcnt b = 0) (bio_buf s)
                  (bf_prev (bio_buf s bhead)) of
             None \<Rightarrow> Inl (Fault ''bget: list'')
           | Some None \<Rightarrow> Inl (Panic ''bget: no buffers'')
           | Some (Some b) \<Rightarrow>
               lock_buf pid b
                 (upd_buf b (\<lambda>x. x\<lparr>bf_dev := dev, bf_blockno := blockno, bf_valid := False,
                                     bf_refcnt := 1\<rparr>) s)))"

text \<open>
  What \<^verbatim>\<open>virtio_disk_rw\<close> has done when it returns: the block has been copied to or from the
  disk, and the disk no longer owns the buffer.
\<close>

definition disk_transfer :: "nat \<Rightarrow> bool \<Rightarrow> 'a bio_scheme \<Rightarrow> 'a bio_scheme" where
  "disk_transfer b write s =
     (let x = bio_buf s b
      in if write
         then upd_buf b (\<lambda>x. x\<lparr>bf_disk := False\<rparr>)
                (s\<lparr>bio_disk := (bio_disk s)(bf_blockno x := bf_data x),
                   bio_writes := bio_writes s @ [(bf_blockno x, bf_data x)]\<rparr>)
         else upd_buf b (\<lambda>x. x\<lparr>bf_data := bio_disk s (bf_blockno x), bf_disk := False\<rparr>) s)"

definition bread :: "int \<Rightarrow> u32 \<Rightarrow> u32 \<Rightarrow> ('a bio_scheme, nat) kmon" where
  "bread pid dev blockno =
     kbind (bget pid dev blockno) (\<lambda>b.
       kseq (\<lambda>s. if \<not> bf_valid (bio_buf s b)
                  then kseq (kmodify (disk_transfer b False))
                            (kmodify (upd_buf b (\<lambda>x. x\<lparr>bf_valid := True\<rparr>))) s
                  else kret () s)
            (kret b))"

definition bwrite :: "int \<Rightarrow> nat \<Rightarrow> ('a bio_scheme, unit) kmon" where
  "bwrite pid b s =
     (if \<not> holdingsleep pid (bf_lock (bio_buf s b)) then panic ''bwrite'' s
      else Inr ((), disk_transfer b True s))"

definition brelse :: "int \<Rightarrow> nat \<Rightarrow> ('a bio_scheme, unit) kmon" where
  "brelse pid b s =
     (if \<not> holdingsleep pid (bf_lock (bio_buf s b)) then panic ''brelse'' s
      else
        let s1 = upd_buf b (\<lambda>x. x\<lparr>bf_lock := releasesleep (bf_lock x)\<rparr>) s;
            s2 = upd_buf b (\<lambda>x. x\<lparr>bf_refcnt := bf_refcnt x - 1\<rparr>) s1
        in if bf_refcnt (bio_buf s2 b) = 0 then Inr ((), link_front b (unlink b s2))
           else Inr ((), s2))"

definition bpin :: "nat \<Rightarrow> 'a bio_scheme \<Rightarrow> 'a bio_scheme" where
  "bpin b = upd_buf b (\<lambda>x. x\<lparr>bf_refcnt := bf_refcnt x + 1\<rparr>)"

definition bunpin :: "nat \<Rightarrow> 'a bio_scheme \<Rightarrow> 'a bio_scheme" where
  "bunpin b = upd_buf b (\<lambda>x. x\<lparr>bf_refcnt := bf_refcnt x - 1\<rparr>)"

subsection \<open>The doubly linked list\<close>

text \<open>
  The links from \<open>u\<close> lead through \<open>ys\<close> to \<open>v\<close>, and back.
\<close>

primrec seg :: "(nat \<Rightarrow> nat) \<Rightarrow> (nat \<Rightarrow> nat) \<Rightarrow> nat \<Rightarrow> nat list \<Rightarrow> nat \<Rightarrow> bool" where
  "seg nx pv u [] v = (nx u = v \<and> pv v = u)"
| "seg nx pv u (y # ys) v = (nx u = y \<and> pv y = u \<and> seg nx pv y ys v)"

lemma seg_append: "seg nx pv u (ys @ w # zs) v \<longleftrightarrow> seg nx pv u ys w \<and> seg nx pv w zs v"
  by (induction ys arbitrary: u) auto

lemma seg_cong:
  assumes "\<And>x. x = u \<or> x \<in> set ys \<Longrightarrow> nx' x = nx x" "\<And>x. x = v \<or> x \<in> set ys \<Longrightarrow> pv' x = pv x"
  shows "seg nx' pv' u ys v = seg nx pv u ys v"
  using assms by (induction ys arbitrary: u) auto

lemma seg_first: "seg nx pv u ys v \<Longrightarrow> nx u = hd (ys @ [v])"
  by (cases ys) auto

lemma seg_last: "seg nx pv u ys v \<Longrightarrow> pv v = last (u # ys)"
  by (induction ys arbitrary: u) auto

lemma seg_unlink:
  assumes "seg nx pv u (as @ b # cs) v" "distinct (as @ b # cs)"
    "u \<notin> set (as @ b # cs)" "v \<notin> set (as @ b # cs)"
  shows "seg (nx(pv b := nx b)) (pv(nx b := pv b)) u (as @ cs) v"
  using assms
proof (induction as arbitrary: u)
  case Nil
  then have b: "pv b = u" "seg nx pv b cs v" by auto
  show ?case
  proof (cases cs)
    case (Cons c ds)
    have "seg (nx(u := c)) (pv(c := u)) c ds v = seg nx pv c ds v"
      using Nil.prems Cons by (intro seg_cong) auto
    then show ?thesis using b Cons by (simp add: fun_upd_def)
  qed (use b in simp)
next
  case (Cons a as)
  have s: "seg nx pv a (as @ b # cs) v" "nx u = a" "pv a = u" using Cons.prems(1) by auto
  have ab: "seg nx pv a as b" "seg nx pv b cs v" using s(1) by (auto simp: seg_append)
  have "pv b = last (a # as)" "nx b = hd (cs @ [v])" using seg_last[OF ab(1)] seg_first[OF ab(2)] .
  then have "pv b \<in> set (a # as)" "nx b \<in> set (cs @ [v])"
    using last_in_set[of "a # as"] hd_in_set[of "cs @ [v]"] by simp_all
  then have "pv b \<noteq> u" "nx b \<noteq> a" using Cons.prems(2-4) by auto
  then show ?case using Cons.IH[OF s(1)] s(2,3) Cons.prems(2-4) by auto
qed

lemma seg_insert:
  assumes "seg nx pv h xs h" "b \<notin> set xs" "h \<notin> set xs" "b \<noteq> h" "distinct xs"
  shows "seg ((nx(b := nx h))(h := b)) ((pv(b := h))(nx h := b)) h (b # xs) h"
proof (cases xs)
  case Nil
  then show ?thesis using assms by auto
next
  case (Cons x ys)
  then have x: "nx h = x" "seg nx pv x ys h" using assms by auto
  have "seg ((nx(b := x))(h := b)) ((pv(b := h))(x := b)) x ys h = seg nx pv x ys h"
    using assms Cons by (intro seg_cong) auto
  then show ?thesis using assms Cons x by (simp add: fun_upd_def)
qed

definition nxf :: "'a bio_scheme \<Rightarrow> nat \<Rightarrow> nat" where "nxf s i = bf_next (bio_buf s i)"
definition pvf :: "'a bio_scheme \<Rightarrow> nat \<Rightarrow> nat" where "pvf s i = bf_prev (bio_buf s i)"

text \<open>The buffers from the most to the least recently used.\<close>

definition lru :: "'a bio_scheme \<Rightarrow> nat list \<Rightarrow> bool" where
  "lru s xs = (seg (nxf s) (pvf s) bhead xs bhead \<and> distinct xs \<and> set xs = {..<NBUF})"

lemma upd_buf_same [simp]: "bio_buf (upd_buf b f s) b = f (bio_buf s b)"
  by (simp add: upd_buf_def)

lemma upd_buf_other [simp]: "i \<noteq> b \<Longrightarrow> bio_buf (upd_buf b f s) i = bio_buf s i"
  by (simp add: upd_buf_def)

lemma upd_buf_disk [simp]:
  "bio_disk (upd_buf b f s) = bio_disk s" "bio_writes (upd_buf b f s) = bio_writes s"
  by (simp_all add: upd_buf_def)

lemma links_upd_buf:
  assumes "\<And>x. bf_next (f x) = bf_next x" "\<And>x. bf_prev (f x) = bf_prev x"
  shows "nxf (upd_buf b f s) = nxf s" "pvf (upd_buf b f s) = pvf s"
  using assms by (auto simp: fun_eq_iff nxf_def pvf_def upd_buf_def)

lemma lru_upd_buf:
  assumes "\<And>x. bf_next (f x) = bf_next x" "\<And>x. bf_prev (f x) = bf_prev x"
  shows "lru (upd_buf b f s) xs = lru s xs"
  by (simp add: lru_def links_upd_buf[OF assms])

lemma links_link_front:
  assumes "b \<noteq> bhead"
  shows "nxf (link_front b s) = ((nxf s)(b := nxf s bhead))(bhead := b)"
    and "pvf (link_front b s) = ((pvf s)(b := bhead))(nxf s bhead := b)"
  using assms by (auto simp: fun_eq_iff nxf_def pvf_def link_front_def upd_buf_def Let_def)

lemma links_unlink:
  "nxf (unlink b s) = (nxf s)(pvf (unlink b s) b := nxf s b)"
  "pvf (unlink b s) = (pvf s)(nxf s b := pvf s b)"
  by (auto simp: fun_eq_iff nxf_def pvf_def unlink_def upd_buf_def Let_def)

text \<open>Releasing a buffer makes it the most recently used one.\<close>

lemma lru_move_front:
  assumes "lru s xs" "b < NBUF"
  shows "lru (link_front b (unlink b s)) (b # remove1 b xs)"
proof -
  from assms obtain as cs where xs: "xs = as @ b # cs" "b \<notin> set as"
    by (metis lru_def lessThan_iff split_list_first)
  have d: "distinct xs" "set xs = {..<NBUF}" "seg (nxf s) (pvf s) bhead xs bhead"
    using assms by (auto simp: lru_def)
  have h: "bhead \<notin> set xs" by (simp add: d(2))
  have r: "remove1 b xs = as @ cs" using xs by (simp add: remove1_append)
  have "nxf s b \<noteq> b"
  proof -
    have "seg (nxf s) (pvf s) b cs bhead" using d(3) xs(1) by (simp add: seg_append)
    from seg_first[OF this] show ?thesis using d(1) xs assms(2) by (cases cs) auto
  qed
  then have u: "nxf (unlink b s) = (nxf s)(pvf s b := nxf s b)"
      "pvf (unlink b s) = (pvf s)(nxf s b := pvf s b)"
    by (simp_all add: links_unlink)
  have "seg (nxf (unlink b s)) (pvf (unlink b s)) bhead (as @ cs) bhead"
    unfolding u using d h xs by (intro seg_unlink) auto
  then have "seg (nxf (link_front b (unlink b s))) (pvf (link_front b (unlink b s))) bhead (b # as @ cs) bhead"
    using assms(2) d h xs by (subst links_link_front(1), simp, subst links_link_front(2), simp)
      (intro seg_insert, auto)
  moreover have "distinct (b # as @ cs)" "set (b # as @ cs) = set xs" using d(1) xs by auto
  ultimately show ?thesis using d(2) r by (simp add: lru_def)
qed

lemma scan_next:
  assumes "seg nx pv u xs bhead" "bhead \<notin> set xs" "nx = (\<lambda>i. bf_next (bufs i))"
  shows "scan (Suc (length xs)) bf_next P bufs (nx u) = Some (find (\<lambda>i. P (bufs i)) xs)"
  using assms by (induction xs arbitrary: u) auto

lemma scan_prev:
  assumes "seg nx pv bhead xs v" "bhead \<notin> set xs" "pv = (\<lambda>i. bf_prev (bufs i))"
  shows "scan (Suc (length xs)) bf_prev P bufs (pv v) = Some (find (\<lambda>i. P (bufs i)) (rev xs))"
  using assms
proof (induction xs arbitrary: v rule: rev_induct)
  case Nil
  then show ?case by auto
next
  case (snoc x xs)
  then have "seg nx pv bhead xs x" "pv v = x" by (auto simp: seg_append)
  with snoc show ?case by auto
qed

lemma length_lru: "lru s xs \<Longrightarrow> length xs = NBUF"
  using distinct_card[of xs] by (simp add: lru_def)

lemma bget_scans:
  assumes "lru s xs"
  shows "scan (Suc NBUF) bf_next P (bio_buf s) (bf_next (bio_buf s bhead)) =
           Some (find (\<lambda>i. P (bio_buf s i)) xs)"
    and "scan (Suc NBUF) bf_prev P (bio_buf s) (bf_prev (bio_buf s bhead)) =
           Some (find (\<lambda>i. P (bio_buf s i)) (rev xs))"
proof -
  have s: "seg (nxf s) (pvf s) bhead xs bhead" and h: "bhead \<notin> set xs"
    using assms by (auto simp: lru_def)
  show "scan (Suc NBUF) bf_next P (bio_buf s) (bf_next (bio_buf s bhead)) =
           Some (find (\<lambda>i. P (bio_buf s i)) xs)"
    using scan_next[OF s h, of "bio_buf s" P] length_lru[OF assms]
    by (simp add: nxf_def[abs_def] del: scan.simps)
  show "scan (Suc NBUF) bf_prev P (bio_buf s) (bf_prev (bio_buf s bhead)) =
           Some (find (\<lambda>i. P (bio_buf s i)) (rev xs))"
    using scan_prev[OF s h, of "bio_buf s" P] length_lru[OF assms]
    by (simp add: pvf_def[abs_def] del: scan.simps)
qed

subsection \<open>Invariant and contents\<close>

definition key :: "'a bio_scheme \<Rightarrow> nat \<Rightarrow> u32 \<times> u32" where
  "key s i = (bf_dev (bio_buf s i), bf_blockno (bio_buf s i))"

text \<open>
  No block is cached twice, except block 0 of device 0, which the unused buffers of a fresh cache
  name; only blocks of the one disk are ever read; and a buffer nobody refers to is clean, so that
  recycling it loses nothing.
\<close>

definition bio_inv :: "'a bio_scheme \<Rightarrow> nat list \<Rightarrow> bool" where
  "bio_inv s xs \<longleftrightarrow>
     lru s xs
     \<and> (\<forall>i<NBUF. \<forall>j<NBUF. i \<noteq> j \<longrightarrow> key s i = key s j \<longrightarrow> key s i = (0, 0))
     \<and> (\<forall>i<NBUF. bf_valid (bio_buf s i) \<longrightarrow> bf_dev (bio_buf s i) = ROOTDEV)
     \<and> (\<forall>i<NBUF. bf_refcnt (bio_buf s i) = 0 \<longrightarrow> bf_valid (bio_buf s i)
          \<longrightarrow> bf_data (bio_buf s i) = bio_disk s (bf_blockno (bio_buf s i)))"

text \<open>The current contents of a block: in the cache if it is there, on the disk otherwise.\<close>

definition bview :: "'a bio_scheme \<Rightarrow> u32 \<Rightarrow> block" where
  "bview s b =
     (case find (\<lambda>i. key s i = (ROOTDEV, b) \<and> bf_valid (bio_buf s i)) [0..<NBUF] of
        Some i \<Rightarrow> bf_data (bio_buf s i)
      | None \<Rightarrow> bio_disk s b)"

lemma bview_cached:
  assumes "bio_inv s xs" "i < NBUF" "bf_blockno (bio_buf s i) = b" "bf_valid (bio_buf s i)"
  shows "bview s b = bf_data (bio_buf s i)"
proof -
  have i: "key s i = (ROOTDEV, b)" using assms by (auto simp: bio_inv_def key_def)
  show ?thesis
  proof (cases "find (\<lambda>i. key s i = (ROOTDEV, b) \<and> bf_valid (bio_buf s i)) [0..<NBUF]")
    case None
    then show ?thesis using assms i by (auto simp: find_None_iff)
  next
    case (Some j)
    then have j: "j < NBUF" "key s j = (ROOTDEV, b)" by (auto simp: find_Some_iff)
    have "j = i"
    proof (rule ccontr)
      assume "j \<noteq> i"
      then have "key s j = (0, 0)" using assms(1,2) i j unfolding bio_inv_def by metis
      then show False using j(2) by simp
    qed
    with Some show ?thesis by (simp add: bview_def)
  qed
qed

lemma bview_uncached:
  assumes "\<forall>i<NBUF. key s i = (ROOTDEV, b) \<longrightarrow> \<not> bf_valid (bio_buf s i)"
  shows "bview s b = bio_disk s b"
proof -
  have "find (\<lambda>i. key s i = (ROOTDEV, b) \<and> bf_valid (bio_buf s i)) [0..<NBUF] = None"
    using assms by (auto simp: find_None_iff)
  then show ?thesis by (simp add: bview_def)
qed

lemma find_cong_on:
  "(\<And>x. x \<in> set xs \<Longrightarrow> P x = Q x) \<Longrightarrow> find P xs = find Q xs"
  by (induction xs) auto

lemma bview_cong:
  assumes "\<And>j. j < NBUF \<Longrightarrow> (key s' j = (ROOTDEV, b) \<and> bf_valid (bio_buf s' j)) =
      (key s j = (ROOTDEV, b) \<and> bf_valid (bio_buf s j))"
    and "\<And>j. j < NBUF \<Longrightarrow> key s j = (ROOTDEV, b) \<Longrightarrow> bf_valid (bio_buf s j)
      \<Longrightarrow> bf_data (bio_buf s' j) = bf_data (bio_buf s j)"
    and "bio_disk s' b = bio_disk s b"
  shows "bview s' b = bview s b"
proof -
  have eq: "find (\<lambda>j. key s' j = (ROOTDEV, b) \<and> bf_valid (bio_buf s' j)) [0..<NBUF] =
      find (\<lambda>j. key s j = (ROOTDEV, b) \<and> bf_valid (bio_buf s j)) [0..<NBUF]"
    by (rule find_cong_on) (use assms(1) in simp)
  show ?thesis
  proof (cases "find (\<lambda>j. key s j = (ROOTDEV, b) \<and> bf_valid (bio_buf s j)) [0..<NBUF]")
    case (Some i)
    then have "i < NBUF" "key s i = (ROOTDEV, b)" "bf_valid (bio_buf s i)"
      by (auto simp: find_Some_iff)
    from assms(2)[OF this] Some eq show ?thesis by (simp add: bview_def)
  qed (use eq assms(3) in \<open>simp add: bview_def\<close>)
qed

text \<open>On a well-formed list the two searches of \<^verbatim>\<open>bget\<close> are searches of the list in order.\<close>

lemma bget_eq:
  assumes "lru s xs"
  shows "bget pid dev blockno s =
     (case find (\<lambda>i. bf_dev (bio_buf s i) = dev \<and> bf_blockno (bio_buf s i) = blockno) xs of
        Some b \<Rightarrow> lock_buf pid b (upd_buf b (\<lambda>x. x\<lparr>bf_refcnt := bf_refcnt x + 1\<rparr>) s)
      | None \<Rightarrow>
          (case find (\<lambda>i. bf_refcnt (bio_buf s i) = 0) (rev xs) of
             None \<Rightarrow> Inl (Panic ''bget: no buffers'')
           | Some b \<Rightarrow>
               lock_buf pid b
                 (upd_buf b (\<lambda>x. x\<lparr>bf_dev := dev, bf_blockno := blockno, bf_valid := False,
                                     bf_refcnt := 1\<rparr>) s)))"
  unfolding bget_def bget_scans[OF assms] by (simp split: option.split)

text \<open>
  \<^verbatim>\<open>bread\<close> changes one buffer: either one that holds the block already, whose reference count
  goes up, or an unreferenced one, which it fills from the disk.
\<close>

definition bread_hit :: "int \<Rightarrow> u32 \<Rightarrow> u32 \<Rightarrow> 'a bio_scheme \<Rightarrow> nat \<Rightarrow> buf \<Rightarrow> bool" where
  "bread_hit pid dev b s i x =
     (key s i = (dev, b) \<and> bf_refcnt x = bf_refcnt (bio_buf s i) + 1
      \<and> bf_data x = (if bf_valid (bio_buf s i) then bf_data (bio_buf s i) else bio_disk s b))"

definition bread_miss :: "int \<Rightarrow> u32 \<Rightarrow> u32 \<Rightarrow> 'a bio_scheme \<Rightarrow> nat \<Rightarrow> buf \<Rightarrow> bool" where
  "bread_miss pid dev b s i x =
     ((\<forall>j<NBUF. key s j \<noteq> (dev, b)) \<and> bf_refcnt (bio_buf s i) = 0 \<and> bf_refcnt x = 1
      \<and> bf_data x = bio_disk s b)"

lemma bread_result:
  assumes "lru s xs" "bread pid dev b s = Inr (i, s')"
  shows "\<exists>x. s' = upd_buf i (\<lambda>_. x) s \<and> i < NBUF \<and> bf_valid x \<and> bf_dev x = dev \<and> bf_blockno x = b
    \<and> bf_next x = bf_next (bio_buf s i) \<and> bf_prev x = bf_prev (bio_buf s i)
    \<and> holdingsleep pid (bf_lock x) \<and> (bread_hit pid dev b s i x \<or> bread_miss pid dev b s i x)"
proof -
  let ?k = "\<lambda>i. bf_dev (bio_buf s i) = dev \<and> bf_blockno (bio_buf s i) = b"
  let ?z = "\<lambda>i. bf_refcnt (bio_buf s i) = 0"
  have xs: "set xs = {..<NBUF}" using assms(1) by (simp add: lru_def)
  have lock: "holdingsleep pid lk'" if "acquiresleep pid lk = Inr lk'" for lk lk'
    using acquiresleep_holding[OF that] by simp
  have fill: "\<exists>x. s' = upd_buf i (\<lambda>_. x) s \<and> i = j \<and> bf_valid x \<and> bf_dev x = dev \<and> bf_blockno x = b
      \<and> bf_next x = bf_next (bio_buf s i) \<and> bf_prev x = bf_prev (bio_buf s i)
      \<and> holdingsleep pid (bf_lock x) \<and> bf_refcnt x = bf_refcnt y
      \<and> bf_data x = (if bf_valid y then bf_data y else bio_disk s b)"
    if get: "bget pid dev b s = lock_buf pid j (upd_buf j (\<lambda>_. y) s)"
      and y: "bf_dev y = dev" "bf_blockno y = b" "bf_next y = bf_next (bio_buf s j)"
        "bf_prev y = bf_prev (bio_buf s j)" "bf_lock y = bf_lock (bio_buf s j)" for j y
  proof -
    obtain lk where lk: "acquiresleep pid (bf_lock y) = Inr lk"
      using assms(2) by (auto simp: bread_def get lock_buf_def split: sum.splits)
    from assms(2) lk lock[OF lk] y show ?thesis
      by (cases "bf_valid y")
         (auto simp: bread_def get lock_buf_def upd_buf_def disk_transfer_def Let_def intro!: exI)
  qed
  show ?thesis
  proof (cases "find ?k xs")
    case (Some j)
    then have j: "j < NBUF" "?k j" using xs by (auto simp: find_Some_iff)
    let ?y = "bio_buf s j\<lparr>bf_refcnt := bf_refcnt (bio_buf s j) + 1\<rparr>"
    have "bget pid dev b s = lock_buf pid j (upd_buf j (\<lambda>_. ?y) s)"
      by (simp add: bget_eq[OF assms(1)] Some upd_buf_def)
    from fill[OF this] j show ?thesis by (auto simp: bread_hit_def key_def)
  next
    case None
    then have none: "\<forall>j<NBUF. key s j \<noteq> (dev, b)" using xs by (auto simp: find_None_iff key_def)
    show ?thesis
    proof (cases "find ?z (rev xs)")
      case none': None
      then show ?thesis using assms(2) None by (simp add: bread_def bget_eq[OF assms(1)])
    next
      case (Some j)
      then have j: "j < NBUF" "?z j" using xs by (auto simp: find_Some_iff) (metis lessThan_iff nth_mem length_rev set_rev)
      let ?y = "bio_buf s j\<lparr>bf_dev := dev, bf_blockno := b, bf_valid := False, bf_refcnt := 1\<rparr>"
      have "bget pid dev b s = lock_buf pid j (upd_buf j (\<lambda>_. ?y) s)"
        by (simp add: bget_eq[OF assms(1)] Some None upd_buf_def)
      from fill[OF this] j none show ?thesis by (auto simp: bread_miss_def)
    qed
  qed
qed

definition refs_room :: "'a bio_scheme \<Rightarrow> bool" where
  "refs_room s \<longleftrightarrow> (\<forall>i<NBUF. bf_refcnt (bio_buf s i) + 1 \<noteq> 0)"

lemma bread_ok:
  assumes inv: "bio_inv s xs" and room: "refs_room s" and run: "bread pid ROOTDEV b s = Inr (i, s')"
  shows "bio_inv s' xs" "i < NBUF" "key s' i = (ROOTDEV, b)" "bf_valid (bio_buf s' i)"
    "holdingsleep pid (bf_lock (bio_buf s' i))" "bf_data (bio_buf s' i) = bview s b"
    "bview s' = bview s" "bio_disk s' = bio_disk s" "bio_writes s' = bio_writes s"
    "bf_refcnt (bio_buf s' i) \<noteq> 0"
proof -
  have lru: "lru s xs" using inv by (simp add: bio_inv_def)
  obtain x where s': "s' = upd_buf i (\<lambda>_. x) s" and i: "i < NBUF"
    and x: "bf_valid x" "bf_dev x = ROOTDEV" "bf_blockno x = b"
      "bf_next x = bf_next (bio_buf s i)" "bf_prev x = bf_prev (bio_buf s i)"
      "holdingsleep pid (bf_lock x)"
    and hm: "bread_hit pid ROOTDEV b s i x \<or> bread_miss pid ROOTDEV b s i x"
    using bread_result[OF lru run] by blast
  have rc: "bf_refcnt x \<noteq> 0"
    using hm room i by (auto simp: bread_hit_def bread_miss_def refs_room_def)
  have buf: "bio_buf s' j = (if j = i then x else bio_buf s j)" for j by (simp add: s' upd_buf_def)
  have disk: "bio_disk s' = bio_disk s" "bio_writes s' = bio_writes s" by (simp_all add: s')
  have keyi: "key s' i = (ROOTDEV, b)" using x by (simp add: key_def buf)
  have "nxf s' = nxf s" "pvf s' = pvf s" using x(4,5) by (auto simp: fun_eq_iff nxf_def pvf_def buf)
  then have lru': "lru s' xs" using lru by (simp add: lru_def)
  have others: "key s j \<noteq> (ROOTDEV, b)" if "j < NBUF" "j \<noteq> i" for j
    using hm that i inv unfolding bread_hit_def bread_miss_def bio_inv_def by (metis fst_conv zero_neq_one)
  have key': "key s' j = (if j = i then (ROOTDEV, b) else key s j)" for j
    using keyi by (simp add: key_def buf)
  have "\<forall>j<NBUF. \<forall>k<NBUF. j \<noteq> k \<longrightarrow> key s' j = key s' k \<longrightarrow> key s' j = (0, 0)"
    using inv others unfolding bio_inv_def key' by metis
  then have inv': "bio_inv s' xs"
    using inv lru' rc x unfolding bio_inv_def by (simp add: buf disk)
  have dat: "bf_data x = bview s b"
  proof (cases "key s i = (ROOTDEV, b) \<and> bf_valid (bio_buf s i)")
    case True
    then show ?thesis
      using hm i bview_cached[OF inv i] by (auto simp: bread_hit_def bread_miss_def key_def)
  next
    case False
    then have "bview s b = bio_disk s b" using others by (intro bview_uncached) auto
    then show ?thesis using hm False by (auto simp: bread_hit_def bread_miss_def)
  qed
  show "bio_inv s' xs" "i < NBUF" "key s' i = (ROOTDEV, b)" "bf_valid (bio_buf s' i)"
    "holdingsleep pid (bf_lock (bio_buf s' i))" "bf_data (bio_buf s' i) = bview s b"
    "bio_disk s' = bio_disk s" "bio_writes s' = bio_writes s" "bf_refcnt (bio_buf s' i) \<noteq> 0"
    using inv' i keyi x disk dat rc by (simp_all add: buf)
  show "bview s' = bview s"
  proof
    fix c
    show "bview s' c = bview s c"
    proof (cases "c = b")
      case True
      have "bview s' b = bf_data (bio_buf s' i)" using x by (intro bview_cached[OF inv' i]) (auto simp: buf)
      then show ?thesis using True dat by (simp add: buf)
    next
      case False
      show ?thesis
      proof (cases "key s i = (ROOTDEV, c) \<and> bf_valid (bio_buf s i)")
        case True
        then have "bf_refcnt (bio_buf s i) = 0"
          using hm False by (auto simp: bread_hit_def bread_miss_def)
        then have "bview s c = bio_disk s c"
          using True inv i bview_cached[OF inv i, of c] unfolding bio_inv_def by (auto simp: key_def)
        moreover have "key s j \<noteq> (ROOTDEV, c)" if "j < NBUF" "j \<noteq> i" for j
          using that True i inv unfolding bio_inv_def by (metis fst_conv zero_neq_one)
        then have "bview s' c = bio_disk s' c"
          using False x by (intro bview_uncached) (auto simp: key_def buf)
        ultimately show ?thesis by (simp add: disk)
      next
        case no: False
        then show ?thesis
          using False x by (intro bview_cong) (auto simp: key_def buf disk)
      qed
    qed
  qed
qed

text \<open>Changes of one cached buffer that keep its place in the list and the block it holds.\<close>

lemma bio_inv_upd_buf:
  assumes inv: "bio_inv s xs" and i: "i < NBUF"
    and same: "\<And>x. bf_next (f x) = bf_next x" "\<And>x. bf_prev (f x) = bf_prev x"
      "\<And>x. bf_dev (f x) = bf_dev x" "\<And>x. bf_blockno (f x) = bf_blockno x"
      "\<And>x. bf_valid (f x) = bf_valid x"
    and clean: "bf_refcnt (f (bio_buf s i)) = 0 \<Longrightarrow> bf_valid (bio_buf s i) \<Longrightarrow>
      bf_data (f (bio_buf s i)) = bio_disk s (bf_blockno (bio_buf s i))"
  shows "bio_inv (upd_buf i f s) xs"
    and "bf_valid (bio_buf s i) \<Longrightarrow>
      bview (upd_buf i f s) = (bview s)(bf_blockno (bio_buf s i) := bf_data (f (bio_buf s i)))"
proof -
  have "key (upd_buf i f s) = key s" using same(3,4) by (auto simp: fun_eq_iff key_def upd_buf_def)
  moreover have "lru (upd_buf i f s) xs" using inv lru_upd_buf[OF same(1,2), of i s xs] by (simp add: bio_inv_def)
  ultimately show inv': "bio_inv (upd_buf i f s) xs"
    using inv same clean unfolding bio_inv_def by (auto simp: upd_buf_def)
  show "bview (upd_buf i f s) = (bview s)(bf_blockno (bio_buf s i) := bf_data (f (bio_buf s i)))"
    if v: "bf_valid (bio_buf s i)"
  proof
    fix c
    show "bview (upd_buf i f s) c = ((bview s)(bf_blockno (bio_buf s i) := bf_data (f (bio_buf s i)))) c"
    proof (cases "c = bf_blockno (bio_buf s i)")
      case True
      then show ?thesis using bview_cached[OF inv' i] v same by (simp add: fun_upd_def)
    next
      case False
      have "bview (upd_buf i f s) c = bview s c"
        using False same by (intro bview_cong) (auto simp: key_def upd_buf_def)
      with False show ?thesis by simp
    qed
  qed
qed

lemma bview_upd_keep:
  assumes "bio_inv s xs" "i < NBUF" "bf_valid (bio_buf s i)"
  shows "(bview s)(bf_blockno (bio_buf s i) := bf_data (bio_buf s i)) = bview s"
  using bview_cached[OF assms(1,2) refl assms(3)] by (simp add: fun_eq_iff)

lemma bset_data_ok:
  assumes "bio_inv s xs" "i < NBUF" "bf_valid (bio_buf s i)" "bf_refcnt (bio_buf s i) \<noteq> 0"
  shows "bio_inv (upd_buf i (\<lambda>x. x\<lparr>bf_data := d\<rparr>) s) xs"
    and "bview (upd_buf i (\<lambda>x. x\<lparr>bf_data := d\<rparr>) s) = (bview s)(bf_blockno (bio_buf s i) := d)"
  using bio_inv_upd_buf[OF assms(1,2), of "\<lambda>x. x\<lparr>bf_data := d\<rparr>"] assms(3,4) by simp_all

lemma bpin_ok:
  assumes "bio_inv s xs" "refs_room s" "i < NBUF" "bf_valid (bio_buf s i)"
  shows "bio_inv (bpin i s) xs" "bview (bpin i s) = bview s"
    "bio_disk (bpin i s) = bio_disk s" "bio_writes (bpin i s) = bio_writes s"
  using bio_inv_upd_buf[OF assms(1,3), of "\<lambda>x. x\<lparr>bf_refcnt := bf_refcnt x + 1\<rparr>"] assms
    bview_upd_keep[OF assms(1,3,4)]
  by (simp_all add: bpin_def refs_room_def)

lemma bunpin_ok:
  assumes "bio_inv s xs" "i < NBUF" "bf_valid (bio_buf s i)"
    and "bf_refcnt (bio_buf s i) = 1 \<Longrightarrow> bf_data (bio_buf s i) = bio_disk s (bf_blockno (bio_buf s i))"
  shows "bio_inv (bunpin i s) xs" "bview (bunpin i s) = bview s"
    "bio_disk (bunpin i s) = bio_disk s" "bio_writes (bunpin i s) = bio_writes s"
  using bio_inv_upd_buf[OF assms(1,2), of "\<lambda>x. x\<lparr>bf_refcnt := bf_refcnt x - 1\<rparr>"] assms
    bview_upd_keep[OF assms(1,2,3)]
  by (simp_all add: bunpin_def)

lemma bwrite_ok:
  assumes inv: "bio_inv s xs" and i: "i < NBUF" "bf_valid (bio_buf s i)"
    and hold: "holdingsleep pid (bf_lock (bio_buf s i))"
  shows "\<exists>s'. bwrite pid i s = Inr ((), s') \<and> bio_inv s' xs \<and> bview s' = bview s
    \<and> bio_disk s' = (bio_disk s)(bf_blockno (bio_buf s i) := bf_data (bio_buf s i))
    \<and> bio_writes s' = bio_writes s @ [(bf_blockno (bio_buf s i), bf_data (bio_buf s i))]
    \<and> (\<forall>j. bio_buf s' j = bio_buf s j\<lparr>bf_disk := bf_disk (bio_buf s' j)\<rparr>)
    \<and> bio.more s' = bio.more s"
proof -
  let ?b = "bf_blockno (bio_buf s i)" and ?d = "bf_data (bio_buf s i)"
  let ?s1 = "s\<lparr>bio_disk := (bio_disk s)(?b := ?d), bio_writes := bio_writes s @ [(?b, ?d)]\<rparr>"
  let ?s' = "upd_buf i (\<lambda>x. x\<lparr>bf_disk := False\<rparr>) ?s1"
  have uniq: "j = i" if "j < NBUF" "bf_blockno (bio_buf s j) = ?b" "bf_valid (bio_buf s j)" for j
    using inv i that unfolding bio_inv_def key_def by (metis fst_conv zero_neq_one)
  have "lru ?s1 xs = lru s xs" "key ?s1 = key s"
    by (simp_all add: lru_def key_def[abs_def] nxf_def[abs_def] pvf_def[abs_def])
  moreover have "\<forall>j<NBUF. bf_refcnt (bio_buf s j) = 0 \<longrightarrow> bf_valid (bio_buf s j)
      \<longrightarrow> bf_data (bio_buf s j) = ((bio_disk s)(?b := ?d)) (bf_blockno (bio_buf s j))"
    using inv uniq unfolding bio_inv_def by (metis fun_upd_apply)
  ultimately have inv1: "bio_inv ?s1 xs" using inv unfolding bio_inv_def by simp
  have v1: "bview ?s1 = bview s"
  proof
    fix c
    show "bview ?s1 c = bview s c"
    proof (cases "c = ?b")
      case True
      then show ?thesis using bview_cached[OF inv1, of i c] bview_cached[OF inv, of i c] i by simp
    next
      case False
      then show ?thesis by (intro bview_cong) (auto simp: key_def)
    qed
  qed
  have f: "bio_inv ?s' xs" "bview ?s' = (bview ?s1)(?b := ?d)"
    using bio_inv_upd_buf[OF inv1 i(1), of "\<lambda>x. x\<lparr>bf_disk := False\<rparr>"] inv i
    by (auto simp: bio_inv_def)
  have "bview ?s' = bview s" using f(2) v1 bview_upd_keep[OF inv i] by simp
  with f(1) show ?thesis using hold
    by (intro exI[of _ ?s']) (auto simp: bwrite_def disk_transfer_def Let_def upd_buf_def)
qed

text \<open>Relinking touches no field but the links.\<close>

definition relinked :: "'a bio_scheme \<Rightarrow> 'a bio_scheme \<Rightarrow> bool" where
  "relinked s s' \<longleftrightarrow> bio_disk s' = bio_disk s \<and> bio_writes s' = bio_writes s \<and>
     (\<forall>j. bio_buf s' j\<lparr>bf_next := 0, bf_prev := 0\<rparr> = bio_buf s j\<lparr>bf_next := 0, bf_prev := 0\<rparr>)"

lemma relinked_upd_links:
  "relinked s (upd_buf b (\<lambda>x. x\<lparr>bf_next := n\<rparr>) s)"
  "relinked s (upd_buf b (\<lambda>x. x\<lparr>bf_prev := n\<rparr>) s)"
  by (simp_all add: relinked_def upd_buf_def)

lemma relinked_trans: "relinked s s' \<Longrightarrow> relinked s' s'' \<Longrightarrow> relinked s s''"
  by (simp add: relinked_def)

lemma relinked_unlink: "relinked s (unlink b s)"
  unfolding unlink_def Let_def by (rule relinked_trans[OF relinked_upd_links(2) relinked_upd_links(1)])

lemma relinked_link_front: "relinked s (link_front b s)"
  unfolding link_front_def Let_def
  by (rule relinked_trans[OF relinked_trans[OF relinked_trans[OF
        relinked_upd_links(1) relinked_upd_links(2)] relinked_upd_links(2)] relinked_upd_links(1)])

lemmas relinked_move_front = relinked_trans[OF relinked_unlink relinked_link_front]

lemma relinked_fields:
  assumes "relinked s s'"
  shows "bf_data (bio_buf s' j) = bf_data (bio_buf s j)" "bf_valid (bio_buf s' j) = bf_valid (bio_buf s j)"
    "bf_dev (bio_buf s' j) = bf_dev (bio_buf s j)" "bf_blockno (bio_buf s' j) = bf_blockno (bio_buf s j)"
    "bf_refcnt (bio_buf s' j) = bf_refcnt (bio_buf s j)" "bf_lock (bio_buf s' j) = bf_lock (bio_buf s j)"
    "bio_disk s' = bio_disk s" "bio_writes s' = bio_writes s" "bview s' = bview s" "key s' = key s"
proof -
  have eq: "bio_buf s' j\<lparr>bf_next := 0, bf_prev := 0\<rparr> = bio_buf s j\<lparr>bf_next := 0, bf_prev := 0\<rparr>" for j
    using assms by (simp add: relinked_def)
  have x: "bf_data (bio_buf s' j) = bf_data (bio_buf s j)" "bf_valid (bio_buf s' j) = bf_valid (bio_buf s j)"
    "bf_dev (bio_buf s' j) = bf_dev (bio_buf s j)" "bf_blockno (bio_buf s' j) = bf_blockno (bio_buf s j)"
    "bf_refcnt (bio_buf s' j) = bf_refcnt (bio_buf s j)" "bf_lock (bio_buf s' j) = bf_lock (bio_buf s j)" for j
    using arg_cong[OF eq[of j], of bf_data] arg_cong[OF eq[of j], of bf_valid]
      arg_cong[OF eq[of j], of bf_dev] arg_cong[OF eq[of j], of bf_blockno]
      arg_cong[OF eq[of j], of bf_refcnt] arg_cong[OF eq[of j], of bf_lock] by simp_all
  show "bf_data (bio_buf s' j) = bf_data (bio_buf s j)" "bf_valid (bio_buf s' j) = bf_valid (bio_buf s j)"
    "bf_dev (bio_buf s' j) = bf_dev (bio_buf s j)" "bf_blockno (bio_buf s' j) = bf_blockno (bio_buf s j)"
    "bf_refcnt (bio_buf s' j) = bf_refcnt (bio_buf s j)" "bf_lock (bio_buf s' j) = bf_lock (bio_buf s j)"
    "bio_disk s' = bio_disk s" "bio_writes s' = bio_writes s"
    using assms by (simp_all add: x relinked_def)
  show k: "key s' = key s" by (simp add: key_def fun_eq_iff x)
  show "bview s' = bview s" using assms by (intro ext bview_cong) (simp_all add: k x relinked_def)
qed

lemma brelse_ok:
  assumes inv: "bio_inv s xs" and i: "i < NBUF" "bf_valid (bio_buf s i)"
    and hold: "holdingsleep pid (bf_lock (bio_buf s i))"
    and clean: "bf_refcnt (bio_buf s i) = 1 \<Longrightarrow>
      bf_data (bio_buf s i) = bio_disk s (bf_blockno (bio_buf s i))"
  shows "\<exists>s' xs'. brelse pid i s = Inr ((), s') \<and> bio_inv s' xs' \<and> bview s' = bview s
    \<and> bio_disk s' = bio_disk s \<and> bio_writes s' = bio_writes s
    \<and> (\<forall>j. bf_lock (bio_buf s' j) = (if j = i then releasesleep (bf_lock (bio_buf s j)) else bf_lock (bio_buf s j)))
    \<and> bio.more s' = bio.more s
    \<and> (\<forall>j. key s' j = key s j) \<and> (\<forall>j. bf_data (bio_buf s' j) = bf_data (bio_buf s j))
    \<and> (\<forall>j. bf_valid (bio_buf s' j) = bf_valid (bio_buf s j))
    \<and> (\<forall>j. bf_refcnt (bio_buf s' j) = (if j = i then bf_refcnt (bio_buf s j) - 1 else bf_refcnt (bio_buf s j)))"
proof -
  let ?f = "\<lambda>x. x\<lparr>bf_lock := releasesleep (bf_lock x), bf_refcnt := bf_refcnt x - 1\<rparr>"
  let ?s2 = "upd_buf i ?f s"
  have s2: "upd_buf i (\<lambda>x. x\<lparr>bf_refcnt := bf_refcnt x - 1\<rparr>)
      (upd_buf i (\<lambda>x. x\<lparr>bf_lock := releasesleep (bf_lock x)\<rparr>) s) = ?s2"
    by (simp add: upd_buf_def)
  have inv2: "bio_inv ?s2 xs" "bview ?s2 = bview s"
    using bio_inv_upd_buf[OF inv i(1), of ?f] clean i(2) bview_upd_keep[OF inv i] by simp_all
  show ?thesis
  proof (cases "bf_refcnt (bio_buf s i) - 1 = 0")
    case False
    then have "brelse pid i s = Inr ((), ?s2)" using hold by (simp add: brelse_def s2 Let_def)
    with inv2 show ?thesis by (intro exI[of _ ?s2] exI[of _ xs]) (auto simp: upd_buf_def key_def)
  next
    case True
    let ?s3 = "link_front i (unlink i ?s2)"
    have run: "brelse pid i s = Inr ((), ?s3)" using hold True by (simp add: brelse_def s2 Let_def)
    note rl = relinked_fields[OF relinked_move_front[of ?s2 i i]]
    have "lru ?s3 (i # remove1 i xs)" using inv2(1) i by (intro lru_move_front) (auto simp: bio_inv_def)
    then have "bio_inv ?s3 (i # remove1 i xs)" using inv2(1) unfolding bio_inv_def rl by simp
    moreover have "bio.more ?s3 = bio.more s"
      by (simp add: link_front_def unlink_def upd_buf_def Let_def)
    ultimately show ?thesis using inv2(2) run
      by (intro exI[of _ ?s3] exI[of _ "i # remove1 i xs"]) (simp add: rl, simp add: upd_buf_def key_def)
  qed
qed

subsection \<open>Properties\<close>

lemma lru_prefix_link_front:
  assumes "seg (nxf s) (pvf s) bhead xs bhead" "b \<notin> set xs" "bhead \<notin> set xs" "b \<noteq> bhead" "distinct xs"
  shows "seg (nxf (link_front b s)) (pvf (link_front b s)) bhead (b # xs) bhead"
  unfolding links_link_front[OF assms(4)] by (rule seg_insert[OF assms])

definition fresh_cache :: "'a bio_scheme \<Rightarrow> bool" where
  "fresh_cache s \<longleftrightarrow> (\<forall>i<NBUF. key s i = (0, 0) \<and> \<not> bf_valid (bio_buf s i)
     \<and> bf_refcnt (bio_buf s i) = 0 \<and> \<not> sl_locked (bf_lock (bio_buf s i)))"

lemma binit_loop:
  assumes "k \<le> NBUF" and "fresh_cache s"
  shows "let s' = foldl (\<lambda>s b. upd_buf b (\<lambda>x. x\<lparr>bf_lock := initsleeplock\<rparr>) (link_front b s))
       (upd_buf bhead (\<lambda>x. x\<lparr>bf_prev := bhead, bf_next := bhead\<rparr>) s) [0..<k]
    in seg (nxf s') (pvf s') bhead (rev [0..<k]) bhead \<and> fresh_cache s'"
  using assms
proof (induction k)
  case 0
  then show ?case by (simp add: nxf_def pvf_def fresh_cache_def key_def)
next
  case (Suc k)
  define s1 where "s1 = foldl (\<lambda>s b. upd_buf b (\<lambda>x. x\<lparr>bf_lock := initsleeplock\<rparr>) (link_front b s))
       (upd_buf bhead (\<lambda>x. x\<lparr>bf_prev := bhead, bf_next := bhead\<rparr>) s) [0..<k]"
  have IH: "seg (nxf s1) (pvf s1) bhead (rev [0..<k]) bhead" "fresh_cache s1"
    using Suc unfolding s1_def Let_def by auto
  have "seg (nxf (link_front k s1)) (pvf (link_front k s1)) bhead (k # rev [0..<k]) bhead"
    using IH(1) Suc.prems(1) by (intro lru_prefix_link_front) auto
  moreover have "fresh_cache (link_front k s1)"
    using IH(2) by (simp add: fresh_cache_def relinked_fields[OF relinked_link_front])
  then have "fresh_cache (upd_buf k (\<lambda>x. x\<lparr>bf_lock := initsleeplock\<rparr>) (link_front k s1))"
    by (auto simp: fresh_cache_def upd_buf_def key_def initsleeplock_def)
  ultimately show ?case
    by (simp add: Let_def links_upd_buf flip: s1_def)
qed

lemma binit_inv:
  assumes "fresh_cache s"
  shows "bio_inv (binit s) (rev [0..<NBUF])"
proof -
  have "seg (nxf (binit s)) (pvf (binit s)) bhead (rev [0..<NBUF]) bhead" "fresh_cache (binit s)"
    using binit_loop[OF order.refl assms] unfolding binit_def Let_def by blast+
  then show ?thesis unfolding bio_inv_def lru_def fresh_cache_def by auto
qed

text \<open>
  C5: after \<^verbatim>\<open>binit\<close> on the zeroed cache the doubly linked list holds every buffer exactly once,
  in both directions, and the invariant of the buffer cache holds.
\<close>

theorem binit_establishes:
  assumes "fresh_cache s"
  shows "bio_inv (binit s) (rev [0..<NBUF])"
  by (rule binit_inv[OF assms])

definition zero_buf :: buf where
  "zero_buf = \<lparr>bf_valid = False, bf_disk = False, bf_dev = 0, bf_blockno = 0, bf_lock = initsleeplock,
     bf_refcnt = 0, bf_prev = 0, bf_next = 0, bf_data = []\<rparr>"

definition zero_bio :: bio where
  "zero_bio = \<lparr>bio_buf = (\<lambda>_. zero_buf), bio_disk = (\<lambda>b. [ucast b]), bio_writes = []\<rparr>"

lemma zero_bio_fresh: "fresh_cache zero_bio"
  by (simp add: fresh_cache_def zero_bio_def zero_buf_def key_def initsleeplock_def)

theorem binit_establishes_witness: "bio_inv (binit zero_bio) (rev [0..<NBUF])"
  using binit_establishes zero_bio_fresh by blast

lemma binit_fresh: "fresh_cache s \<Longrightarrow> fresh_cache (binit s)"
  using binit_loop[OF order.refl] unfolding binit_def Let_def by blast

lemma bread_fresh:
  assumes "fresh_cache s" "lru s xs" "dev \<noteq> 0"
  shows "\<exists>i s'. bread pid dev b s = Inr (i, s')"
proof -
  have xs: "set xs = {..<NBUF}" using assms(2) by (simp add: lru_def)
  have none: "find (\<lambda>i. bf_dev (bio_buf s i) = dev \<and> bf_blockno (bio_buf s i) = b) xs = None"
    using assms xs by (auto simp: find_None_iff fresh_cache_def key_def)
  obtain i where i: "find (\<lambda>i. bf_refcnt (bio_buf s i) = 0) (rev xs) = Some i"
    using assms(1) xs by (cases "find (\<lambda>i. bf_refcnt (bio_buf s i) = 0) (rev xs)")
      (auto simp: find_None_iff fresh_cache_def dest: spec[of _ 0])
  then have "i \<in> set xs" by (metis find_Some_iff nth_mem set_rev)
  then have "\<not> sl_locked (bf_lock (bio_buf s i))" using assms(1) xs by (auto simp: fresh_cache_def)
  then show ?thesis
    by (simp add: bread_def bget_eq[OF assms(2)] none i lock_buf_def acquiresleep_def
        kmon_defs upd_buf_def disk_transfer_def)
qed

text \<open>
  C3: the contract of \<^verbatim>\<open>bread\<close>. On a well-formed cache it returns a buffer, locked by the
  caller, that holds the current contents of the block asked for: the cached copy if there is
  one and the disk block otherwise. No other block changes its contents, although a buffer may
  have been recycled; no block is ever cached twice; and the disk is not written.
\<close>

theorem bread_contents:
  assumes "bio_inv s xs" and "refs_room s" and "bread pid ROOTDEV b s = Inr (i, s')"
  shows "bio_inv s' xs \<and> i < NBUF \<and> key s' i = (ROOTDEV, b)
    \<and> holdingsleep pid (bf_lock (bio_buf s' i)) \<and> bf_data (bio_buf s' i) = bview s b
    \<and> bview s' = bview s \<and> bio_disk s' = bio_disk s \<and> bio_writes s' = bio_writes s"
  using bread_ok[OF assms] by simp

theorem bread_contents_witness:
  "\<exists>xs i s'. bread 1 ROOTDEV 7 (binit zero_bio) = Inr (i, s') \<and> bio_inv s' xs \<and> i < NBUF
     \<and> key s' i = (ROOTDEV, 7) \<and> holdingsleep 1 (bf_lock (bio_buf s' i))
     \<and> bf_data (bio_buf s' i) = bview (binit zero_bio) 7"
proof -
  have f: "fresh_cache (binit zero_bio)" by (rule binit_fresh[OF zero_bio_fresh])
  have inv: "bio_inv (binit zero_bio) (rev [0..<NBUF])" by (rule binit_inv[OF zero_bio_fresh])
  have room: "refs_room (binit zero_bio)" using f by (simp add: refs_room_def fresh_cache_def)
  obtain i s' where run: "bread 1 ROOTDEV 7 (binit zero_bio) = Inr (i, s')"
    using bread_fresh[OF f, of "rev [0..<NBUF]" ROOTDEV 1 7] inv by (auto simp: bio_inv_def)
  from bread_contents[OF inv room run] run show ?thesis by blast
qed

text \<open>
  C4: replacement is exactly least-recently-used. Against the order \<open>xs\<close> of the list,
  \<^verbatim>\<open>bget\<close> of a block that is not cached takes the last unreferenced buffer of \<open>xs\<close>, and panics
  when every buffer is referenced; and \<^verbatim>\<open>brelse\<close> of the last reference makes the buffer the
  first of the order and keeps the order of all others.
\<close>

theorem bcache_lru:
  assumes lru: "lru s xs"
  shows "((\<forall>i<NBUF. key s i \<noteq> (dev, b)) \<longrightarrow>
      bget pid dev b s =
        (case find (\<lambda>i. bf_refcnt (bio_buf s i) = 0) (rev xs) of
           None \<Rightarrow> Inl (Panic ''bget: no buffers'')
         | Some i \<Rightarrow> lock_buf pid i (upd_buf i (\<lambda>x. x\<lparr>bf_dev := dev, bf_blockno := b,
                        bf_valid := False, bf_refcnt := 1\<rparr>) s)))
    \<and> (\<forall>i<NBUF. holdingsleep pid (bf_lock (bio_buf s i)) \<longrightarrow> bf_refcnt (bio_buf s i) = 1 \<longrightarrow>
      (\<exists>s'. brelse pid i s = Inr ((), s') \<and> lru s' (i # remove1 i xs)))"
proof (intro conjI impI allI)
  assume "\<forall>i<NBUF. key s i \<noteq> (dev, b)"
  then have "find (\<lambda>i. bf_dev (bio_buf s i) = dev \<and> bf_blockno (bio_buf s i) = b) xs = None"
    using lru by (auto simp: find_None_iff lru_def key_def)
  then show "bget pid dev b s =
        (case find (\<lambda>i. bf_refcnt (bio_buf s i) = 0) (rev xs) of
           None \<Rightarrow> Inl (Panic ''bget: no buffers'')
         | Some i \<Rightarrow> lock_buf pid i (upd_buf i (\<lambda>x. x\<lparr>bf_dev := dev, bf_blockno := b,
                        bf_valid := False, bf_refcnt := 1\<rparr>) s))"
    by (simp add: bget_eq[OF lru])
next
  fix i assume i: "i < NBUF" "holdingsleep pid (bf_lock (bio_buf s i))" "bf_refcnt (bio_buf s i) = 1"
  let ?s2 = "upd_buf i (\<lambda>x. x\<lparr>bf_refcnt := bf_refcnt x - 1\<rparr>)
      (upd_buf i (\<lambda>x. x\<lparr>bf_lock := releasesleep (bf_lock x)\<rparr>) s)"
  have "lru ?s2 xs" using lru by (simp add: lru_upd_buf)
  from lru_move_front[OF this i(1)] show "\<exists>s'. brelse pid i s = Inr ((), s') \<and> lru s' (i # remove1 i xs)"
    using i by (simp add: brelse_def Let_def)
qed

theorem bcache_lru_witness:
  "bget 1 ROOTDEV 7 (binit zero_bio) =
     lock_buf 1 0 (upd_buf 0 (\<lambda>x. x\<lparr>bf_dev := ROOTDEV, bf_blockno := 7, bf_valid := False,
       bf_refcnt := 1\<rparr>) (binit zero_bio))"
proof -
  have f: "fresh_cache (binit zero_bio)" by (rule binit_fresh[OF zero_bio_fresh])
  have "lru (binit zero_bio) (rev [0..<NBUF])"
    using binit_inv[OF zero_bio_fresh] by (simp add: bio_inv_def)
  from bcache_lru[OF this] f show ?thesis by (simp add: fresh_cache_def upt_conv_Cons)
qed

end
