(* ===== verification/Cache.thy ===== *)
theory Cache
  imports Bio
begin

text \<open>
  The buffer cache as its clients see it: for every block a number of references and possibly a
  process that holds it locked. The relation \<open>cached\<close> ties this view to the buffers, and one
  lemma per operation of \<^verbatim>\<open>src/kernel/bio.c\<close> shows how the view changes. In contrast to the
  lemmas on single buffers, these also show that the operations return.
\<close>

definition holds :: "'a bio_scheme \<Rightarrow> nat \<Rightarrow> u32 \<Rightarrow> bool" where
  "holds s i b = (i < NBUF \<and> key s i = (ROOTDEV, b) \<and> bf_valid (bio_buf s i))"

definition cached :: "'a bio_scheme \<Rightarrow> (u32 \<Rightarrow> nat) \<Rightarrow> (u32 \<Rightarrow> int option) \<Rightarrow> bool" where
  "cached s rc lk \<longleftrightarrow>
     (\<exists>xs. bio_inv s xs)
     \<and> (\<forall>i<NBUF. bf_dev (bio_buf s i) = ROOTDEV \<longrightarrow>
          bf_refcnt (bio_buf s i) = of_nat (rc (bf_blockno (bio_buf s i)))
          \<and> sl_locked (bf_lock (bio_buf s i)) = (lk (bf_blockno (bio_buf s i)) \<noteq> None)
          \<and> (\<forall>p. lk (bf_blockno (bio_buf s i)) = Some p \<longrightarrow> sl_pid (bf_lock (bio_buf s i)) = p))
     \<and> (\<forall>i<NBUF. bf_dev (bio_buf s i) \<noteq> ROOTDEV \<longrightarrow>
          bf_refcnt (bio_buf s i) = 0 \<and> \<not> sl_locked (bf_lock (bio_buf s i)))
     \<and> (\<forall>b. rc b \<noteq> 0 \<longrightarrow> (\<exists>i. holds s i b))
     \<and> (\<forall>b. lk b \<noteq> None \<longrightarrow> rc b \<noteq> 0) \<and> (\<forall>b. rc b < 2 ^ 31)"

lemma of_nat_u32_eq_0: "n < 2 ^ 31 \<Longrightarrow> (of_nat n :: u32) = 0 \<longleftrightarrow> n = 0"
  by (simp add: word_unat_eq_iff unat_of_nat)

lemma of_nat_u32_eq_1: "n < 2 ^ 31 \<Longrightarrow> (of_nat n :: u32) = 1 \<longleftrightarrow> n = 1"
  by (simp add: word_unat_eq_iff unat_of_nat)

lemma of_nat_u32_room: "n < 2 ^ 31 \<Longrightarrow> (of_nat n :: u32) + 1 \<noteq> 0"
  using of_nat_u32_eq_0[of n] by (simp add: word_unat_eq_iff unat_of_nat unat_word_ariths)

lemma cached_inv: "cached s rc lk \<Longrightarrow> \<exists>xs. bio_inv s xs"
  by (simp add: cached_def)

lemma cached_room:
  assumes "cached s rc lk"
  shows "refs_room s"
  unfolding refs_room_def
proof (intro allI impI)
  fix i assume "i < NBUF"
  then show "bf_refcnt (bio_buf s i) + 1 \<noteq> 0"
    using assms of_nat_u32_room by (cases "bf_dev (bio_buf s i) = ROOTDEV") (auto simp: cached_def)
qed

lemma holds_unique:
  assumes "bio_inv s xs" "holds s i b" "j < NBUF" "key s j = (ROOTDEV, b)"
  shows "j = i"
  using assms unfolding bio_inv_def holds_def by (metis prod.inject zero_neq_one)

lemma holdsD:
  assumes "cached s rc lk" "holds s i b"
  shows "i < NBUF" "bf_valid (bio_buf s i)" "bf_blockno (bio_buf s i) = b"
    "bf_refcnt (bio_buf s i) = of_nat (rc b)" "bf_dev (bio_buf s i) = ROOTDEV"
    "lk b = Some p \<Longrightarrow> holdingsleep p (bf_lock (bio_buf s i))"
    "bf_data (bio_buf s i) = bview s b"
proof -
  show i: "i < NBUF" "bf_valid (bio_buf s i)" "bf_blockno (bio_buf s i) = b" "bf_dev (bio_buf s i) = ROOTDEV"
    using assms(2) by (auto simp: holds_def key_def)
  show "bf_refcnt (bio_buf s i) = of_nat (rc b)"
    and "lk b = Some p \<Longrightarrow> holdingsleep p (bf_lock (bio_buf s i))"
    using assms(1) i by (auto simp: cached_def holdingsleep_def)
  obtain xs where "bio_inv s xs" using cached_inv[OF assms(1)] by blast
  from bview_cached[OF this i(1,3,2)] show "bf_data (bio_buf s i) = bview s b" by simp
qed

subsection \<open>bread\<close>

lemma unreferenced:
  assumes "cached s rc lk" "\<And>j. j < NBUF \<Longrightarrow> key s j \<noteq> (ROOTDEV, b)"
  shows "rc b = 0"
  using assms unfolding cached_def holds_def by blast

lemma find_SomeD: "find P xs = Some x \<Longrightarrow> x \<in> set xs \<and> P x"
  by (auto simp: find_Some_iff)

text \<open>When fewer blocks than buffers are referenced, some buffer is free.\<close>

lemma free_buffer:
  assumes c: "cached s rc lk" and card: "card {b. rc b \<noteq> 0} < NBUF"
  shows "\<exists>i<NBUF. bf_refcnt (bio_buf s i) = 0"
proof (rule ccontr)
  assume "\<not> ?thesis"
  then have all: "\<And>i. i < NBUF \<Longrightarrow> bf_refcnt (bio_buf s i) \<noteq> 0" by auto
  then have dev: "bf_dev (bio_buf s i) = ROOTDEV" if "i < NBUF" for i
    using c that unfolding cached_def by blast
  have rc: "rc (bf_blockno (bio_buf s i)) \<noteq> 0" if "i < NBUF" for i
    using c all[OF that] dev[OF that] that unfolding cached_def by force
  obtain xs where inv: "bio_inv s xs" using cached_inv[OF c] by blast
  have "inj_on (\<lambda>i. bf_blockno (bio_buf s i)) {..<NBUF}"
  proof (rule inj_onI)
    fix i j assume ij: "i \<in> {..<NBUF}" "j \<in> {..<NBUF}" "bf_blockno (bio_buf s i) = bf_blockno (bio_buf s j)"
    then have k: "key s i = key s j" "key s i \<noteq> (0, 0)" using dev by (auto simp: key_def)
    show "i = j" using inv ij(1,2) k unfolding bio_inv_def by (metis lessThan_iff)
  qed
  then have "card ((\<lambda>i. bf_blockno (bio_buf s i)) ` {..<NBUF}) = NBUF" by (simp add: card_image)
  moreover have "(\<lambda>i. bf_blockno (bio_buf s i)) ` {..<NBUF} \<subseteq> {b. rc b \<noteq> 0}" using rc by auto
  ultimately have "NBUF \<le> card {b. rc b \<noteq> 0}" using card_mono[of "{b. rc b \<noteq> 0}"] by (metis finite_code)
  then show False using card by simp
qed

lemma bread_runs:
  assumes c: "cached s rc lk" and b: "lk b = None" "rc b \<noteq> 0 \<or> card {b. rc b \<noteq> 0} < NBUF"
  shows "\<exists>i s'. bread pid ROOTDEV b s = Inr (i, s')"
proof -
  obtain xs where inv: "bio_inv s xs" using cached_inv[OF c] by blast
  then have lru: "lru s xs" and xs: "set xs = {..<NBUF}" by (auto simp: bio_inv_def lru_def)
  let ?k = "\<lambda>i. bf_dev (bio_buf s i) = ROOTDEV \<and> bf_blockno (bio_buf s i) = b"
  have run: "\<exists>i s'. bread pid ROOTDEV b s = Inr (i, s')"
    if "bget pid ROOTDEV b s = lock_buf pid j (upd_buf j f s)"
      "\<not> sl_locked (bf_lock (f (bio_buf s j)))" for j f
    using that by (simp add: bread_def lock_buf_def acquiresleep_def kmon_defs)
  show ?thesis
  proof (cases "find ?k xs")
    case (Some j)
    then have "j < NBUF" "?k j" using xs by (auto simp: find_Some_iff)
    then have "\<not> sl_locked (bf_lock (bio_buf s j))" using c b(1) by (auto simp: cached_def)
    then show ?thesis by (intro run[of j "\<lambda>x. x\<lparr>bf_refcnt := bf_refcnt x + 1\<rparr>"]) (auto simp: bget_eq[OF lru] Some)
  next
    case None
    then have "rc b = 0" using xs by (intro unreferenced[OF c]) (auto simp: find_None_iff key_def)
    then obtain k where k: "k < NBUF" "bf_refcnt (bio_buf s k) = 0" using free_buffer[OF c] b(2) by auto
    then obtain j where j: "find (\<lambda>i. bf_refcnt (bio_buf s i) = 0) (rev xs) = Some j"
      using xs by (cases "find (\<lambda>i. bf_refcnt (bio_buf s i) = 0) (rev xs)") (auto simp: find_None_iff)
    then have "j \<in> set (rev xs)" "bf_refcnt (bio_buf s j) = 0" by (auto dest: find_SomeD)
    then have j': "j < NBUF" "bf_refcnt (bio_buf s j) = 0" using xs by auto
    have "\<not> sl_locked (bf_lock (bio_buf s j))"
    proof (cases "bf_dev (bio_buf s j) = ROOTDEV")
      case True
      then have "rc (bf_blockno (bio_buf s j)) = 0" using c j' of_nat_u32_eq_0 unfolding cached_def by metis
      then show ?thesis using c j' True unfolding cached_def by blast
    qed (use c j' in \<open>auto simp: cached_def\<close>)
    then show ?thesis
      by (intro run[of j "\<lambda>x. x\<lparr>bf_dev := ROOTDEV, bf_blockno := b, bf_valid := False, bf_refcnt := 1\<rparr>"])
         (auto simp: bget_eq[OF lru] None j)
  qed
qed

lemma cached_bread:
  assumes c: "cached s rc lk" and b: "lk b = None" "rc b \<noteq> 0 \<or> card {b. rc b \<noteq> 0} < NBUF"
    "rc b + 1 < 2 ^ 31"
  shows "\<exists>i s'. bread pid ROOTDEV b s = Inr (i, s') \<and> cached s' (rc(b := rc b + 1)) (lk(b := Some pid))
    \<and> holds s' i b \<and> bview s' = bview s \<and> bio_disk s' = bio_disk s
    \<and> bio_writes s' = bio_writes s \<and> bio.more s' = bio.more s
    \<and> (\<forall>j c. holds s j c \<longrightarrow> rc c \<noteq> 0 \<longrightarrow> holds s' j c)"
proof -
  obtain i s' where run: "bread pid ROOTDEV b s = Inr (i, s')" using bread_runs[OF c b(1,2)] by blast
  obtain xs where inv: "bio_inv s xs" using cached_inv[OF c] by blast
  then have lru: "lru s xs" by (simp add: bio_inv_def)
  note ok = bread_ok[OF inv cached_room[OF c] run]
  obtain x where s': "s' = upd_buf i (\<lambda>_. x) s"
    and x: "bf_valid x" "bf_dev x = ROOTDEV" "bf_blockno x = b" "holdingsleep pid (bf_lock x)"
    and hm: "bread_hit pid ROOTDEV b s i x \<or> bread_miss pid ROOTDEV b s i x"
    using bread_result[OF lru run] by blast
  have buf: "bio_buf s' j = (if j = i then x else bio_buf s j)" for j by (simp add: s' upd_buf_def)
  have rcx: "bf_refcnt x = of_nat (rc b + 1)"
    using hm
  proof
    assume "bread_hit pid ROOTDEV b s i x"
    then show ?thesis using c ok(2) by (auto simp: bread_hit_def cached_def key_def)
  next
    assume m: "bread_miss pid ROOTDEV b s i x"
    then have "rc b = 0" by (intro unreferenced[OF c]) (simp add: bread_miss_def)
    with m show ?thesis by (simp add: bread_miss_def)
  qed
  have other: "bf_blockno (bio_buf s j) \<noteq> b" if "j < NBUF" "j \<noteq> i" "bf_dev (bio_buf s j) = ROOTDEV" for j
    using holds_unique[OF ok(1), of i b j] ok that by (auto simp: holds_def key_def buf)
  have keep: "holds s' j c" if "holds s j c" "rc c \<noteq> 0" for j c
  proof (cases "j = i")
    case True
    have "bf_refcnt (bio_buf s i) = of_nat (rc c)" using holdsD(4)[OF c that(1)] True by simp
    moreover have "rc c < 2 ^ 31" using c by (simp add: cached_def)
    ultimately have "bread_hit pid ROOTDEV b s i x"
      using hm that(2) of_nat_u32_eq_0[of "rc c"] by (auto simp: bread_miss_def)
    then have "c = b" using that True by (auto simp: bread_hit_def holds_def)
    then show ?thesis using ok True by (simp add: holds_def)
  next
    case False
    then show ?thesis using that by (simp add: holds_def key_def buf)
  qed
  have h: "holds s' i b" using ok by (simp add: holds_def)
  have "cached s' (rc(b := rc b + 1)) (lk(b := Some pid))"
    unfolding cached_def
  proof (intro conjI)
    show "\<exists>xs. bio_inv s' xs" using ok(1) by blast
    show "\<forall>j<NBUF. bf_dev (bio_buf s' j) = ROOTDEV \<longrightarrow>
        bf_refcnt (bio_buf s' j) = of_nat ((rc(b := rc b + 1)) (bf_blockno (bio_buf s' j)))
        \<and> sl_locked (bf_lock (bio_buf s' j)) = ((lk(b := Some pid)) (bf_blockno (bio_buf s' j)) \<noteq> None)
        \<and> (\<forall>p. (lk(b := Some pid)) (bf_blockno (bio_buf s' j)) = Some p \<longrightarrow> sl_pid (bf_lock (bio_buf s' j)) = p)"
      using c x rcx other by (auto simp: buf cached_def holdingsleep_def)
    show "\<forall>j<NBUF. bf_dev (bio_buf s' j) \<noteq> ROOTDEV \<longrightarrow>
        bf_refcnt (bio_buf s' j) = 0 \<and> \<not> sl_locked (bf_lock (bio_buf s' j))"
      using c x by (auto simp: buf cached_def)
    show "\<forall>c. (rc(b := rc b + 1)) c \<noteq> 0 \<longrightarrow> (\<exists>j. holds s' j c)"
      using c keep h unfolding cached_def by (metis fun_upd_apply)
    show "\<forall>c. (lk(b := Some pid)) c \<noteq> None \<longrightarrow> (rc(b := rc b + 1)) c \<noteq> 0"
      using c unfolding cached_def by auto
    show "\<forall>c. (rc(b := rc b + 1)) c < 2 ^ 31" using c b(3) unfolding cached_def by auto
  qed
  moreover have "bio.more s' = bio.more s" by (simp add: s' upd_buf_def)
  ultimately show ?thesis using run h ok(7-9) keep by blast
qed

subsection \<open>Operations on a buffer that is held\<close>

lemma cached_transfer:
  assumes c: "cached s rc lk" and h: "holds s i b" and inv: "bio_inv s' xs"
    and same: "\<And>j. key s' j = key s j" "\<And>j. bf_valid (bio_buf s' j) = bf_valid (bio_buf s j)"
      "\<And>j. j \<noteq> i \<Longrightarrow> bf_refcnt (bio_buf s' j) = bf_refcnt (bio_buf s j)"
      "\<And>j. j \<noteq> i \<Longrightarrow> bf_lock (bio_buf s' j) = bf_lock (bio_buf s j)"
    and n: "bf_refcnt (bio_buf s' i) = of_nat n" "n < 2 ^ 31" "l \<noteq> None \<Longrightarrow> n \<noteq> 0"
    and l: "sl_locked (bf_lock (bio_buf s' i)) = (l \<noteq> None)"
      "\<And>p. l = Some p \<Longrightarrow> sl_pid (bf_lock (bio_buf s' i)) = p"
  shows "cached s' (rc(b := n)) (lk(b := l))" and "holds s' j c = holds s j c"
proof -
  show hs: "holds s' j c = holds s j c" for j c using same(1,2) by (simp add: holds_def)
  obtain ys where inv0: "bio_inv s ys" using cached_inv[OF c] by blast
  have dev: "bf_dev (bio_buf s' j) = bf_dev (bio_buf s j)" "bf_blockno (bio_buf s' j) = bf_blockno (bio_buf s j)" for j
    using same(1)[of j] by (simp_all add: key_def)
  have other: "bf_blockno (bio_buf s j) \<noteq> b" if "j < NBUF" "j \<noteq> i" "bf_dev (bio_buf s j) = ROOTDEV" for j
    using holds_unique[OF inv0 h, of j] that by (auto simp: key_def)
  note hd = holdsD[OF c h]
  show "cached s' (rc(b := n)) (lk(b := l))"
    unfolding cached_def
  proof (intro conjI)
    show "\<exists>xs. bio_inv s' xs" using inv by blast
    show "\<forall>j<NBUF. bf_dev (bio_buf s' j) = ROOTDEV \<longrightarrow>
        bf_refcnt (bio_buf s' j) = of_nat ((rc(b := n)) (bf_blockno (bio_buf s' j)))
        \<and> sl_locked (bf_lock (bio_buf s' j)) = ((lk(b := l)) (bf_blockno (bio_buf s' j)) \<noteq> None)
        \<and> (\<forall>p. (lk(b := l)) (bf_blockno (bio_buf s' j)) = Some p \<longrightarrow> sl_pid (bf_lock (bio_buf s' j)) = p)"
    proof (intro allI impI)
      fix j assume j: "j < NBUF" "bf_dev (bio_buf s' j) = ROOTDEV"
      show "bf_refcnt (bio_buf s' j) = of_nat ((rc(b := n)) (bf_blockno (bio_buf s' j)))
        \<and> sl_locked (bf_lock (bio_buf s' j)) = ((lk(b := l)) (bf_blockno (bio_buf s' j)) \<noteq> None)
        \<and> (\<forall>p. (lk(b := l)) (bf_blockno (bio_buf s' j)) = Some p \<longrightarrow> sl_pid (bf_lock (bio_buf s' j)) = p)"
        using c j other[of j] same(3,4)[of j] dev[of j] hd n l by (cases "j = i") (auto simp: cached_def)
    qed
    show "\<forall>j<NBUF. bf_dev (bio_buf s' j) \<noteq> ROOTDEV \<longrightarrow>
        bf_refcnt (bio_buf s' j) = 0 \<and> \<not> sl_locked (bf_lock (bio_buf s' j))"
      using c same(3,4) dev hd(5) unfolding cached_def by metis
    show "\<forall>c. (rc(b := n)) c \<noteq> 0 \<longrightarrow> (\<exists>j. holds s' j c)"
      using c h hs unfolding cached_def by (metis fun_upd_apply)
    show "\<forall>c. (lk(b := l)) c \<noteq> None \<longrightarrow> (rc(b := n)) c \<noteq> 0" using c n(3) unfolding cached_def by auto
    show "\<forall>c. (rc(b := n)) c < 2 ^ 31" using c n(2) unfolding cached_def by auto
  qed
qed

lemma cached_locked_fields:
  assumes "cached s rc lk" "holds s i b"
  shows "rc b < 2 ^ 31" "sl_locked (bf_lock (bio_buf s i)) = (lk b \<noteq> None)"
    "lk b = Some p \<Longrightarrow> sl_pid (bf_lock (bio_buf s i)) = p" "lk b \<noteq> None \<Longrightarrow> rc b \<noteq> 0"
  using assms holdsD[OF assms] unfolding cached_def by auto

lemma cached_set_data:
  assumes c: "cached s rc lk" and h: "holds s i b" and r: "rc b \<noteq> 0"
  shows "cached (upd_buf i (\<lambda>x. x\<lparr>bf_data := d\<rparr>) s) rc lk"
    and "bview (upd_buf i (\<lambda>x. x\<lparr>bf_data := d\<rparr>) s) = (bview s)(b := d)"
    and "holds (upd_buf i (\<lambda>x. x\<lparr>bf_data := d\<rparr>) s) j e = holds s j e"
proof -
  let ?s' = "upd_buf i (\<lambda>x. x\<lparr>bf_data := d\<rparr>) s"
  obtain xs where inv: "bio_inv s xs" using cached_inv[OF c] by blast
  note hd = holdsD[OF c h] and lf = cached_locked_fields[OF c h]
  have r': "bf_refcnt (bio_buf s i) \<noteq> 0" using r hd(4) lf(1) of_nat_u32_eq_0 by simp
  note ok = bset_data_ok[OF inv hd(1,2) r', of d]
  show "bview ?s' = (bview s)(b := d)" using ok(2) hd(3) by simp
  have t: "cached ?s' (rc(b := rc b)) (lk(b := lk b))" "holds ?s' j e = holds s j e"
    by (rule cached_transfer[OF c h ok(1), of "rc b" "lk b"]; use hd lf in \<open>auto simp: key_def upd_buf_def\<close>)+
  then show "cached ?s' rc lk" "holds ?s' j e = holds s j e" by simp_all
qed

lemma cached_bwrite:
  assumes c: "cached s rc lk" and h: "holds s i b" and l: "lk b = Some pid"
  shows "\<exists>s'. bwrite pid i s = Inr ((), s') \<and> cached s' rc lk \<and> bview s' = bview s
    \<and> bio_disk s' = (bio_disk s)(b := bview s b) \<and> bio_writes s' = bio_writes s @ [(b, bview s b)]
    \<and> bio.more s' = bio.more s \<and> (\<forall>j c. holds s' j c = holds s j c)"
proof -
  obtain xs where inv: "bio_inv s xs" using cached_inv[OF c] by blast
  note hd = holdsD[OF c h] and lf = cached_locked_fields[OF c h]
  obtain s' where s': "bwrite pid i s = Inr ((), s')" "bio_inv s' xs" "bview s' = bview s"
      "bio_disk s' = (bio_disk s)(b := bview s b)" "bio_writes s' = bio_writes s @ [(b, bview s b)]"
      "bio.more s' = bio.more s" and buf: "\<And>j. bio_buf s' j = bio_buf s j\<lparr>bf_disk := bf_disk (bio_buf s' j)\<rparr>"
    using bwrite_ok[OF inv hd(1,2) hd(6)[OF l]] hd(3,7) by auto
  have same: "key s' j = key s j" "bf_valid (bio_buf s' j) = bf_valid (bio_buf s j)"
    "bf_refcnt (bio_buf s' j) = bf_refcnt (bio_buf s j)" "bf_lock (bio_buf s' j) = bf_lock (bio_buf s j)" for j
    using arg_cong[OF buf[of j], of bf_dev] arg_cong[OF buf[of j], of bf_blockno] arg_cong[OF buf[of j], of bf_valid]
      arg_cong[OF buf[of j], of bf_refcnt] arg_cong[OF buf[of j], of bf_lock] by (simp_all add: key_def)
  have "cached s' (rc(b := rc b)) (lk(b := lk b))"
    by (rule cached_transfer(1)[OF c h s'(2)]) (use same hd lf in auto)
  moreover have "holds s' j e = holds s j e" for j e using same by (simp add: holds_def)
  ultimately show ?thesis using s' by (intro exI[of _ s']) simp
qed

lemma cached_bpin:
  assumes c: "cached s rc lk" and h: "holds s i b" and r: "rc b + 1 < 2 ^ 31"
  shows "cached (bpin i s) (rc(b := rc b + 1)) lk" "bview (bpin i s) = bview s"
    and "holds (bpin i s) j e = holds s j e"
proof -
  obtain xs where inv: "bio_inv s xs" using cached_inv[OF c] by blast
  note hd = holdsD[OF c h] and lf = cached_locked_fields[OF c h]
  note ok = bpin_ok[OF inv cached_room[OF c] hd(1,2)]
  have "cached (bpin i s) (rc(b := rc b + 1)) (lk(b := lk b))"
    by (rule cached_transfer(1)[OF c h ok(1)]) (use hd lf r in \<open>auto simp: key_def bpin_def upd_buf_def\<close>)
  then show "cached (bpin i s) (rc(b := rc b + 1)) lk" by simp
  show "bview (bpin i s) = bview s" by (rule ok(2))
  show "holds (bpin i s) j e = holds s j e" by (auto simp: holds_def key_def bpin_def upd_buf_def)
qed

lemma of_nat_pred: "0 < n \<Longrightarrow> (of_nat n :: u32) - 1 = of_nat (n - 1)"
  by (simp add: of_nat_diff)

text \<open>A buffer whose last reference goes must be clean.\<close>

lemma cached_bunpin:
  assumes c: "cached s rc lk" and h: "holds s i b" and r: "1 < rc b"
  shows "cached (bunpin i s) (rc(b := rc b - 1)) lk" "bview (bunpin i s) = bview s"
    and "holds (bunpin i s) j e = holds s j e"
proof -
  obtain xs where inv: "bio_inv s xs" using cached_inv[OF c] by blast
  note hd = holdsD[OF c h] and lf = cached_locked_fields[OF c h]
  have "bf_refcnt (bio_buf s i) \<noteq> 1"
    using hd(4) of_nat_u32_eq_1[OF lf(1)] r by simp
  note ok = bunpin_ok[OF inv hd(1,2) notE[OF this]]
  have "cached (bunpin i s) (rc(b := rc b - 1)) (lk(b := lk b))"
    by (rule cached_transfer(1)[OF c h ok(1)])
       (use hd lf r of_nat_pred[of "rc b"] in \<open>auto simp: key_def bunpin_def upd_buf_def\<close>)
  then show "cached (bunpin i s) (rc(b := rc b - 1)) lk" by simp
  show "bview (bunpin i s) = bview s" by (rule ok(2))
  show "holds (bunpin i s) j e = holds s j e" by (auto simp: holds_def key_def bunpin_def upd_buf_def)
qed

lemma cached_brelse:
  assumes c: "cached s rc lk" and h: "holds s i b" and l: "lk b = Some pid"
    and clean: "rc b = 1 \<Longrightarrow> bview s b = bio_disk s b"
  shows "\<exists>s'. brelse pid i s = Inr ((), s') \<and> cached s' (rc(b := rc b - 1)) (lk(b := None))
    \<and> bview s' = bview s \<and> bio_disk s' = bio_disk s \<and> bio_writes s' = bio_writes s
    \<and> bio.more s' = bio.more s \<and> (\<forall>j c. holds s' j c = holds s j c)"
proof -
  obtain xs where inv: "bio_inv s xs" using cached_inv[OF c] by blast
  note hd = holdsD[OF c h] and lf = cached_locked_fields[OF c h]
  have r: "0 < rc b" using lf(4) l by simp
  have "bf_data (bio_buf s i) = bio_disk s (bf_blockno (bio_buf s i))" if "bf_refcnt (bio_buf s i) = 1"
    using hd(3,4,7) of_nat_u32_eq_1[OF lf(1)] clean that by simp
  from brelse_ok[OF inv hd(1,2) hd(6)[OF l] this]
  obtain s' ys where s': "brelse pid i s = Inr ((), s')" "bio_inv s' ys" "bview s' = bview s"
      "bio_disk s' = bio_disk s" "bio_writes s' = bio_writes s" "bio.more s' = bio.more s"
    and f: "\<And>j. bf_lock (bio_buf s' j) = (if j = i then releasesleep (bf_lock (bio_buf s j)) else bf_lock (bio_buf s j))"
      "\<And>j. key s' j = key s j" "\<And>j. bf_valid (bio_buf s' j) = bf_valid (bio_buf s j)"
      "\<And>j. bf_refcnt (bio_buf s' j) = (if j = i then bf_refcnt (bio_buf s j) - 1 else bf_refcnt (bio_buf s j))"
    by blast
  have "cached s' (rc(b := rc b - 1)) (lk(b := None))"
    by (rule cached_transfer(1)[OF c h s'(2)])
       (use f hd lf r of_nat_pred[of "rc b"] in \<open>auto simp: releasesleep_def\<close>)
  moreover have "holds s' j e = holds s j e" for j e using f by (simp add: holds_def)
  ultimately show ?thesis using s' by blast
qed

end
