(* ===== verification/Log.thy ===== *)
theory Log
  imports Bio
begin

text \<open>
  The write-ahead log of \<^verbatim>\<open>src/kernel/log.c\<close>, on top of the buffer cache: transactions
  (\<^verbatim>\<open>begin_op\<close>, \<^verbatim>\<open>end_op\<close>, \<^verbatim>\<open>log_write\<close>), the commit and the recovery at boot. The global
  \<^verbatim>\<open>struct log\<close> is the part of the state added to that of the cache; the header block has the
  byte layout of \<^verbatim>\<open>struct logheader\<close>. The argument \<open>pid\<close> is the process that runs the code,
  for the sleep locks of the buffers. \<^verbatim>\<open>wakeup\<close> only makes waiting callers of \<^verbatim>\<open>begin_op\<close> run
  again and has no effect on this state.
\<close>

record superblock =
  sb_magic :: u32
  sb_size :: u32
  sb_nblocks :: u32
  sb_ninodes :: u32
  sb_nlog :: u32
  sb_logstart :: u32
  sb_inodestart :: u32
  sb_bmapstart :: u32

record logst = bio +
  lg_start :: u32
  lg_size :: int
  lg_outstanding :: int
  lg_committing :: bool
  lg_dev :: u32
  lg_n :: int
  lg_block :: "u32 list"

subsection \<open>The header block\<close>

definition head_n :: "block \<Rightarrow> int" where
  "head_n d = sint (of_nat (get 4 d 0) :: u32)"

definition head_block :: "block \<Rightarrow> nat \<Rightarrow> u32" where
  "head_block d i = of_nat (get 4 d (4 + 4 * i))"

fun put_blocks :: "nat \<Rightarrow> nat \<Rightarrow> u32 list \<Rightarrow> block \<Rightarrow> block" where
  "put_blocks 0 i bs d = d"
| "put_blocks (Suc n) i bs d = put_blocks n (Suc i) bs (put 4 d (4 + 4 * i) (unat (bs ! i)))"

definition put_head :: "int \<Rightarrow> u32 list \<Rightarrow> block \<Rightarrow> block" where
  "put_head n bs d = put_blocks (nat n) 0 bs (put 4 d 0 (unat (of_int n :: u32)))"

subsection \<open>Operations\<close>

definition set_data :: "nat \<Rightarrow> block \<Rightarrow> ('a bio_scheme, unit) kmon" where
  "set_data b d = kmodify (upd_buf b (\<lambda>x. x\<lparr>bf_data := d\<rparr>))"

definition get_data :: "nat \<Rightarrow> ('a bio_scheme, block) kmon" where
  "get_data b = kget (\<lambda>s. bf_data (bio_buf s b))"

definition install_one :: "int \<Rightarrow> bool \<Rightarrow> nat \<Rightarrow> ('a logst_scheme, unit) kmon" where
  "install_one pid recovering tail s =
     kbind (bread pid (lg_dev s) (lg_start s + of_nat tail + 1)) (\<lambda>lbuf.
     kbind (bread pid (lg_dev s) (lg_block s ! tail)) (\<lambda>dbuf.
     kbind (get_data lbuf) (\<lambda>d.
     kseq (set_data dbuf d)
    (kseq (bwrite pid dbuf)
    (kseq (kwhen (\<not> recovering) (kmodify (bunpin dbuf)))
    (kseq (brelse pid lbuf)
          (brelse pid dbuf))))))) s"

definition install_trans :: "int \<Rightarrow> bool \<Rightarrow> ('a logst_scheme, unit) kmon" where
  "install_trans pid recovering s = kfor [0..<nat (lg_n s)] (install_one pid recovering) s"

text \<open>\<^verbatim>\<open>log.lh.block\<close> has \<^verbatim>\<open>LOGSIZE\<close> entries; a larger count in the header overruns it.\<close>

definition read_head :: "int \<Rightarrow> ('a logst_scheme, unit) kmon" where
  "read_head pid s =
     kbind (bread pid (lg_dev s) (lg_start s)) (\<lambda>buf.
     kbind (get_data buf) (\<lambda>d.
     kseq (kmodify (\<lambda>s. s\<lparr>lg_n := head_n d\<rparr>))
    (kseq (kfor [0..<nat (head_n d)] (\<lambda>i.
             if i < LOGSIZE then kmodify (\<lambda>s. s\<lparr>lg_block := (lg_block s)[i := head_block d i]\<rparr>)
             else kfail (Fault ''log.lh.block'')))
          (brelse pid buf)))) s"

definition write_head :: "int \<Rightarrow> ('a logst_scheme, unit) kmon" where
  "write_head pid s =
     kbind (bread pid (lg_dev s) (lg_start s)) (\<lambda>buf.
     kbind (get_data buf) (\<lambda>d.
     kseq (set_data buf (put_head (lg_n s) (lg_block s) d))
    (kseq (bwrite pid buf)
          (brelse pid buf)))) s"

definition recover_from_log :: "int \<Rightarrow> ('a logst_scheme, unit) kmon" where
  "recover_from_log pid =
     kseq (read_head pid)
    (kseq (install_trans pid True)
    (kseq (kmodify (\<lambda>s. s\<lparr>lg_n := 0\<rparr>))
          (write_head pid)))"

text \<open>
  \<^verbatim>\<open>sizeof(struct logheader)\<close> is \<^verbatim>\<open>4 + 4 * LOGSIZE\<close>.
\<close>

definition initlog :: "int \<Rightarrow> u32 \<Rightarrow> superblock \<Rightarrow> ('a logst_scheme, unit) kmon" where
  "initlog pid dev sb =
     (if 4 + 4 * LOGSIZE \<ge> BSIZE then panic ''initlog: too big logheader''
      else kseq (kmodify (\<lambda>s. s\<lparr>lg_start := sb_logstart sb, lg_size := sint (sb_nlog sb), lg_dev := dev\<rparr>))
                (recover_from_log pid))"

definition begin_op :: "('a logst_scheme, unit) kmon" where
  "begin_op s =
     (if lg_committing s then kfail (Sleep ''log'') s
      else if lg_n s + (lg_outstanding s + 1) * int MAXOPBLOCKS > int LOGSIZE
      then kfail (Sleep ''log'') s
      else Inr ((), s\<lparr>lg_outstanding := lg_outstanding s + 1\<rparr>))"

definition write_log_one :: "int \<Rightarrow> nat \<Rightarrow> ('a logst_scheme, unit) kmon" where
  "write_log_one pid tail s =
     kbind (bread pid (lg_dev s) (lg_start s + of_nat tail + 1)) (\<lambda>to.
     kbind (bread pid (lg_dev s) (lg_block s ! tail)) (\<lambda>from.
     kbind (get_data from) (\<lambda>d.
     kseq (set_data to d)
    (kseq (bwrite pid to)
    (kseq (brelse pid from)
          (brelse pid to)))))) s"

definition write_log :: "int \<Rightarrow> ('a logst_scheme, unit) kmon" where
  "write_log pid s = kfor [0..<nat (lg_n s)] (write_log_one pid) s"

definition commit :: "int \<Rightarrow> ('a logst_scheme, unit) kmon" where
  "commit pid s =
     (if lg_n s > 0 then
        kseq (write_log pid)
       (kseq (write_head pid)
       (kseq (install_trans pid False)
       (kseq (kmodify (\<lambda>s. s\<lparr>lg_n := 0\<rparr>))
             (write_head pid)))) s
      else Inr ((), s))"

definition end_op :: "int \<Rightarrow> ('a logst_scheme, unit) kmon" where
  "end_op pid s0 =
     (let s = s0\<lparr>lg_outstanding := lg_outstanding s0 - 1\<rparr>
      in if lg_committing s then panic ''log.committing'' s
         else if lg_outstanding s = 0 then
           kseq (kmodify (\<lambda>s. s\<lparr>lg_committing := True\<rparr>))
          (kseq (commit pid)
                (kmodify (\<lambda>s. s\<lparr>lg_committing := False\<rparr>))) s
         else Inr ((), s))"

text \<open>The absorption loop: the first logged entry for the block, or \<^verbatim>\<open>log.lh.n\<close>.\<close>

definition log_slot :: "u32 \<Rightarrow> int \<Rightarrow> u32 list \<Rightarrow> nat" where
  "log_slot b n bs = (case find_slot (\<lambda>x. x = b) (take (nat n) bs) of Some i \<Rightarrow> i | None \<Rightarrow> nat n)"

definition log_write :: "nat \<Rightarrow> ('a logst_scheme, unit) kmon" where
  "log_write b s =
     (if lg_n s \<ge> int LOGSIZE \<or> lg_n s \<ge> lg_size s - 1 then panic ''too big a transaction'' s
      else if lg_outstanding s < 1 then panic ''log_write outside of trans'' s
      else
        let blockno = bf_blockno (bio_buf s b);
            i = log_slot blockno (lg_n s) (lg_block s);
            s1 = s\<lparr>lg_block := (lg_block s)[i := blockno]\<rparr>
        in if int i = lg_n s
           then Inr ((), (bpin b s1)\<lparr>lg_n := lg_n s1 + 1\<rparr>)
           else Inr ((), s1))"

subsection \<open>The header block\<close>

lemma length_put_blocks [simp]:
  "4 + 4 * (i + n) \<le> length d \<Longrightarrow> length (put_blocks n i bs d) = length d"
  by (induction n i bs d rule: put_blocks.induct) auto

lemma get_put_blocks_before:
  assumes "4 + 4 * (i + n) \<le> length d" "off + k \<le> 4 + 4 * i"
  shows "get k (put_blocks n i bs d) off = get k d off"
  using assms by (induction n i bs d rule: put_blocks.induct) (auto simp: get_put_other)

lemma get_put_blocks:
  assumes "4 + 4 * (i + n) \<le> length d" "i \<le> j" "j < i + n"
  shows "get 4 (put_blocks n i bs d) (4 + 4 * j) = unat (bs ! j)"
  using assms
proof (induction n i bs d rule: put_blocks.induct)
  case (1 i bs d)
  then show ?case by simp
next
  case (2 n i bs d)
  show ?case
  proof (cases "j = i")
    case True
    have "get 4 (put 4 d (4 + 4 * i) (unat (bs ! i))) (4 + 4 * i) = unat (bs ! i)"
      using "2.prems" unat_u32[of "bs ! i"] by (intro get_put_same) auto
    then show ?thesis using True "2.prems" by (simp add: get_put_blocks_before)
  next
    case False
    then show ?thesis using "2.IH" "2.prems" by simp
  qed
qed

lemma put_head_n:
  assumes "length d = BSIZE" "0 \<le> n" "n \<le> int LOGSIZE"
  shows "head_n (put_head n bs d) = n" "length (put_head n bs d) = BSIZE"
proof -
  have "unat (of_int n :: u32) < 256 ^ 4" using unat_u32[of "of_int n"] by simp
  then have "get 4 (put_head n bs d) 0 = unat (of_int n :: u32)"
    using assms by (simp add: put_head_def get_put_blocks_before get_put_same)
  then have "head_n (put_head n bs d) = sint (of_int n :: u32)" by (simp add: head_n_def)
  also have "\<dots> = n" using assms by (simp add: signed_of_int signed_take_bit_int_eq_self)
  finally show "head_n (put_head n bs d) = n" .
  show "length (put_head n bs d) = BSIZE" using assms by (simp add: put_head_def)
qed

lemma put_head_block:
  assumes "length d = BSIZE" "0 \<le> n" "n \<le> int LOGSIZE" "i < nat n"
  shows "head_block (put_head n bs d) i = bs ! i"
  using assms get_put_blocks[of 0 "nat n" "put 4 d 0 (unat (of_int n :: u32))" i bs]
  by (simp add: head_block_def put_head_def)

subsection \<open>Crashes between the writes of a commit\<close>

text \<open>The disk after a sequence of block writes.\<close>

definition wr :: "(u32 \<Rightarrow> block) \<Rightarrow> (u32 \<times> block) list \<Rightarrow> u32 \<Rightarrow> block" where
  "wr D ws = foldl (\<lambda>D (b, d). D(b := d)) D ws"

text \<open>What recovery makes of a disk, and the writes of a commit, in order.\<close>

definition recover_disk :: "u32 \<Rightarrow> (u32 \<Rightarrow> block) \<Rightarrow> u32 \<Rightarrow> block" where
  "recover_disk start D =
     (let d = D start;
          D1 = foldl (\<lambda>D' i. D'(head_block d i := D' (start + of_nat i + 1))) D [0..<nat (head_n d)]
      in D1(start := put_head 0 [] (D1 start)))"

definition log_writes :: "u32 \<Rightarrow> (u32 \<Rightarrow> block) \<Rightarrow> u32 list \<Rightarrow> (u32 \<times> block) list" where
  "log_writes start V bs = map (\<lambda>i. (start + of_nat i + 1, V (bs ! i))) [0..<length bs]"

definition home_writes :: "(u32 \<Rightarrow> block) \<Rightarrow> u32 list \<Rightarrow> (u32 \<times> block) list" where
  "home_writes V bs = map (\<lambda>i. (bs ! i, V (bs ! i))) [0..<length bs]"

definition commit_writes :: "u32 \<Rightarrow> (u32 \<Rightarrow> block) \<Rightarrow> u32 list \<Rightarrow> block \<Rightarrow> (u32 \<times> block) list" where
  "commit_writes start V bs hd0 =
     log_writes start V bs @ [(start, put_head (int (length bs)) bs hd0)]
     @ home_writes V bs @ [(start, put_head 0 bs (put_head (int (length bs)) bs hd0))]"

definition log_area :: "u32 \<Rightarrow> u32 set" where
  "log_area start = (\<lambda>i. start + of_nat i) ` {..LOGSIZE}"

definition log_ok :: "u32 \<Rightarrow> u32 list \<Rightarrow> bool" where
  "log_ok start bs \<longleftrightarrow> distinct bs \<and> length bs \<le> LOGSIZE \<and> set bs \<inter> log_area start = {}"

lemma wr_Nil [simp]: "wr D [] = D"
  by (simp add: wr_def)

lemma wr_append: "wr D (ws @ vs) = wr (wr D ws) vs"
  by (simp add: wr_def)

lemma wr_Cons [simp]: "wr D ((b, d) # ws) = wr (D(b := d)) ws"
  by (simp add: wr_def)

lemma wr_outside: "b \<notin> fst ` set ws \<Longrightarrow> wr D ws b = D b"
  by (induction ws arbitrary: D) auto

lemma wr_same:
  assumes "(b, d) \<in> set ws" "\<And>d'. (b, d') \<in> set ws \<Longrightarrow> d' = d"
  shows "wr D ws b = d"
  using assms
proof (induction ws arbitrary: D rule: rev_induct)
  case (snoc w ws)
  obtain c e where w: "w = (c, e)" by (cases w)
  show ?case
  proof (cases "c = b")
    case True
    have "e = d" by (rule snoc.prems(2)) (simp add: w True)
    with True w show ?thesis by (simp add: wr_append)
  next
    case False
    have "wr D ws b = d"
    proof (rule snoc.IH)
      show "(b, d) \<in> set ws" using snoc.prems(1) False w by simp
      show "d' = d" if "(b, d') \<in> set ws" for d' by (rule snoc.prems(2)) (simp add: that)
    qed
    with False w show ?thesis by (simp add: wr_append)
  qed
qed simp

lemma log_slot_inj:
  assumes "i \<le> LOGSIZE" "j \<le> LOGSIZE" "start + of_nat i = start + (of_nat j :: u32)"
  shows "i = j"
proof -
  have "(of_nat i :: u32) = of_nat j" using assms(3) by simp
  then have "unat (of_nat i :: u32) = unat (of_nat j :: u32)" by simp
  with assms(1,2) show ?thesis by (simp add: unat_of_nat)
qed

lemma log_slot_area: "i < LOGSIZE \<Longrightarrow> start + of_nat i + 1 \<in> log_area start"
  by (auto simp: log_area_def intro!: image_eqI[of _ _ "Suc i"])

lemma header_area: "start \<in> log_area start"
  by (auto simp: log_area_def intro!: image_eqI[of _ _ 0])

lemma log_slots_differ: "i < LOGSIZE \<Longrightarrow> j < LOGSIZE \<Longrightarrow> i \<noteq> j \<Longrightarrow> start + of_nat i + 1 \<noteq> start + of_nat j + (1 :: u32)"
  using log_slot_inj[of "Suc i" "Suc j" start] by (auto simp: ac_simps)

lemma header_not_log_slot: "i < LOGSIZE \<Longrightarrow> start + of_nat i + 1 \<noteq> (start :: u32)"
  using log_slot_inj[of "Suc i" 0 start] by (auto simp: ac_simps)

lemma log_writes_area:
  assumes "length bs \<le> LOGSIZE" "b \<in> fst ` set (log_writes start V bs)"
  shows "b \<in> log_area start" "b \<noteq> start"
proof -
  obtain i where "i < length bs" "b = start + of_nat i + 1"
    using assms(2) unfolding log_writes_def by auto
  then have i: "i < LOGSIZE" and b: "b = start + of_nat i + 1" using assms(1) by auto
  show "b \<in> log_area start" unfolding b by (rule log_slot_area[OF i])
  show "b \<noteq> start" unfolding b by (rule header_not_log_slot[OF i])
qed

lemma wr_log_writes:
  assumes "length bs \<le> LOGSIZE" "i < length bs"
  shows "wr D (log_writes start V bs) (start + of_nat i + 1) = V (bs ! i)"
proof (rule wr_same)
  show "(start + of_nat i + 1, V (bs ! i)) \<in> set (log_writes start V bs)"
    using assms(2) by (auto simp: log_writes_def)
  fix d' assume "(start + of_nat i + 1, d') \<in> set (log_writes start V bs)"
  then obtain j where j: "j < length bs" "start + of_nat i + 1 = start + of_nat j + (1 :: u32)" "d' = V (bs ! j)"
    unfolding log_writes_def by auto
  then have "i = j" using log_slots_differ[of i j start] assms by force
  with j show "d' = V (bs ! i)" by simp
qed

lemma home_writes_map: "home_writes V bs = map (\<lambda>b. (b, V b)) bs"
  by (rule nth_equalityI) (simp_all add: home_writes_def)

lemma home_writes_set: "fst ` set (home_writes V bs) = set bs"
  by (auto simp: home_writes_map image_image)

lemma wr_home_writes:
  "wr D (home_writes V bs) b = (if b \<in> set bs then V b else D b)"
proof (cases "b \<in> set bs")
  case True
  then have "wr D (home_writes V bs) b = V b"
    by (intro wr_same) (auto simp: home_writes_map)
  with True show ?thesis by simp
qed (simp add: wr_outside home_writes_set)

lemma wr_home_prefix:
  "b \<notin> set bs \<Longrightarrow> wr D (take k (home_writes V bs)) b = D b"
  by (rule wr_outside) (use home_writes_set[of V bs] in \<open>auto dest: in_set_takeD\<close>)

lemma fold_install:
  assumes ok: "log_ok start bs" and m: "m \<le> length bs" and hb: "\<And>i. i < m \<Longrightarrow> hb i = bs ! i"
  shows "(\<forall>i<m. foldl (\<lambda>D' i. D'(hb i := D' (start + of_nat i + 1))) D [0..<m] (bs ! i)
            = D (start + of_nat i + 1))
    \<and> (\<forall>b. b \<notin> set (take m bs) \<longrightarrow>
          foldl (\<lambda>D' i. D'(hb i := D' (start + of_nat i + 1))) D [0..<m] b = D b)"
  using m hb
proof (induction m)
  case 0
  then show ?case by simp
next
  case (Suc m)
  have "start + of_nat m + 1 \<in> log_area start" using ok Suc.prems(1) by (intro log_slot_area) (auto simp: log_ok_def)
  then have out: "start + of_nat m + 1 \<notin> set (take m bs)" using ok by (auto simp: log_ok_def dest: in_set_takeD)
  have other: "bs ! i \<noteq> bs ! m" if "i < m" for i
    using ok Suc.prems(1) that by (auto simp: log_ok_def nth_eq_iff_index_eq)
  have t: "take (Suc m) bs = take m bs @ [bs ! m]" using Suc.prems(1) by (simp add: take_Suc_conv_app_nth)
  show ?case using Suc.IH Suc.prems out other by (auto simp: t less_Suc_eq)
qed

lemma recover_disk_empty:
  assumes "head_n (D start) \<le> 0" "b \<noteq> start"
  shows "recover_disk start D b = D b"
  using assms by (simp add: recover_disk_def Let_def)

lemma recover_disk_logged:
  assumes ok: "log_ok start bs" and n: "head_n (D start) = int (length bs)"
    and hb: "\<And>i. i < length bs \<Longrightarrow> head_block (D start) i = bs ! i"
    and b: "b \<noteq> start"
  shows "b \<notin> set bs \<Longrightarrow> recover_disk start D b = D b"
    and "i < length bs \<Longrightarrow> b = bs ! i \<Longrightarrow> recover_disk start D b = D (start + of_nat i + 1)"
  using fold_install[OF ok order.refl hb, of D] b n by (simp_all add: recover_disk_def Let_def)

lemma log_okD:
  assumes "log_ok start bs"
  shows "length bs \<le> LOGSIZE" "start \<notin> set bs" "i < length bs \<Longrightarrow> start + of_nat i + 1 \<notin> set bs"
proof -
  show l: "length bs \<le> LOGSIZE" using assms by (simp add: log_ok_def)
  show "start \<notin> set bs" using assms header_area[of start] by (auto simp: log_ok_def)
  show "start + of_nat i + 1 \<notin> set bs" if "i < length bs"
    using assms log_slot_area[of i start] that l by (auto simp: log_ok_def)
qed

lemma crash_disk:
  assumes ok: "log_ok start bs" and hd: "length (D0 start) = BSIZE" "head_n (D0 start) = 0"
    and b: "b \<notin> log_area start"
  shows "recover_disk start (wr D0 (take k (commit_writes start V bs (D0 start)))) b =
    (if length bs < k \<and> b \<in> set bs then V b else D0 b)"
proof -
  let ?n = "length bs" and ?LW = "log_writes start V bs" and ?HW = "home_writes V bs"
  let ?H = "put_head (int ?n) bs (D0 start)"
  let ?Hclr = "put_head 0 bs ?H"
  define D2 where "D2 = (wr D0 ?LW)(start := ?H)"
  note okd = log_okD[OF ok]
  have lens: "length ?LW = ?n" "length ?HW = ?n" by (simp_all add: log_writes_def home_writes_def)
  have bs: "b \<noteq> start" using b header_area by blast
  have LW: "x \<notin> fst ` set (take j ?LW)" if "x \<notin> log_area start \<or> x = start" for x j
    using log_writes_area[OF okd(1), of x start V] that by (auto dest: in_set_takeD)
  have D2b: "D2 b = D0 b" using wr_outside[OF LW[of b ?n]] b bs by (simp add: D2_def lens)
  have H: "head_n ?H = int ?n" "length ?H = BSIZE" "\<And>i. i < ?n \<Longrightarrow> head_block ?H i = bs ! i"
    using put_head_n[of "D0 start" "int ?n" bs] put_head_block[of "D0 start" "int ?n" _ bs] hd okd(1)
    by auto
  consider (before) "k \<le> ?n" | (during) j where "k = ?n + Suc j" "j \<le> ?n" | (after) j where "k = ?n + Suc j" "j > ?n"
    by (metis less_eq_Suc_le not_le le_Suc_ex add_Suc_right add_Suc)
  then show ?thesis
  proof cases
    case before
    then have "take k (commit_writes start V bs (D0 start)) = take k ?LW"
      by (simp add: commit_writes_def lens)
    then show ?thesis
      using before bs b wr_outside[OF LW] hd by (simp add: recover_disk_empty)
  next
    case (during j)
    let ?D = "wr D2 (take j ?HW)"
    have W: "wr D0 (take k (commit_writes start V bs (D0 start))) = ?D"
      using during by (simp add: commit_writes_def lens wr_append D2_def)
    have Dout: "?D x = D2 x" if "x \<notin> set bs" for x by (rule wr_home_prefix[OF that])
    have Ds: "?D start = ?H" using Dout[OF okd(2)] by (simp add: D2_def)
    have slot: "?D (start + of_nat i + 1) = V (bs ! i)" if "i < ?n" for i
      using Dout[OF okd(3)[OF that]] wr_log_writes[OF okd(1) that] header_not_log_slot[of i start] that okd(1)
      by (simp add: D2_def)
    note rec = recover_disk_logged[OF ok, of ?D, unfolded Ds, OF H(1) H(3) bs]
    show ?thesis unfolding W
    proof (cases "b \<in> set bs")
      case True
      then obtain i where "i < ?n" "b = bs ! i" by (auto simp: in_set_conv_nth)
      then have "recover_disk start ?D b = V b" using rec(2) slot by simp
      then show "recover_disk start ?D b = (if ?n < k \<and> b \<in> set bs then V b else D0 b)"
        using True during by simp
    next
      case False
      then show "recover_disk start ?D b = (if ?n < k \<and> b \<in> set bs then V b else D0 b)"
        using rec(1) Dout D2b by simp
    qed
  next
    case (after j)
    let ?D = "(wr D2 ?HW)(start := ?Hclr)"
    have W: "wr D0 (take k (commit_writes start V bs (D0 start))) = ?D"
      using after by (simp add: commit_writes_def lens wr_append D2_def)
    have "head_n ?Hclr = 0" using put_head_n[OF H(2), of 0 bs] by simp
    then show ?thesis unfolding W using after bs D2b by (simp add: recover_disk_empty wr_home_writes)
  qed
qed

end
