(* ===== verification/Recovery.thy ===== *)
theory Recovery
  imports Cache Log
begin

text \<open>
  Correctness of the log: the code of \<^verbatim>\<open>commit\<close> and \<^verbatim>\<open>recover_from_log\<close> in
  \<^verbatim>\<open>src/kernel/log.c\<close> performs exactly the sequence of disk writes that the crash analysis of the
  log assumes. The state between two steps of the log is \<open>quiet\<close>: no buffer is locked, and the
  referenced buffers are those pinned for the open transaction.
\<close>

subsection \<open>Quiet states\<close>

definition pinned :: "u32 set \<Rightarrow> u32 \<Rightarrow> nat" where
  "pinned P b = (if b \<in> P then 1 else 0)"

definition quiet :: "'a bio_scheme \<Rightarrow> u32 set \<Rightarrow> bool" where
  "quiet s P = cached s (pinned P) (\<lambda>_. None)"

lemma pinned_set [simp]: "{b. pinned P b \<noteq> 0} = P" "{b. 0 < pinned P b} = P"
  by (auto simp: pinned_def)

lemma cached_clean:
  assumes "cached s rc lk" "rc b = 0"
  shows "bview s b = bio_disk s b"
proof (cases "\<exists>i. holds s i b")
  case True
  then obtain i where h: "holds s i b" by blast
  obtain xs where "bio_inv s xs" using cached_inv[OF assms(1)] by blast
  with holdsD[OF assms(1) h] assms(2) show ?thesis by (auto simp: bio_inv_def)
next
  case False
  then show ?thesis by (intro bview_uncached) (auto simp: holds_def)
qed

lemma quiet_clean: "quiet s P \<Longrightarrow> b \<notin> P \<Longrightarrow> bview s b = bio_disk s b"
  using cached_clean[of s "pinned P" "\<lambda>_. None" b] by (simp add: quiet_def pinned_def)

lemma lg_more:
  assumes "bio.more s' = bio.more (s :: 'a logst_scheme)"
  shows "lg_start s' = lg_start s" "lg_size s' = lg_size s" "lg_outstanding s' = lg_outstanding s"
    "lg_committing s' = lg_committing s" "lg_dev s' = lg_dev s" "lg_n s' = lg_n s" "lg_block s' = lg_block s"
  using assms by (cases s; cases s'; simp)+

lemma same_cache:
  assumes "bio_buf s' = bio_buf s" "bio_disk s' = bio_disk s"
  shows "cached s' rc lk = cached s rc lk" "bview s' = bview s" "quiet s' P = quiet s P"
proof -
  show "bview s' = bview s" using assms by (simp add: bview_def[abs_def] key_def cong: option.case_cong)
  show "cached s' rc lk = cached s rc lk" for rc lk
    using assms by (simp add: cached_def bio_inv_def lru_def key_def nxf_def[abs_def] pvf_def[abs_def] holds_def)
  then show "quiet s' P = quiet s P" by (simp add: quiet_def)
qed

lemma quiet_lg_update [simp]:
  "quiet (s\<lparr>lg_n := n\<rparr>) P = quiet s P" "quiet (s\<lparr>lg_block := bl\<rparr>) P = quiet s P"
  "bview (s\<lparr>lg_n := n\<rparr>) = bview s" "bview (s\<lparr>lg_block := bl\<rparr>) = bview s"
  by (rule same_cache; simp)+

text \<open>The effect of one block write \<open>b := d\<close> of the log code.\<close>

definition wrote :: "'a bio_scheme \<Rightarrow> 'a bio_scheme \<Rightarrow> u32 \<Rightarrow> block \<Rightarrow> bool" where
  "wrote s s' b d \<longleftrightarrow> bview s' = (bview s)(b := d) \<and> bio_disk s' = (bio_disk s)(b := d)
     \<and> bio_writes s' = bio_writes s @ [(b, d)] \<and> bio.more s' = bio.more s"

subsection \<open>One block\<close>

text \<open>The step \<open>s'\<close> has the contents, the disk and the other state of \<open>s\<close>.\<close>

definition silent :: "'a bio_scheme \<Rightarrow> 'a bio_scheme \<Rightarrow> bool" where
  "silent s s' \<longleftrightarrow> bview s' = bview s \<and> bio_disk s' = bio_disk s
     \<and> bio_writes s' = bio_writes s \<and> bio.more s' = bio.more s"

lemma silent_trans: "silent s s' \<Longrightarrow> silent s' s'' \<Longrightarrow> silent s s''"
  by (simp add: silent_def)

lemma wrote_silent:
  "silent s s' \<Longrightarrow> wrote s' s'' b d \<Longrightarrow> wrote s s'' b d"
  "wrote s s' b d \<Longrightarrow> silent s' s'' \<Longrightarrow> wrote s s'' b d"
  by (simp_all add: silent_def wrote_def)

abbreviation (input) no_locks :: "u32 \<Rightarrow> int option" where "no_locks \<equiv> \<lambda>_. None"

lemma read_one:
  assumes q: "quiet s P" and a: "a \<notin> P" and P: "card P < NBUF"
  shows "\<exists>i s'. bread pid ROOTDEV a s = Inr (i, s') \<and> silent s s' \<and> holds s' i a
    \<and> cached s' ((pinned P)(a := 1)) (no_locks(a := Some pid))"
proof -
  have "pinned P a = 0" using a by (simp add: pinned_def)
  then show ?thesis
    using cached_bread[of s "pinned P" no_locks a pid] q P by (auto simp: quiet_def silent_def)
qed

lemma read_two:
  assumes q: "quiet s P" and a: "a \<notin> P" and ab: "a \<noteq> b" and P: "Suc (card P) < NBUF \<or> b \<in> P \<and> card P < NBUF"
  shows "\<exists>i s1 j s2. bread pid ROOTDEV a s = Inr (i, s1) \<and> bread pid ROOTDEV b s1 = Inr (j, s2)
    \<and> silent s s2 \<and> holds s2 i a \<and> holds s2 j b
    \<and> cached s2 ((pinned P)(a := 1, b := Suc (pinned P b))) (no_locks(a := Some pid, b := Some pid))"
proof -
  obtain i s1 where r1: "bread pid ROOTDEV a s = Inr (i, s1)" "silent s s1" "holds s1 i a"
      "cached s1 ((pinned P)(a := 1)) (no_locks(a := Some pid))"
    using read_one[OF q a, of pid] P by auto
  define rc lk where "rc = (pinned P)(a := 1)" and "lk = no_locks(a := Some pid)"
  have c: "cached s1 rc lk" using r1(4) by (simp add: rc_def lk_def)
  have fin: "{c. rc c \<noteq> 0} = insert a P" by (auto simp: pinned_def rc_def)
  have rcb: "rc b = pinned P b" "rc a \<noteq> 0" "rc b + 1 < 2 ^ 31" using ab by (auto simp: rc_def pinned_def)
  have card: "rc b \<noteq> 0 \<or> card {c. rc c \<noteq> 0} < NBUF"
    using P a unfolding fin rcb(1) by (auto simp: pinned_def)
  have free: "lk b = None" using ab by (simp add: lk_def)
  obtain j s2 where r2: "bread pid ROOTDEV b s1 = Inr (j, s2)" "silent s1 s2" "holds s2 j b" "holds s2 i a"
      "cached s2 (rc(b := rc b + 1)) (lk(b := Some pid))"
    using cached_bread[OF c free card rcb(3), of pid] r1(3) rcb(2) unfolding silent_def by blast
  have "cached s2 ((pinned P)(a := 1, b := Suc (pinned P b))) (no_locks(a := Some pid, b := Some pid))"
    using r2(5) rcb(1) by (simp add: rc_def lk_def)
  with r2(1-4) r1 silent_trans show ?thesis by blast
qed

lemma store_block:
  assumes c: "cached s rc lk" and h: "holds s i b" and l: "lk b = Some pid"
  shows "\<exists>s'. kseq (set_data i d) (bwrite pid i) s = Inr ((), s') \<and> cached s' rc lk \<and> wrote s s' b d
    \<and> (\<forall>j c. holds s' j c = holds s j c)"
proof -
  have r: "rc b \<noteq> 0" using c l by (auto simp: cached_def)
  let ?s1 = "upd_buf i (\<lambda>x. x\<lparr>bf_data := d\<rparr>) s"
  note sd = cached_set_data[OF c h r, of d]
  have h1: "holds ?s1 i b" using sd(3) h by simp
  obtain s' where "bwrite pid i ?s1 = Inr ((), s')" "cached s' rc lk" "bview s' = bview ?s1"
      "bio_disk s' = (bio_disk ?s1)(b := bview ?s1 b)" "bio_writes s' = bio_writes ?s1 @ [(b, bview ?s1 b)]"
      "bio.more s' = bio.more ?s1" "\<forall>j c. holds s' j c = holds ?s1 j c"
    using cached_bwrite[OF sd(1) h1 l] by blast
  then show ?thesis using sd(2,3)
    by (intro exI[of _ s']) (simp add: set_data_def kmon_defs wrote_def, simp add: upd_buf_def)
qed

lemma release:
  assumes "cached s rc lk" "holds s i b" "lk b = Some pid" "rc b = 1 \<Longrightarrow> bview s b = bio_disk s b"
  shows "\<exists>s'. brelse pid i s = Inr ((), s') \<and> cached s' (rc(b := rc b - 1)) (lk(b := None)) \<and> silent s s'
    \<and> (\<forall>j c. holds s' j c = holds s j c)"
  using cached_brelse[OF assms] by (auto simp: silent_def)

text \<open>Releasing the log block \<open>a\<close> and the home block \<open>b\<close>, in either order.\<close>

lemma release_two:
  assumes c: "cached s ((pinned P)(a := 1, b := Suc (pinned P b))) (no_locks(a := Some pid, b := Some pid))"
    and h: "holds s i a" "holds s j b" and ab: "a \<noteq> b" "a \<notin> P"
    and clean: "bview s a = bio_disk s a" "b \<notin> P \<Longrightarrow> bview s b = bio_disk s b"
  shows "\<exists>s1 s2. brelse pid j s = Inr ((), s1) \<and> brelse pid i s1 = Inr ((), s2) \<and> quiet s2 P \<and> silent s s2"
    and "\<exists>s1 s2. brelse pid i s = Inr ((), s1) \<and> brelse pid j s1 = Inr ((), s2) \<and> quiet s2 P \<and> silent s s2"
proof -
  have e: "(pinned P)(a := 1, b := Suc (pinned P b), b := pinned P b) = (pinned P)(a := 1)"
      "(pinned P)(a := 1, a := 0) = pinned P"
      "(pinned P)(a := 1, b := Suc (pinned P b), a := 0) = (pinned P)(b := Suc (pinned P b))"
      "(pinned P)(b := Suc (pinned P b), b := pinned P b) = pinned P"
      "no_locks(a := Some pid, b := Some pid, b := None) = no_locks(a := Some pid)"
      "no_locks(a := Some pid, b := Some pid, a := None) = no_locks(b := Some pid)"
      "no_locks(a := Some pid, a := None) = no_locks" "no_locks(b := Some pid, b := None) = no_locks"
    using ab by (auto simp: fun_eq_iff pinned_def)
  have p: "pinned P b = 0 \<Longrightarrow> b \<notin> P" by (auto simp: pinned_def split: if_splits)
  obtain s1 where s1: "brelse pid j s = Inr ((), s1)" "cached s1 ((pinned P)(a := 1)) (no_locks(a := Some pid))"
      "silent s s1" "holds s1 i a"
    using release[OF c h(2), of pid] e ab h clean(2) p by auto
  obtain s2 where "brelse pid i s1 = Inr ((), s2)" "quiet s2 P" "silent s1 s2"
    using release[OF s1(2,4), of pid] e clean(1) s1(3) by (auto simp: quiet_def silent_def)
  with s1 silent_trans
  show "\<exists>s1 s2. brelse pid j s = Inr ((), s1) \<and> brelse pid i s1 = Inr ((), s2) \<and> quiet s2 P \<and> silent s s2" by blast
  obtain t1 where t1: "brelse pid i s = Inr ((), t1)" "cached t1 ((pinned P)(b := Suc (pinned P b))) (no_locks(b := Some pid))"
      "silent s t1" "holds t1 j b"
    using release[OF c h(1), of pid] e ab h clean(1) by auto
  obtain t2 where "brelse pid j t1 = Inr ((), t2)" "quiet t2 P" "silent t1 t2"
    using release[OF t1(2,4), of pid] e clean(2) p t1(3) by (auto simp: quiet_def silent_def)
  with t1 silent_trans
  show "\<exists>s1 s2. brelse pid i s = Inr ((), s1) \<and> brelse pid j s1 = Inr ((), s2) \<and> quiet s2 P \<and> silent s s2" by blast
qed

lemma write_log_one_ok:
  assumes q: "quiet s P" and a: "lg_start s + of_nat tail + 1 \<notin> P" and b: "lg_block s ! tail \<in> P"
    and P: "card P < NBUF" and dev: "lg_dev s = ROOTDEV"
  shows "\<exists>s'. write_log_one pid tail s = Inr ((), s') \<and> quiet s' P
    \<and> wrote s s' (lg_start s + of_nat tail + 1) (bview s (lg_block s ! tail))"
proof -
  let ?a = "lg_start s + of_nat tail + 1" and ?b = "lg_block s ! tail"
  have ab: "?a \<noteq> ?b" using a b by metis
  obtain i s1 j s2 where r: "bread pid ROOTDEV ?a s = Inr (i, s1)" "bread pid ROOTDEV ?b s1 = Inr (j, s2)"
      "silent s s2" "holds s2 i ?a" "holds s2 j ?b"
      "cached s2 ((pinned P)(?a := 1, ?b := Suc (pinned P ?b))) (no_locks(?a := Some pid, ?b := Some pid))"
    using read_two[OF q a ab] b P by blast
  have d: "bf_data (bio_buf s2 j) = bview s ?b" using holdsD(7)[OF r(6,5)] r(3) by (simp add: silent_def)
  obtain s3 where w: "kseq (set_data i (bview s ?b)) (bwrite pid i) s2 = Inr ((), s3)"
      "cached s3 ((pinned P)(?a := 1, ?b := Suc (pinned P ?b))) (no_locks(?a := Some pid, ?b := Some pid))"
      "wrote s2 s3 ?a (bview s ?b)" "holds s3 i ?a" "holds s3 j ?b"
  proof -
    have "(no_locks(?a := Some pid, ?b := Some pid)) ?a = Some pid" using ab by simp
    from store_block[OF r(6,4) this, of "bview s ?b"] r(4,5) that show ?thesis by blast
  qed
  obtain s4 s5 where e: "brelse pid j s3 = Inr ((), s4)" "brelse pid i s4 = Inr ((), s5)" "quiet s5 P" "silent s3 s5"
    using release_two(1)[OF w(2,4,5) ab a] w(3) b unfolding wrote_def by auto
  have "write_log_one pid tail s = Inr ((), s5)"
    using r(1,2) w(1) e(1,2) d dev by (auto simp: write_log_one_def get_data_def)
  with e(3) wrote_silent r(3) w(3) e(4) show ?thesis by blast
qed

text \<open>
  Installing a block. During a commit the home block is pinned and is unpinned here; during
  recovery nothing is pinned.
\<close>

lemma install_one_ok:
  assumes q: "quiet s P" and a: "lg_start s + of_nat tail + 1 \<notin> P"
    and ab: "lg_start s + of_nat tail + 1 \<noteq> lg_block s ! tail"
    and P: "if recovering then P = {} else lg_block s ! tail \<in> P \<and> card P < NBUF"
    and dev: "lg_dev s = ROOTDEV"
  shows "\<exists>s'. install_one pid recovering tail s = Inr ((), s') \<and> quiet s' (P - {lg_block s ! tail})
    \<and> wrote s s' (lg_block s ! tail) (bview s (lg_start s + of_nat tail + 1))"
proof -
  let ?a = "lg_start s + of_nat tail + 1" and ?b = "lg_block s ! tail"
  let ?d = "bview s ?a" and ?Q = "P - {?b}"
  let ?lk = "no_locks(?a := Some pid, ?b := Some pid)"
  have clean_a: "bview s ?a = bio_disk s ?a" by (rule quiet_clean[OF q a])
  have card: "Suc (card P) < NBUF \<or> ?b \<in> P \<and> card P < NBUF" using P by (cases recovering) auto
  obtain i s1 j s2 where r: "bread pid ROOTDEV ?a s = Inr (i, s1)" "bread pid ROOTDEV ?b s1 = Inr (j, s2)"
      "silent s s2" "holds s2 i ?a" "holds s2 j ?b"
      "cached s2 ((pinned P)(?a := 1, ?b := Suc (pinned P ?b))) ?lk"
    using read_two[OF q a ab card] by blast
  have d: "bf_data (bio_buf s2 i) = ?d" using holdsD(7)[OF r(6,4)] r(3) by (simp add: silent_def)
  have lb: "?lk ?b = Some pid" by simp
  obtain s3 where w: "kseq (set_data j ?d) (bwrite pid j) s2 = Inr ((), s3)"
      "cached s3 ((pinned P)(?a := 1, ?b := Suc (pinned P ?b))) ?lk" "wrote s2 s3 ?b ?d" "holds s3 i ?a" "holds s3 j ?b"
    using store_block[OF r(6,5) lb, of ?d] r(4,5) by blast
  obtain s4 where u: "kwhen (\<not> recovering) (kmodify (bunpin j)) s3 = Inr ((), s4)" "silent s3 s4"
      "cached s4 ((pinned ?Q)(?a := 1, ?b := Suc (pinned ?Q ?b))) ?lk" "holds s4 i ?a" "holds s4 j ?b"
  proof (cases recovering)
    case True
    then show ?thesis using that[of s3] w P by (simp add: silent_def)
  next
    case False
    define rc where "rc = (pinned P)(?a := 1, ?b := Suc (pinned P ?b))"
    have "1 < rc ?b" using P False by (simp add: pinned_def rc_def)
    note un = cached_bunpin[OF w(2)[folded rc_def] w(5) this]
    have "rc(?b := rc ?b - 1) = (pinned ?Q)(?a := 1, ?b := Suc (pinned ?Q ?b))"
      using P False by (auto simp: fun_eq_iff pinned_def rc_def)
    with un(1) have "cached (bunpin j s3) ((pinned ?Q)(?a := 1, ?b := Suc (pinned ?Q ?b))) ?lk" by simp
    moreover have "silent s3 (bunpin j s3)" using un(2) by (simp add: silent_def) (simp add: bunpin_def upd_buf_def)
    ultimately show ?thesis using that[of "bunpin j s3"] un(3) w(4,5) False by simp
  qed
  have cl: "bview s4 ?a = bio_disk s4 ?a" "bview s4 ?b = bio_disk s4 ?b"
    using w(3) u(2) r(3) clean_a ab by (auto simp: wrote_def silent_def)
  obtain s5 s6 where e: "brelse pid i s4 = Inr ((), s5)" "brelse pid j s5 = Inr ((), s6)" "quiet s6 ?Q" "silent s4 s6"
    using release_two(2)[OF u(3,4,5) ab _ cl] a by blast
  have "install_one pid recovering tail s = Inr ((), s6)"
    using r(1,2) w(1) u(1) e(1,2) d dev by (cases recovering) (auto simp: install_one_def get_data_def)
  moreover have "wrote s s6 ?b ?d"
    using wrote_silent(1)[OF r(3) w(3)] u(2) e(4) silent_trans wrote_silent(2) by blast
  ultimately show ?thesis using e(3) by blast
qed

lemma write_head_ok:
  assumes q: "quiet s P" and a: "lg_start s \<notin> P" and P: "card P < NBUF" and dev: "lg_dev s = ROOTDEV"
  shows "\<exists>s'. write_head pid s = Inr ((), s') \<and> quiet s' P
    \<and> wrote s s' (lg_start s) (put_head (lg_n s) (lg_block s) (bview s (lg_start s)))"
proof -
  let ?a = "lg_start s" let ?d = "put_head (lg_n s) (lg_block s) (bview s ?a)"
  let ?lk = "no_locks(?a := Some pid)"
  obtain i s1 where r: "bread pid ROOTDEV ?a s = Inr (i, s1)" "silent s s1" "holds s1 i ?a"
      "cached s1 ((pinned P)(?a := 1)) ?lk"
    using read_one[OF q a P] by blast
  have d: "bf_data (bio_buf s1 i) = bview s ?a" using holdsD(7)[OF r(4,3)] r(2) by (simp add: silent_def)
  have la: "?lk ?a = Some pid" by simp
  obtain s2 where w: "kseq (set_data i ?d) (bwrite pid i) s1 = Inr ((), s2)"
      "cached s2 ((pinned P)(?a := 1)) ?lk" "wrote s1 s2 ?a ?d" "holds s2 i ?a"
    using store_block[OF r(4,3) la, of ?d] r(3) by blast
  define rc lk where "rc = (pinned P)(?a := 1)" and "lk = ?lk"
  have e: "rc(?a := rc ?a - 1) = pinned P" "lk(?a := None) = no_locks" "lk ?a = Some pid"
    using a by (auto simp: fun_eq_iff pinned_def rc_def lk_def)
  have "bview s2 ?a = bio_disk s2 ?a" using w(3) by (simp add: wrote_def)
  with release[OF w(2)[folded rc_def lk_def] w(4) e(3)] e(1,2)
  obtain s3 where "brelse pid i s2 = Inr ((), s3)" "quiet s3 P" "silent s2 s3"
    unfolding quiet_def by metis
  moreover from this have "write_head pid s = Inr ((), s3)"
    using r(1) w(1) d dev by (auto simp: write_head_def get_data_def)
  ultimately show ?thesis using wrote_silent r(2) w(3) by blast
qed

subsection \<open>The loops\<close>

text \<open>A sequence of writes, each with the contents the blocks had before.\<close>

definition wrote_all :: "'a bio_scheme \<Rightarrow> 'a bio_scheme \<Rightarrow> (u32 \<times> block) list \<Rightarrow> bool" where
  "wrote_all s s' ws \<longleftrightarrow> bview s' = wr (bview s) ws \<and> bio_disk s' = wr (bio_disk s) ws
     \<and> bio_writes s' = bio_writes s @ ws \<and> bio.more s' = bio.more s"

lemma wrote_all_Nil: "wrote_all s s []"
  by (simp add: wrote_all_def)

lemma wrote_all_Cons: "wrote s s1 b d \<Longrightarrow> wrote_all s1 s' ws \<Longrightarrow> wrote_all s s' ((b, d) # ws)"
  by (simp add: wrote_all_def wrote_def)

lemma wrote_all_append: "wrote_all s s1 ws \<Longrightarrow> wrote_all s1 s' vs \<Longrightarrow> wrote_all s s' (ws @ vs)"
  by (simp add: wrote_all_def wr_append)

lemma write_log_loop:
  assumes "quiet s P" "card P < NBUF" "lg_dev s = ROOTDEV" "log_ok (lg_start s) bs"
    and "set bs \<subseteq> P" "P \<inter> log_area (lg_start s) = {}" "take (length bs) (lg_block s) = bs"
  shows "k \<le> length bs \<Longrightarrow> \<exists>s'. kfor [k..<length bs] (write_log_one pid) s = Inr ((), s') \<and> quiet s' P
    \<and> wrote_all s s' (map (\<lambda>i. (lg_start s + of_nat i + 1, bview s (bs ! i))) [k..<length bs])"
  using assms
proof (induction "length bs - k" arbitrary: k s)
  case 0
  then have "[k..<length bs] = []" by simp
  with 0 show ?case by (auto simp: kmon_defs wrote_all_Nil)
next
  case (Suc m)
  let ?a = "lg_start s + of_nat k + 1"
  have k: "k < length bs" and mk: "m = length bs - Suc k" using Suc.hyps(2) by simp_all
  have blk: "lg_block s ! i = bs ! i" if "i < length bs" for i
    using Suc.prems(8) that by (metis nth_take)
  have area: "?a \<in> log_area (lg_start s)" using k log_okD(1)[OF Suc.prems(5)] by (intro log_slot_area) simp
  have aP: "?a \<notin> P" using area Suc.prems(7) by auto
  have "lg_block s ! k \<in> P" using blk[OF k] Suc.prems(6) k by auto
  then obtain s1 where s1: "write_log_one pid k s = Inr ((), s1)" "quiet s1 P" "wrote s s1 ?a (bview s (bs ! k))"
    using write_log_one_ok[OF Suc.prems(2) aP _ Suc.prems(3,4)] blk[OF k] by auto
  have more: "bio.more s1 = bio.more s" using s1(3) by (simp add: wrote_def)
  note lg = lg_more[OF more]
  have same: "bview s1 (bs ! i) = bview s (bs ! i)" if "i < length bs" for i
    using s1(3) aP Suc.prems(6) nth_mem[OF that] by (auto simp: wrote_def)
  obtain s' where s': "kfor [Suc k..<length bs] (write_log_one pid) s1 = Inr ((), s')" "quiet s' P"
      "wrote_all s1 s' (map (\<lambda>i. (lg_start s1 + of_nat i + 1, bview s1 (bs ! i))) [Suc k..<length bs])"
    using Suc.hyps(1)[of "Suc k" s1] mk k s1(2) Suc.prems lg(1,5,7) by auto
  have "map (\<lambda>i. (lg_start s1 + of_nat i + 1, bview s1 (bs ! i))) [Suc k..<length bs] =
      map (\<lambda>i. (lg_start s + of_nat i + 1, bview s (bs ! i))) [Suc k..<length bs]"
    using same lg by simp
  with wrote_all_Cons[OF s1(3)] s' s1(1) k show ?case
    by (simp add: upt_conv_Cons)
qed

lemma install_loop:
  assumes "quiet s P" "lg_dev s = ROOTDEV" "log_ok (lg_start s) bs"
    and "if recovering then P = {} else P = set (drop k bs) \<and> length bs < NBUF"
    and "take (length bs) (lg_block s) = bs"
  shows "k \<le> length bs \<Longrightarrow> \<exists>s'. kfor [k..<length bs] (install_one pid recovering) s = Inr ((), s') \<and> quiet s' {}
    \<and> wrote_all s s' (map (\<lambda>i. (bs ! i, bview s (lg_start s + of_nat i + 1))) [k..<length bs])"
  using assms
proof (induction "length bs - k" arbitrary: k s P)
  case 0
  then have "[k..<length bs] = []" "P = {}" by (auto split: if_splits)
  with 0 show ?case by (auto simp: kmon_defs wrote_all_Nil)
next
  case (Suc m)
  let ?a = "lg_start s + of_nat k + 1"
  have k: "k < length bs" and mk: "m = length bs - Suc k" using Suc.hyps(2) by simp_all
  have blk: "lg_block s ! k = bs ! k" using Suc.prems(6) k by (metis nth_take)
  have dr: "drop k bs = bs ! k # drop (Suc k) bs" using k by (simp add: Cons_nth_drop_Suc)
  have dist: "distinct bs" using Suc.prems(4) by (simp add: log_ok_def)
  have nd: "bs ! k \<notin> set (drop (Suc k) bs)" using dist dr by (metis distinct.simps(2) distinct_drop)
  have out: "lg_start s + of_nat i + 1 \<notin> set bs" if "i < length bs" for i by (rule log_okD(3)[OF Suc.prems(4) that])
  have aP: "?a \<notin> P" using out[OF k] Suc.prems(5) by (auto split: if_splits dest: in_set_dropD)
  have "card (set (drop k bs)) \<le> length bs" using card_length[of "drop k bs"] by simp
  then have P: "if recovering then P = {} else lg_block s ! k \<in> P \<and> card P < NBUF"
    using Suc.prems(5) blk dr by (auto split: if_splits)
  have ab: "?a \<noteq> lg_block s ! k" using out[OF k] blk k by (metis nth_mem)
  obtain s1 where s1: "install_one pid recovering k s = Inr ((), s1)" "quiet s1 (P - {bs ! k})" "wrote s s1 (bs ! k) (bview s ?a)"
    using install_one_ok[OF Suc.prems(2) aP ab P Suc.prems(3)] blk by auto
  have more: "bio.more s1 = bio.more s" using s1(3) by (simp add: wrote_def)
  note lg = lg_more[OF more]
  have same: "bview s1 (lg_start s + of_nat i + 1) = bview s (lg_start s + of_nat i + 1)" if "i < length bs" for i
    using s1(3) out[OF that] k by (auto simp: wrote_def)
  have P': "if recovering then P - {bs ! k} = {} else P - {bs ! k} = set (drop (Suc k) bs) \<and> length bs < NBUF"
    using Suc.prems(5) nd dr by (auto split: if_splits)
  obtain s' where s': "kfor [Suc k..<length bs] (install_one pid recovering) s1 = Inr ((), s')" "quiet s' {}"
      "wrote_all s1 s' (map (\<lambda>i. (bs ! i, bview s1 (lg_start s1 + of_nat i + 1))) [Suc k..<length bs])"
    using Suc.hyps(1)[OF mk _ s1(2) _ _ P'] k Suc.prems(3,4,6) lg(1,5,7) by auto
  have "map (\<lambda>i. (bs ! i, bview s1 (lg_start s1 + of_nat i + 1))) [Suc k..<length bs] =
      map (\<lambda>i. (bs ! i, bview s (lg_start s + of_nat i + 1))) [Suc k..<length bs]"
    using same lg(1) by simp
  with wrote_all_Cons[OF s1(3)] s' s1(1) k show ?case
    by (simp add: upt_conv_Cons)
qed

subsection \<open>The commit\<close>

lemma put_blocks_cong:
  "(\<And>j. i \<le> j \<Longrightarrow> j < i + n \<Longrightarrow> bs ! j = bs' ! j) \<Longrightarrow> put_blocks n i bs d = put_blocks n i bs' d"
  by (induction n i bs d rule: put_blocks.induct) auto

lemma put_head_cong:
  "(\<And>j. j < nat n \<Longrightarrow> bs ! j = bs' ! j) \<Longrightarrow> put_head n bs d = put_head n bs' d"
  unfolding put_head_def by (rule put_blocks_cong) auto

lemma wrote_all_one: "wrote s s' b d \<Longrightarrow> wrote_all s s' [(b, d)]"
  by (simp add: wrote_all_def wrote_def wr_def)

text \<open>The open transaction: its blocks, in order, and what the log code relies on.\<close>

definition in_trans :: "'a logst_scheme \<Rightarrow> u32 list \<Rightarrow> bool" where
  "in_trans s bs \<longleftrightarrow> quiet s (set bs) \<and> lg_dev s = ROOTDEV \<and> log_ok (lg_start s) bs
     \<and> take (length bs) (lg_block s) = bs \<and> lg_n s = int (length bs)"

lemma commit_ok:
  assumes t: "in_trans s bs" and n: "bs \<noteq> []" "length bs < NBUF"
  shows "\<exists>s'. commit pid s = Inr ((), s') \<and> quiet s' {} \<and> lg_n s' = 0
    \<and> bio_writes s' = bio_writes s @ commit_writes (lg_start s) (bview s) bs (bview s (lg_start s))
    \<and> bio_disk s' = wr (bio_disk s) (commit_writes (lg_start s) (bview s) bs (bview s (lg_start s)))"
proof -
  let ?st = "lg_start s" and ?V = "bview s"
  have q: "quiet s (set bs)" and dev: "lg_dev s = ROOTDEV" and ok: "log_ok ?st bs"
    and tk: "take (length bs) (lg_block s) = bs" and ln: "lg_n s = int (length bs)"
    using t by (auto simp: in_trans_def)
  have card: "card (set bs) < NBUF" using card_length[of bs] n(2) by simp
  have area: "set bs \<inter> log_area ?st = {}" and nl: "length bs \<le> LOGSIZE" using ok by (auto simp: log_ok_def)
  have st: "?st \<notin> set bs" by (rule log_okD(2)[OF ok])
  have blk: "lg_block s ! j = bs ! j" if "j < length bs" for j using tk that by (metis nth_take)
  obtain s1 where s1: "write_log pid s = Inr ((), s1)" "quiet s1 (set bs)" "wrote_all s s1 (log_writes ?st ?V bs)"
    using write_log_loop[OF q card dev ok order.refl area tk, of 0 pid] ln by (auto simp: write_log_def log_writes_def)
  have m1: "bio.more s1 = bio.more s" using s1(3) by (simp add: wrote_all_def)
  note lg1 = lg_more[OF m1]
  have v1: "bview s1 ?st = ?V ?st"
    using s1(3) log_writes_area(2)[OF nl, of ?st ?st ?V] wr_outside[of ?st "log_writes ?st ?V bs" ?V] by (auto simp: wrote_all_def)
  let ?H = "put_head (int (length bs)) bs (?V ?st)"
  have "put_head (lg_n s1) (lg_block s1) (bview s1 ?st) = ?H"
    unfolding v1 lg1 ln by (rule put_head_cong) (simp add: blk)
  then obtain s2 where s2: "write_head pid s1 = Inr ((), s2)" "quiet s2 (set bs)" "wrote s1 s2 ?st ?H"
    using write_head_ok[OF s1(2) _ card, of pid] st dev lg1 by auto
  have m2: "bio.more s2 = bio.more s" using s2(3) m1 by (simp add: wrote_def)
  note lg2 = lg_more[OF m2]
  have v2: "bview s2 (?st + of_nat i + 1) = ?V (bs ! i)" if "i < length bs" for i
    using s1(3) s2(3) wr_log_writes[OF nl that] header_not_log_slot[of i ?st] that nl
    by (simp add: wrote_all_def wrote_def)
  obtain s3 where s3: "install_trans pid False s2 = Inr ((), s3)" "quiet s3 {}" "wrote_all s2 s3 (home_writes ?V bs)"
  proof -
    have "map (\<lambda>i. (bs ! i, bview s2 (?st + of_nat i + 1))) [0..<length bs] = home_writes ?V bs"
      using v2 by (simp add: home_writes_def)
    then show ?thesis
      using install_loop[OF s2(2), of bs False 0 pid] that dev ok tk ln lg2 n(2) by (auto simp: install_trans_def)
  qed
  have m3: "bio.more s3 = bio.more s" using s3(3) m2 by (simp add: wrote_all_def)
  note lg3 = lg_more[OF m3]
  let ?s3 = "s3\<lparr>lg_n := 0\<rparr>"
  have v3: "bview ?s3 ?st = ?H"
    using s3(3) s2(3) wr_home_writes[of "bview s2" ?V bs ?st] st by (simp add: wrote_all_def wrote_def)
  have "put_head 0 (lg_block ?s3) (bview ?s3 ?st) = put_head 0 bs ?H"
    unfolding v3 by (rule put_head_cong) simp
  then obtain s4 where s4: "write_head pid ?s3 = Inr ((), s4)" "quiet s4 {}" "wrote ?s3 s4 ?st (put_head 0 bs ?H)"
    using write_head_ok[of ?s3 "{}" pid] s3(2) dev lg3 by auto
  have "commit pid s = Inr ((), s4)"
    using s1(1) s2(1) s3(1) s4(1) n(1) ln by (auto simp: commit_def)
  moreover have "lg_n s4 = 0" using lg_more(6)[of s4 ?s3] s4(3) by (simp add: wrote_def)
  moreover have "bio_writes s4 = bio_writes s @ commit_writes ?st ?V bs (?V ?st)"
      "bio_disk s4 = wr (bio_disk s) (commit_writes ?st ?V bs (?V ?st))"
    using s1(3) s2(3) s3(3) s4(3) by (simp_all add: wrote_all_def wrote_def commit_writes_def wr_append)
  ultimately show ?thesis using s4(2) by blast
qed

subsection \<open>Recovery\<close>

lemma kfor_read_blocks:
  assumes "n \<le> LOGSIZE" "length (lg_block s) = LOGSIZE"
  shows "\<exists>bl. kfor [0..<n] (\<lambda>i. if i < LOGSIZE
             then kmodify (\<lambda>s. s\<lparr>lg_block := (lg_block s)[i := head_block d i]\<rparr>)
             else kfail (Fault ''log.lh.block'')) s = Inr ((), s\<lparr>lg_block := bl\<rparr>)
    \<and> length bl = LOGSIZE \<and> (\<forall>i<n. bl ! i = head_block d i)"
  using assms
proof (induction n)
  case 0
  then show ?case by (auto simp: kmon_defs intro!: exI[of _ "lg_block s"])
next
  case (Suc n)
  then obtain bl where bl: "kfor [0..<n] (\<lambda>i. if i < LOGSIZE
             then kmodify (\<lambda>s. s\<lparr>lg_block := (lg_block s)[i := head_block d i]\<rparr>)
             else kfail (Fault ''log.lh.block'')) s = Inr ((), s\<lparr>lg_block := bl\<rparr>)"
      "length bl = LOGSIZE" "\<forall>i<n. bl ! i = head_block d i"
    by auto
  have "kfor [0..<Suc n] (\<lambda>i. if i < LOGSIZE
             then kmodify (\<lambda>s. s\<lparr>lg_block := (lg_block s)[i := head_block d i]\<rparr>)
             else kfail (Fault ''log.lh.block'')) s = Inr ((), s\<lparr>lg_block := bl[n := head_block d n]\<rparr>)"
    using bl(1) Suc.prems(1) by (simp add: kfor_snoc)
  then show ?case
    using bl(2,3) Suc.prems(1)
    by (intro exI[of _ "bl[n := head_block d n]"]) (auto simp: less_Suc_eq nth_list_update)
qed

lemma read_head_ok:
  assumes q: "quiet s {}" and dev: "lg_dev s = ROOTDEV" and len: "length (lg_block s) = LOGSIZE"
    and n: "head_n (bio_disk s (lg_start s)) \<le> int LOGSIZE"
  shows "\<exists>s'. read_head pid s = Inr ((), s') \<and> quiet s' {} \<and> bview s' = bview s \<and> bio_disk s' = bio_disk s
    \<and> bio_writes s' = bio_writes s \<and> lg_dev s' = lg_dev s \<and> lg_start s' = lg_start s
    \<and> lg_n s' = head_n (bio_disk s (lg_start s)) \<and> length (lg_block s') = LOGSIZE
    \<and> (\<forall>i<nat (lg_n s'). lg_block s' ! i = head_block (bio_disk s (lg_start s)) i)"
proof -
  let ?a = "lg_start s" and ?d = "bio_disk s (lg_start s)"
  define rc lk where "rc = (pinned {})(?a := 1)" and "lk = no_locks(?a := Some pid)"
  obtain i s1 where r: "bread pid ROOTDEV ?a s = Inr (i, s1)" "silent s s1" "holds s1 i ?a" "cached s1 rc lk"
    using read_one[OF q, of ?a pid] by (auto simp: rc_def lk_def)
  have d: "bf_data (bio_buf s1 i) = ?d"
    using holdsD(7)[OF r(4,3)] r(2) quiet_clean[OF q, of ?a] by (simp add: silent_def)
  have m1: "bio.more s1 = bio.more s" using r(2) by (simp add: silent_def)
  note lg1 = lg_more[OF m1]
  obtain bl where bl: "kfor [0..<nat (head_n ?d)] (\<lambda>i. if i < LOGSIZE
             then kmodify (\<lambda>s. s\<lparr>lg_block := (lg_block s)[i := head_block ?d i]\<rparr>)
             else kfail (Fault ''log.lh.block'')) (s1\<lparr>lg_n := head_n ?d\<rparr>) = Inr ((), s1\<lparr>lg_n := head_n ?d, lg_block := bl\<rparr>)"
      "length bl = LOGSIZE" "\<forall>i<nat (head_n ?d). bl ! i = head_block ?d i"
  proof -
    have "nat (head_n ?d) \<le> LOGSIZE" "length (lg_block (s1\<lparr>lg_n := head_n ?d\<rparr>)) = LOGSIZE"
      using n len lg1(7) by auto
    from kfor_read_blocks[OF this, of ?d] that show ?thesis by blast
  qed
  let ?s2 = "s1\<lparr>lg_n := head_n ?d, lg_block := bl\<rparr>"
  have c2: "cached ?s2 rc lk" "bview ?s2 = bview s1" using r(4) by (simp_all add: same_cache[of ?s2 s1])
  have h2: "holds ?s2 i ?a" using r(3) by (simp add: holds_def key_def)
  have e: "rc(?a := rc ?a - 1) = pinned {}" "lk(?a := None) = no_locks" "lk ?a = Some pid"
    by (auto simp: fun_eq_iff pinned_def rc_def lk_def)
  have "bview ?s2 ?a = bio_disk ?s2 ?a" using c2(2) r(2) quiet_clean[OF q, of ?a] by (simp add: silent_def)
  with release[OF c2(1) h2 e(3)] e(1,2) obtain s3 where s3: "brelse pid i ?s2 = Inr ((), s3)" "quiet s3 {}" "silent ?s2 s3"
    unfolding quiet_def by metis
  have m3: "bio.more s3 = bio.more ?s2" using s3(3) by (simp add: silent_def)
  note lg3 = lg_more[OF m3]
  have "read_head pid s = Inr ((), s3)"
    using r(1) bl(1) s3(1) dev by (auto simp: read_head_def get_data_def d cong: if_cong)
  then show ?thesis using s3 c2 bl(2,3) lg3 lg1 r(2) by (intro exI) (auto simp: silent_def)
qed

lemma recover_ok:
  assumes q: "quiet s {}" and dev: "lg_dev s = ROOTDEV" and len: "length (lg_block s) = LOGSIZE"
    and ok: "log_ok (lg_start s) bs" and n: "head_n (bio_disk s (lg_start s)) = int (length bs)"
    and hb: "\<And>i. i < length bs \<Longrightarrow> head_block (bio_disk s (lg_start s)) i = bs ! i"
  shows "\<exists>s'. recover_from_log pid s = Inr ((), s') \<and> quiet s' {} \<and> lg_n s' = 0
    \<and> (\<forall>b. b \<noteq> lg_start s \<longrightarrow> bio_disk s' b = recover_disk (lg_start s) (bio_disk s) b)
    \<and> bio_disk s' (lg_start s) = put_head 0 [] (bio_disk s (lg_start s))"
proof -
  let ?st = "lg_start s" and ?D = "bio_disk s"
  have nl: "length bs \<le> LOGSIZE" and st: "?st \<notin> set bs" using log_okD[OF ok] by auto
  have "head_n (?D ?st) \<le> int LOGSIZE" using n nl by simp
  from read_head_ok[OF q dev len this, of pid] obtain s1 where s1: "read_head pid s = Inr ((), s1)" "quiet s1 {}"
      "bview s1 = bview s" "bio_disk s1 = ?D" "lg_dev s1 = ROOTDEV" "lg_start s1 = ?st"
      "lg_n s1 = int (length bs)" "length (lg_block s1) = LOGSIZE"
      "\<forall>i<length bs. lg_block s1 ! i = head_block (?D ?st) i"
    using n dev by auto
  have tk: "take (length bs) (lg_block s1) = bs"
    using s1(8,9) hb nl by (intro nth_equalityI) auto
  have V: "bview s1 = ?D" using quiet_clean[OF s1(2)] s1(4) by (auto simp: fun_eq_iff)
  let ?W = "map (\<lambda>i. (bs ! i, ?D (?st + of_nat i + 1))) [0..<length bs]"
  obtain s2 where s2: "install_trans pid True s1 = Inr ((), s2)" "quiet s2 {}" "wrote_all s1 s2 ?W"
    using install_loop[OF s1(2,5), of bs True 0 pid] ok tk V s1(6,7) by (auto simp: install_trans_def)
  have m2: "bio.more s2 = bio.more s1" using s2(3) by (simp add: wrote_all_def)
  note lg2 = lg_more[OF m2]
  let ?s2 = "s2\<lparr>lg_n := 0\<rparr>"
  have "put_head 0 (lg_block ?s2) (bview ?s2 ?st) = put_head 0 [] (wr ?D ?W ?st)"
    using s2(3) V by (simp add: wrote_all_def, intro put_head_cong) simp
  then obtain s3 where s3: "write_head pid ?s2 = Inr ((), s3)" "quiet s3 {}" "wrote ?s2 s3 ?st (put_head 0 [] (wr ?D ?W ?st))"
    using write_head_ok[of ?s2 "{}" pid] s2(2) s1(5,6) lg2 by auto
  have run: "recover_from_log pid s = Inr ((), s3)"
    using s1(1) s2(1) s3(1) by (auto simp: recover_from_log_def)
  have disk: "bio_disk s3 = (wr ?D ?W)(?st := put_head 0 [] (wr ?D ?W ?st))"
    using s3(3) s2(3) s1(4) by (simp add: wrote_def wrote_all_def)
  have out: "wr ?D ?W b = ?D b" if "b \<notin> set bs" for b
    using that by (intro wr_outside) auto
  have ins: "wr ?D ?W (bs ! i) = ?D (?st + of_nat i + 1)" if "i < length bs" for i
  proof (rule wr_same)
    show "(bs ! i, ?D (?st + of_nat i + 1)) \<in> set ?W" using that by auto
    show "d' = ?D (?st + of_nat i + 1)" if "(bs ! i, d') \<in> set ?W" for d'
      using that ok \<open>i < length bs\<close> by (auto simp: log_ok_def nth_eq_iff_index_eq)
  qed
  have "bio_disk s3 b = recover_disk ?st ?D b" if "b \<noteq> ?st" for b
  proof (cases "b \<in> set bs")
    case True
    then obtain i where "i < length bs" "b = bs ! i" by (auto simp: in_set_conv_nth)
    then show ?thesis using recover_disk_logged(2)[OF ok, of ?D, OF n hb that] ins that disk by simp
  next
    case False
    then show ?thesis using recover_disk_logged(1)[OF ok, of ?D, OF n hb that] out that disk by simp
  qed
  moreover have "lg_n s3 = 0" using lg_more(6)[of s3 ?s2] s3(3) by (simp add: wrote_def)
  ultimately show ?thesis using run s3(2) disk out[OF st] by (intro exI[of _ s3]) simp
qed

subsection \<open>Crash safety\<close>

lemma crash_header:
  assumes ok: "log_ok start bs" and hd: "length (D0 start) = BSIZE" "head_n (D0 start) = 0"
    and D: "D = wr D0 (take k (commit_writes start V bs (D0 start)))"
  shows "head_n (D start) = 0 \<or>
    head_n (D start) = int (length bs) \<and> (\<forall>i<length bs. head_block (D start) i = bs ! i)"
proof -
  let ?n = "length bs" and ?LW = "log_writes start V bs" and ?HW = "home_writes V bs"
  let ?H = "put_head (int ?n) bs (D0 start)"
  note okd = log_okD[OF ok]
  have lens: "length ?LW = ?n" "length ?HW = ?n" by (simp_all add: log_writes_def home_writes_def)
  have "start \<notin> fst ` set ?LW" using log_writes_area(2)[OF okd(1)] by blast
  then have LW: "wr E (take j ?LW) start = E start" for E j by (intro wr_outside) (force dest: in_set_takeD)
  have HW: "wr E (take j ?HW) start = E start" for E j by (rule wr_home_prefix[OF okd(2)])
  have H: "head_n ?H = int ?n" "length ?H = BSIZE" "\<forall>i<?n. head_block ?H i = bs ! i"
    using put_head_n[of "D0 start" "int ?n" bs] put_head_block[of "D0 start" "int ?n" _ bs] hd okd(1) by auto
  have clr: "head_n (put_head 0 bs ?H) = 0" using put_head_n[OF H(2), of 0 bs] by simp
  have "D start \<in> {D0 start, ?H, put_head 0 bs ?H}"
    unfolding D commit_writes_def
    by (auto simp: take_Cons' wr_append lens LW HW)
  then show ?thesis using hd(2) H clr by auto
qed

text \<open>
  A machine that boots on the disk \<open>D\<close>: nothing is cached yet and no transaction is open.
\<close>

definition booted :: "'a logst_scheme \<Rightarrow> (u32 \<Rightarrow> block) \<Rightarrow> bool" where
  "booted s D \<longleftrightarrow> quiet s {} \<and> bio_disk s = D \<and> length (lg_block s) = LOGSIZE"

lemma initlog_runs:
  assumes "booted s0 D" "log_ok (sb_logstart sb) bs" "head_n (D (sb_logstart sb)) = int (length bs)"
    "\<And>i. i < length bs \<Longrightarrow> head_block (D (sb_logstart sb)) i = bs ! i"
  shows "\<exists>s'. initlog pid ROOTDEV sb s0 = Inr ((), s') \<and> quiet s' {} \<and> lg_n s' = 0
    \<and> (\<forall>b. b \<noteq> sb_logstart sb \<longrightarrow> bio_disk s' b = recover_disk (sb_logstart sb) D b)"
proof -
  let ?s = "s0\<lparr>lg_start := sb_logstart sb, lg_size := sint (sb_nlog sb), lg_dev := ROOTDEV\<rparr>"
  have q: "quiet ?s {}" using assms(1) same_cache(3)[of ?s s0 "{}"] by (simp add: booted_def)
  have "\<exists>s'. recover_from_log pid ?s = Inr ((), s') \<and> quiet s' {} \<and> lg_n s' = 0
      \<and> (\<forall>b. b \<noteq> lg_start ?s \<longrightarrow> bio_disk s' b = recover_disk (lg_start ?s) (bio_disk ?s) b)"
    using recover_ok[OF q, of bs pid] assms by (auto simp: booted_def)
  then show ?thesis using assms(1) by (auto simp: initlog_def booted_def)
qed

lemma crash_recovery:
  assumes t: "in_trans s bs" and bs: "bs \<noteq> []" "length bs < NBUF"
    and hd: "length (bio_disk s (lg_start s)) = BSIZE" "head_n (bio_disk s (lg_start s)) = 0"
    and W: "W = commit_writes (lg_start s) (bview s) bs (bview s (lg_start s))"
    and boot: "booted s0 (wr (bio_disk s) (take k W))" "sb_logstart sb = lg_start s"
  shows "\<exists>s'. initlog pid ROOTDEV sb s0 = Inr ((), s') \<and> lg_n s' = 0 \<and>
    (\<forall>b. b \<notin> log_area (lg_start s) \<longrightarrow> bio_disk s' b = (if k \<le> length bs then bio_disk s b else bview s b))"
proof -
  let ?st = "lg_start s"
  have ok: "log_ok ?st bs" and q: "quiet s (set bs)" using t by (auto simp: in_trans_def)
  have V: "bview s b = bio_disk s b" if "b \<notin> set bs" for b by (rule quiet_clean[OF q that])
  have W': "W = commit_writes ?st (bview s) bs (bio_disk s ?st)" using W V log_okD(2)[OF ok] by simp
  let ?D = "wr (bio_disk s) (take k W)"
  have dk: "recover_disk ?st ?D b = (if k \<le> length bs then bio_disk s b else bview s b)"
    if "b \<notin> log_area ?st" for b
    using crash_disk[where ?D0.0 = "bio_disk s" and k = k and V = "bview s", OF ok hd that] V W' by auto
  have nil: "log_ok ?st []" by (simp add: log_ok_def)
  have "\<exists>s'. initlog pid ROOTDEV sb s0 = Inr ((), s') \<and> quiet s' {} \<and> lg_n s' = 0
      \<and> (\<forall>b. b \<noteq> ?st \<longrightarrow> bio_disk s' b = recover_disk ?st ?D b)"
    using crash_header[where ?D0.0 = "bio_disk s" and D = ?D and k = k and V = "bview s", OF ok hd] W'
      initlog_runs[OF boot(1), of sb "[]" pid] initlog_runs[OF boot(1), of sb bs pid] ok nil boot(2) by auto
  then obtain s' where s': "initlog pid ROOTDEV sb s0 = Inr ((), s')" "lg_n s' = 0"
      "\<forall>b. b \<noteq> ?st \<longrightarrow> bio_disk s' b = recover_disk ?st ?D b" by blast
  then show ?thesis using dk header_area[of ?st] by (intro exI[of _ s']) metis
qed

text \<open>
  C1: crash safety of the log. Let a transaction with the blocks \<open>bs\<close> be open, with room in the
  cache, and let the log on disk be empty. \<^verbatim>\<open>commit\<close> returns, and after any number \<open>k\<close> of
  its disk writes the machine may stop. Booting on the disk of that moment, \<^verbatim>\<open>initlog\<close> returns,
  and outside the log area the disk is then, for every block at once, either what it was before the
  commit or what the transaction wrote; the transaction takes effect exactly from the write of the
  header block on. Recovery leaves the log empty again.
\<close>

theorem commit_crash_safe:
  assumes "in_trans s bs" and "bs \<noteq> []" and "length bs < NBUF"
    and "length (bio_disk s (lg_start s)) = BSIZE" and "head_n (bio_disk s (lg_start s)) = 0"
  shows "\<exists>s' W. commit pid s = Inr ((), s') \<and> bio_writes s' = bio_writes s @ W
    \<and> (\<forall>b. b \<notin> log_area (lg_start s) \<longrightarrow> bio_disk s' b = bview s b)
    \<and> (\<forall>k s0 sb. booted s0 (wr (bio_disk s) (take k W)) \<longrightarrow> sb_logstart sb = lg_start s \<longrightarrow>
         (\<exists>s1. initlog pid ROOTDEV sb (s0 :: logst) = Inr ((), s1) \<and> lg_n s1 = 0 \<and>
           (\<forall>b. b \<notin> log_area (lg_start s) \<longrightarrow>
              bio_disk s1 b = (if k \<le> length bs then bio_disk s b else bview s b))))"
proof -
  let ?W = "commit_writes (lg_start s) (bview s) bs (bview s (lg_start s))"
  have ok: "log_ok (lg_start s) bs" and q: "quiet s (set bs)" using assms(1) by (auto simp: in_trans_def)
  obtain s' where s': "commit pid s = Inr ((), s')" "bio_writes s' = bio_writes s @ ?W"
      "bio_disk s' = wr (bio_disk s) ?W"
    using commit_ok[OF assms(1-3)] by blast
  have "wr (bio_disk s) ?W b = bview s b" if "b \<notin> log_area (lg_start s)" for b
  proof -
    have "b \<noteq> lg_start s" "b \<notin> fst ` set (log_writes (lg_start s) (bview s) bs)"
      using that header_area log_writes_area(1)[OF log_okD(1)[OF ok]] by blast+
    then show ?thesis
      using quiet_clean[OF q, of b] by (simp add: commit_writes_def wr_append wr_home_writes wr_outside)
  qed
  then have "\<forall>b. b \<notin> log_area (lg_start s) \<longrightarrow> bio_disk s' b = bview s b" using s'(3) by simp
  moreover have "\<forall>k s0 sb. booted s0 (wr (bio_disk s) (take k ?W)) \<longrightarrow> sb_logstart sb = lg_start s \<longrightarrow>
         (\<exists>s1. initlog pid ROOTDEV sb (s0 :: logst) = Inr ((), s1) \<and> lg_n s1 = 0 \<and>
           (\<forall>b. b \<notin> log_area (lg_start s) \<longrightarrow>
              bio_disk s1 b = (if k \<le> length bs then bio_disk s b else bview s b)))"
    using crash_recovery[OF assms refl] by blast
  ultimately show ?thesis using s'(1,2) by blast
qed

text \<open>A fresh cache is quiet; a machine with one block in its transaction.\<close>

lemma fresh_quiet:
  assumes "fresh_cache s" "bio_inv s xs"
  shows "quiet s {}"
  using assms by (auto simp: quiet_def cached_def fresh_cache_def key_def pinned_def)

lemma binit_frame: "bio_disk (binit s) = bio_disk s" "bio.more (binit s) = bio.more s"
proof -
  have "bio_disk (foldl (\<lambda>s b. upd_buf b (\<lambda>x. x\<lparr>bf_lock := initsleeplock\<rparr>) (link_front b s)) t xs) = bio_disk t \<and>
    bio.more (foldl (\<lambda>s b. upd_buf b (\<lambda>x. x\<lparr>bf_lock := initsleeplock\<rparr>) (link_front b s)) t xs) = bio.more t" for t xs
    by (induction xs arbitrary: t) (simp_all add: upd_buf_def link_front_def Let_def)
  note loop = this[of "upd_buf bhead (\<lambda>x. x\<lparr>bf_prev := bhead, bf_next := bhead\<rparr>) s" "[0..<NBUF]"]
  show "bio_disk (binit s) = bio_disk s"
    unfolding binit_def by (rule trans[OF conjunct1[OF loop]]) (simp add: upd_buf_def)
  show "bio.more (binit s) = bio.more s"
    unfolding binit_def by (rule trans[OF conjunct2[OF loop]]) (simp add: upd_buf_def)
qed

definition boot_log :: "(u32 \<Rightarrow> block) \<Rightarrow> logst" where
  "boot_log D = binit \<lparr>bio_buf = (\<lambda>_. zero_buf), bio_disk = D, bio_writes = [], lg_start = 2, lg_size = 30,
     lg_outstanding = 0, lg_committing = True, lg_dev = ROOTDEV, lg_n = 1, lg_block = 100 # replicate 29 0\<rparr>"

definition zero_disk :: "u32 \<Rightarrow> block" where
  "zero_disk b = replicate BSIZE 0"

definition one_block :: logst where
  "one_block = upd_buf 0 (\<lambda>x. x\<lparr>bf_valid := True, bf_dev := ROOTDEV, bf_blockno := 100, bf_refcnt := 1,
     bf_data := replicate BSIZE 7\<rparr>) (boot_log zero_disk)"

lemma boot_log_fields [simp]:
  "bio_disk (boot_log D) = D" "lg_start (boot_log D) = 2" "lg_dev (boot_log D) = ROOTDEV"
  "lg_n (boot_log D) = 1" "lg_block (boot_log D) = 100 # replicate 29 0"
  by (simp_all add: boot_log_def binit_frame lg_more[OF binit_frame(2)])

lemma boot_log_fresh: "fresh_cache (boot_log D)" "bio_inv (boot_log D) (rev [0..<NBUF])"
  unfolding boot_log_def
  by (rule binit_fresh binit_inv, simp add: fresh_cache_def key_def zero_buf_def initsleeplock_def)+

lemma boot_log_booted: "booted (boot_log D) D"
  using fresh_quiet[OF boot_log_fresh] by (simp add: booted_def)

lemma one_block_buf:
  assumes "j < NBUF"
  shows "bf_dev (bio_buf one_block j) = (if j = 0 then ROOTDEV else 0)"
    "bf_blockno (bio_buf one_block j) = (if j = 0 then 100 else 0)"
    "bf_valid (bio_buf one_block j) = (j = 0)" "bf_refcnt (bio_buf one_block j) = (if j = 0 then 1 else 0)"
    "\<not> sl_locked (bf_lock (bio_buf one_block j))"
  using assms boot_log_fresh(1)[of zero_disk]
  by (auto simp: one_block_def upd_buf_def fresh_cache_def key_def)

lemma one_block_inv: "bio_inv one_block (rev [0..<NBUF])"
proof -
  have "lru one_block (rev [0..<NBUF])"
    unfolding one_block_def using boot_log_fresh(2)[of zero_disk] by (subst lru_upd_buf) (auto simp: bio_inv_def)
  then show ?thesis by (auto simp: bio_inv_def key_def one_block_buf)
qed

lemma one_block_trans: "in_trans one_block [100]"
proof -
  have "quiet one_block {100}"
    using one_block_inv
    by (auto simp: quiet_def cached_def holds_def key_def pinned_def one_block_buf intro!: exI[of _ "0::nat"])
  moreover have "lg_dev one_block = ROOTDEV" "lg_start one_block = 2" "lg_n one_block = 1"
      "lg_block one_block = 100 # replicate 29 0"
    by (simp_all add: one_block_def upd_buf_def)
  moreover have "log_ok 2 [100]"
    by (auto simp: log_ok_def log_area_def word_unat_eq_iff unat_word_ariths unat_of_nat)
  ultimately show ?thesis by (simp add: in_trans_def)
qed

lemma zero_head: "head_n (replicate BSIZE 0) = 0"
  by (simp add: head_n_def)

theorem commit_crash_safe_witness:
  "\<exists>s' W. commit 1 one_block = Inr ((), s') \<and> bio_writes s' = bio_writes one_block @ W
    \<and> bio_disk s' 100 = replicate BSIZE 7
    \<and> (\<forall>k sb. sb_logstart sb = 2 \<longrightarrow>
         (\<exists>s1. initlog 1 ROOTDEV sb (boot_log (wr zero_disk (take k W))) = Inr ((), s1) \<and> lg_n s1 = 0 \<and>
            bio_disk s1 100 = (if k \<le> 1 then replicate BSIZE 0 else replicate BSIZE 7)))"
proof -
  have st: "lg_start one_block = 2" "bio_disk one_block = zero_disk" by (simp_all add: one_block_def upd_buf_def)
  have q: "bview one_block 100 = replicate BSIZE 7"
    using bview_cached[OF one_block_inv, of 0 100] by (simp add: one_block_buf) (simp add: one_block_def)
  have out: "100 \<notin> log_area 2"
    by (auto simp: log_area_def word_unat_eq_iff unat_word_ariths unat_of_nat)
  have hd: "length (bio_disk one_block (lg_start one_block)) = BSIZE" "head_n (bio_disk one_block (lg_start one_block)) = 0"
    using st zero_head by (simp_all add: zero_disk_def)
  have n: "[100::u32] \<noteq> []" "length [100::u32] < NBUF" by simp_all
  obtain s' W where s': "commit 1 one_block = Inr ((), s')" "bio_writes s' = bio_writes one_block @ W"
      "\<forall>b. b \<notin> log_area 2 \<longrightarrow> bio_disk s' b = bview one_block b"
      "\<forall>k s0 sb. booted s0 (wr zero_disk (take k W)) \<longrightarrow> sb_logstart sb = 2 \<longrightarrow>
         (\<exists>s1. initlog 1 ROOTDEV sb (s0 :: logst) = Inr ((), s1) \<and> lg_n s1 = 0 \<and>
           (\<forall>b. b \<notin> log_area 2 \<longrightarrow> bio_disk s1 b = (if k \<le> length [100::u32] then zero_disk b else bview one_block b)))"
    by (rule exE[OF commit_crash_safe[OF one_block_trans n hd, of 1, unfolded st]], elim exE conjE) (rule that)
  have "\<exists>s1. initlog 1 ROOTDEV sb (boot_log (wr zero_disk (take k W))) = Inr ((), s1) \<and> lg_n s1 = 0 \<and>
      bio_disk s1 100 = (if k \<le> 1 then replicate BSIZE 0 else replicate BSIZE 7)"
    if sb: "sb_logstart sb = 2" for k sb
  proof -
    obtain s1 where "initlog 1 ROOTDEV sb (boot_log (wr zero_disk (take k W))) = Inr ((), s1)" "lg_n s1 = 0"
        "\<forall>b. b \<notin> log_area 2 \<longrightarrow> bio_disk s1 b = (if k \<le> length [100::u32] then zero_disk b else bview one_block b)"
      using s'(4)[rule_format, OF boot_log_booted sb, of k] by (elim exE conjE) (rule that)
    then show ?thesis using out q by (intro exI[of _ s1]) (simp add: zero_disk_def)
  qed
  moreover have "bio_disk s' 100 = replicate BSIZE 7" using s'(3) out q by simp
  ultimately show ?thesis using s'(1,2) by blast
qed

end
