(* ===== verification/Fs.thy ===== *)
theory Fs
  imports Kalloc Log
begin

text \<open>
  The file system, \<^verbatim>\<open>src/kernel/fs.c\<close>: block and inode allocation, the in-memory inode
  table, the block map and contents of a file, directories and path names.

  The state adds to physical memory the inode table, the superblock and the blocks as the
  cache presents them: \<open>fs_blocks dev b\<close> is what \<^verbatim>\<open>bread(dev, b)->data\<close> holds, which
  the theories of the buffer cache and the log relate to the disk. A buffer is locked between
  \<^verbatim>\<open>bread\<close> and \<^verbatim>\<open>brelse\<close>, so reading a block, changing it and handing it to \<^verbatim>\<open>log_write\<close>
  is one update of \<open>fs_blocks\<close>. The number of open transactions is kept, because
  \<^verbatim>\<open>log_write\<close> panics outside a transaction.

  Inodes are named by their index in the table. The routine that moves bytes to or from the
  caller (\<^verbatim>\<open>either_copyout\<close>, \<^verbatim>\<open>either_copyin\<close>) is an argument of \<^verbatim>\<open>readi\<close> and \<^verbatim>\<open>writei\<close>.
  Path names are the bytes before the terminating zero. The argument \<open>pid\<close> is the process that
  runs the code, for the sleep locks of the inodes.
\<close>

subsection \<open>On-disk layout (fs.h) and state\<close>

abbreviation (input) BSIZE :: nat where "BSIZE \<equiv> 1024"
abbreviation (input) FSMAGIC :: u32 where "FSMAGIC \<equiv> 0x10203040"
abbreviation (input) ROOTINO :: u32 where "ROOTINO \<equiv> 1"
abbreviation (input) NDIRECT :: nat where "NDIRECT \<equiv> 12"
abbreviation (input) NINDIRECT :: nat where "NINDIRECT \<equiv> 256"
abbreviation (input) MAXFILE :: nat where "MAXFILE \<equiv> 268"
abbreviation (input) IPB :: nat where "IPB \<equiv> 16"
abbreviation (input) BPB :: nat where "BPB \<equiv> 8192"
abbreviation (input) DIRSIZ :: nat where "DIRSIZ \<equiv> 14"
abbreviation (input) T_DIR :: u16 where "T_DIR \<equiv> 1"
abbreviation (input) T_FILE :: u16 where "T_FILE \<equiv> 2"
abbreviation (input) T_DEVICE :: u16 where "T_DEVICE \<equiv> 3"

definition IBLOCK :: "u32 \<Rightarrow> superblock \<Rightarrow> u32" where
  "IBLOCK i sb = i div 16 + sb_inodestart sb"

definition BBLOCK :: "u32 \<Rightarrow> superblock \<Rightarrow> u32" where
  "BBLOCK b sb = b div 8192 + sb_bmapstart sb"

text \<open>\<^verbatim>\<open>struct dinode\<close>, 64 bytes.\<close>

record dinode =
  di_type :: u16
  di_major :: u16
  di_minor :: u16
  di_nlink :: u16
  di_size :: u32
  di_addrs :: "u32 list"

definition get_dinode :: "block \<Rightarrow> nat \<Rightarrow> dinode" where
  "get_dinode d i =
     (let off = 64 * i
      in \<lparr>di_type = of_nat (get 2 d off), di_major = of_nat (get 2 d (off + 2)),
          di_minor = of_nat (get 2 d (off + 4)), di_nlink = of_nat (get 2 d (off + 6)),
          di_size = of_nat (get 4 d (off + 8)),
          di_addrs = map (\<lambda>k. of_nat (get 4 d (off + 12 + 4 * k))) [0..<13]\<rparr>)"

fun put_words :: "block \<Rightarrow> nat \<Rightarrow> u32 list \<Rightarrow> block" where
  "put_words d off [] = d"
| "put_words d off (w # ws) = put_words (put 4 d off (unat w)) (off + 4) ws"

definition put_dinode :: "block \<Rightarrow> nat \<Rightarrow> dinode \<Rightarrow> block" where
  "put_dinode d i di =
     (let off = 64 * i;
          d1 = put 2 d off (unat (di_type di));
          d2 = put 2 d1 (off + 2) (unat (di_major di));
          d3 = put 2 d2 (off + 4) (unat (di_minor di));
          d4 = put 2 d3 (off + 6) (unat (di_nlink di));
          d5 = put 4 d4 (off + 8) (unat (di_size di))
      in put_words d5 (off + 12) (di_addrs di))"

text \<open>\<^verbatim>\<open>struct inode\<close>, an entry of the inode table.\<close>

record inode =
  i_dev :: u32
  i_inum :: u32
  i_ref :: int
  i_lock :: sleeplock
  i_valid :: bool
  i_type :: u16
  i_major :: u16
  i_minor :: u16
  i_nlink :: u16
  i_size :: u32
  i_addrs :: "u32 list"

record fsys = kmem +
  fs_blocks :: "u32 \<Rightarrow> u32 \<Rightarrow> block"
  fs_sb :: superblock
  fs_outstanding :: int
  fs_itable :: "inode list"

type_synonym 's cout = "u64 \<Rightarrow> u8 list \<Rightarrow> ('s, int) kmon"
type_synonym 's cin = "u64 \<Rightarrow> nat \<Rightarrow> ('s, int \<times> u8 list) kmon"

definition upd_inode :: "nat \<Rightarrow> (inode \<Rightarrow> inode) \<Rightarrow> ('a fsys_scheme, unit) kmon" where
  "upd_inode ip f = kmodify (\<lambda>s. s\<lparr>fs_itable := (fs_itable s)[ip := f (fs_itable s ! ip)]\<rparr>)"

definition get_inode :: "nat \<Rightarrow> ('a fsys_scheme, inode) kmon" where
  "get_inode ip = kget (\<lambda>s. fs_itable s ! ip)"

subsection \<open>Blocks and transactions, as the log presents them\<close>

definition fs_bread :: "u32 \<Rightarrow> u32 \<Rightarrow> ('a fsys_scheme, block) kmon" where
  "fs_bread dev b = kget (\<lambda>s. fs_blocks s dev b)"

definition set_block :: "u32 \<Rightarrow> u32 \<Rightarrow> block \<Rightarrow> 'a fsys_scheme \<Rightarrow> 'a fsys_scheme" where
  "set_block dev b d s = s\<lparr>fs_blocks := (fs_blocks s)(dev := (fs_blocks s dev)(b := d))\<rparr>"

definition fs_log_write :: "u32 \<Rightarrow> u32 \<Rightarrow> block \<Rightarrow> ('a fsys_scheme, unit) kmon" where
  "fs_log_write dev b d s =
     (if fs_outstanding s < 1 then panic ''log_write outside of trans'' s
      else Inr ((), set_block dev b d s))"

definition fs_begin_op :: "('a fsys_scheme, unit) kmon" where
  "fs_begin_op = kmodify (\<lambda>s. s\<lparr>fs_outstanding := fs_outstanding s + 1\<rparr>)"

definition fs_end_op :: "('a fsys_scheme, unit) kmon" where
  "fs_end_op = kmodify (\<lambda>s. s\<lparr>fs_outstanding := fs_outstanding s - 1\<rparr>)"

subsection \<open>Superblock and block allocation\<close>

definition get_superblock :: "block \<Rightarrow> superblock" where
  "get_superblock d =
     \<lparr>sb_magic = of_nat (get 4 d 0), sb_size = of_nat (get 4 d 4), sb_nblocks = of_nat (get 4 d 8),
      sb_ninodes = of_nat (get 4 d 12), sb_nlog = of_nat (get 4 d 16),
      sb_logstart = of_nat (get 4 d 20), sb_inodestart = of_nat (get 4 d 24),
      sb_bmapstart = of_nat (get 4 d 28)\<rparr>"

definition readsb :: "u32 \<Rightarrow> ('a fsys_scheme, unit) kmon" where
  "readsb dev = kbind (fs_bread dev 1) (\<lambda>d. kmodify (\<lambda>s. s\<lparr>fs_sb := get_superblock d\<rparr>))"

text \<open>The recovery of the log is the routine \<^verbatim>\<open>initlog\<close> of the theory of the log.\<close>

definition fsinit ::
  "(u32 \<Rightarrow> superblock \<Rightarrow> ('a fsys_scheme, unit) kmon) \<Rightarrow> u32 \<Rightarrow> ('a fsys_scheme, unit) kmon" where
  "fsinit init_log dev =
     kseq (readsb dev) (kbind (kget fs_sb) (\<lambda>sb.
       if sb_magic sb \<noteq> FSMAGIC then panic ''invalid file system'' else init_log dev sb))"

definition bzero :: "u32 \<Rightarrow> u32 \<Rightarrow> ('a fsys_scheme, unit) kmon" where
  "bzero dev bno = fs_log_write dev bno (replicate BSIZE 0)"

definition bit_mask :: "nat \<Rightarrow> u8" where
  "bit_mask bi = push_bit (bi mod 8) 1"

text \<open>The inner loop of \<^verbatim>\<open>balloc\<close>: the first clear bit of a bitmap block.\<close>

function free_bit :: "block \<Rightarrow> nat \<Rightarrow> nat \<Rightarrow> nat \<Rightarrow> nat option" where
  "free_bit d b sz bi =
     (if bi < BPB \<and> b + bi < sz
      then if d ! (bi div 8) AND bit_mask bi = 0 then Some bi else free_bit d b sz (Suc bi)
      else None)"
  by pat_completeness auto
termination
  by (relation "measure (\<lambda>(d, b, sz, bi). BPB - bi)") auto

function balloc_loop :: "u32 \<Rightarrow> nat \<Rightarrow> ('a fsys_scheme, u32) kmon" where
  "balloc_loop dev b s =
     (let sz = unat (sb_size (fs_sb s)); bno = BBLOCK (of_nat b) (fs_sb s);
          d = fs_blocks s dev bno
      in if b < sz then
           (case free_bit d b sz 0 of
              Some bi \<Rightarrow>
                kseq (fs_log_write dev bno (d[bi div 8 := d ! (bi div 8) OR bit_mask bi]))
               (kseq (bzero dev (of_nat (b + bi)))
                     (kret (of_nat (b + bi)))) s
            | None \<Rightarrow> balloc_loop dev (b + BPB) s)
         else panic ''balloc: out of blocks'' s)"
  by pat_completeness auto
termination
  by (relation "measure (\<lambda>(dev, b, s). unat (sb_size (fs_sb s)) - b)") auto

definition balloc :: "u32 \<Rightarrow> ('a fsys_scheme, u32) kmon" where
  "balloc dev = balloc_loop dev 0"

definition bfree :: "u32 \<Rightarrow> u32 \<Rightarrow> ('a fsys_scheme, unit) kmon" where
  "bfree dev b s =
     (let bno = BBLOCK b (fs_sb s); d = fs_blocks s dev bno; bi = unat b mod BPB; m = bit_mask bi
      in if d ! (bi div 8) AND m = 0 then panic ''freeing free block'' s
         else fs_log_write dev bno (d[bi div 8 := d ! (bi div 8) AND NOT m]) s)"

subsection \<open>The inode table\<close>

definition iinit :: "('a fsys_scheme, unit) kmon" where
  "iinit = kfor [0..<NINODE] (\<lambda>i. upd_inode i (\<lambda>x. x\<lparr>i_lock := initsleeplock\<rparr>))"

text \<open>One pass over the table: the entry of the inode, or the first entry that is not in use.\<close>

fun iget_scan :: "u32 \<Rightarrow> u32 \<Rightarrow> nat \<Rightarrow> nat option \<Rightarrow> inode list \<Rightarrow> nat + nat option" where
  "iget_scan dev inum i emp [] = Inr emp"
| "iget_scan dev inum i emp (ip # ips) =
     (if i_ref ip > 0 \<and> i_dev ip = dev \<and> i_inum ip = inum then Inl i
      else iget_scan dev inum (Suc i)
             (if emp = None \<and> i_ref ip = 0 then Some i else emp) ips)"

definition iget :: "u32 \<Rightarrow> u32 \<Rightarrow> ('a fsys_scheme, nat) kmon" where
  "iget dev inum =
     kbind (kget fs_itable) (\<lambda>tab.
       case iget_scan dev inum 0 None tab of
         Inl ip \<Rightarrow> kseq (upd_inode ip (\<lambda>x. x\<lparr>i_ref := i_ref x + 1\<rparr>)) (kret ip)
       | Inr None \<Rightarrow> panic ''iget: no inodes''
       | Inr (Some ip) \<Rightarrow>
           kseq (upd_inode ip (\<lambda>x. x\<lparr>i_dev := dev, i_inum := inum, i_ref := 1, i_valid := False\<rparr>))
                (kret ip))"

definition idup :: "nat \<Rightarrow> ('a fsys_scheme, nat) kmon" where
  "idup ip = kseq (upd_inode ip (\<lambda>x. x\<lparr>i_ref := i_ref x + 1\<rparr>)) (kret ip)"

fun ialloc_loop :: "u32 \<Rightarrow> u16 \<Rightarrow> nat list \<Rightarrow> ('a fsys_scheme, nat) kmon" where
  "ialloc_loop dev type [] = panic ''ialloc: no inodes''"
| "ialloc_loop dev type (inum # inums) =
     kbind (kget fs_sb) (\<lambda>sb.
     kbind (fs_bread dev (IBLOCK (of_nat inum) sb)) (\<lambda>d.
       if di_type (get_dinode d (inum mod IPB)) = 0
       then kseq (fs_log_write dev (IBLOCK (of_nat inum) sb)
                    (put_dinode d (inum mod IPB)
                       \<lparr>di_type = type, di_major = 0, di_minor = 0, di_nlink = 0, di_size = 0,
                        di_addrs = replicate 13 0\<rparr>))
                 (iget dev (of_nat inum))
       else ialloc_loop dev type inums))"

definition ialloc :: "u32 \<Rightarrow> u16 \<Rightarrow> ('a fsys_scheme, nat) kmon" where
  "ialloc dev type = kbind (kget fs_sb) (\<lambda>sb. ialloc_loop dev type [1..<unat (sb_ninodes sb)])"

definition dinode_of :: "inode \<Rightarrow> dinode" where
  "dinode_of x = \<lparr>di_type = i_type x, di_major = i_major x, di_minor = i_minor x,
     di_nlink = i_nlink x, di_size = i_size x, di_addrs = i_addrs x\<rparr>"

definition iupdate :: "nat \<Rightarrow> ('a fsys_scheme, unit) kmon" where
  "iupdate ip =
     kbind (get_inode ip) (\<lambda>x.
     kbind (kget fs_sb) (\<lambda>sb.
     kbind (fs_bread (i_dev x) (IBLOCK (i_inum x) sb)) (\<lambda>d.
       fs_log_write (i_dev x) (IBLOCK (i_inum x) sb)
         (put_dinode d (unat (i_inum x) mod IPB) (dinode_of x)))))"

definition ilock :: "int \<Rightarrow> nat \<Rightarrow> ('a fsys_scheme, unit) kmon" where
  "ilock pid ip =
     kbind (get_inode ip) (\<lambda>x.
       if i_ref x < 1 then panic ''ilock''
       else case acquiresleep pid (i_lock x) of
         Inl e \<Rightarrow> kfail e
       | Inr lk \<Rightarrow>
           kseq (upd_inode ip (\<lambda>x. x\<lparr>i_lock := lk\<rparr>))
             (if i_valid x then kret ()
              else kbind (kget fs_sb) (\<lambda>sb.
                kbind (fs_bread (i_dev x) (IBLOCK (i_inum x) sb)) (\<lambda>d.
                  let di = get_dinode d (unat (i_inum x) mod IPB)
                  in kseq (upd_inode ip (\<lambda>x. x\<lparr>i_type := di_type di, i_major := di_major di,
                             i_minor := di_minor di, i_nlink := di_nlink di, i_size := di_size di,
                             i_addrs := di_addrs di, i_valid := True\<rparr>))
                          (kwhen (di_type di = 0) (panic ''ilock: no type''))))))"

definition iunlock :: "int \<Rightarrow> nat \<Rightarrow> ('a fsys_scheme, unit) kmon" where
  "iunlock pid ip =
     kbind (get_inode ip) (\<lambda>x.
       if \<not> holdingsleep pid (i_lock x) \<or> i_ref x < 1 then panic ''iunlock''
       else upd_inode ip (\<lambda>x. x\<lparr>i_lock := releasesleep (i_lock x)\<rparr>))"

subsection \<open>Contents of an inode\<close>

definition itrunc :: "nat \<Rightarrow> ('a fsys_scheme, unit) kmon" where
  "itrunc ip =
     kseq (kfor [0..<NDIRECT] (\<lambda>i.
             kbind (get_inode ip) (\<lambda>x.
               kwhen (i_addrs x ! i \<noteq> 0)
                 (kseq (bfree (i_dev x) (i_addrs x ! i))
                       (upd_inode ip (\<lambda>x. x\<lparr>i_addrs := (i_addrs x)[i := 0]\<rparr>))))))
    (kseq (kbind (get_inode ip) (\<lambda>x.
             kwhen (i_addrs x ! NDIRECT \<noteq> 0)
               (kbind (fs_bread (i_dev x) (i_addrs x ! NDIRECT)) (\<lambda>a.
                  kseq (kfor [0..<NINDIRECT] (\<lambda>j.
                          let b = of_nat (get 4 a (4 * j))
                          in kwhen (b \<noteq> 0) (bfree (i_dev x) b)))
                 (kseq (bfree (i_dev x) (i_addrs x ! NDIRECT))
                       (upd_inode ip (\<lambda>x. x\<lparr>i_addrs := (i_addrs x)[NDIRECT := 0]\<rparr>)))))))
    (kseq (upd_inode ip (\<lambda>x. x\<lparr>i_size := 0\<rparr>))
          (iupdate ip)))"

definition iput :: "int \<Rightarrow> nat \<Rightarrow> ('a fsys_scheme, unit) kmon" where
  "iput pid ip =
     kbind (get_inode ip) (\<lambda>x.
       kseq (if i_ref x = 1 \<and> i_valid x \<and> i_nlink x = 0 then
               (case acquiresleep pid (i_lock x) of
                  Inl e \<Rightarrow> kfail e
                | Inr lk \<Rightarrow>
                    kseq (upd_inode ip (\<lambda>x. x\<lparr>i_lock := lk\<rparr>))
                   (kseq (itrunc ip)
                   (kseq (upd_inode ip (\<lambda>x. x\<lparr>i_type := 0\<rparr>))
                   (kseq (iupdate ip)
                         (upd_inode ip (\<lambda>x. x\<lparr>i_valid := False, i_lock := releasesleep (i_lock x)\<rparr>))))))
             else kret ())
            (upd_inode ip (\<lambda>x. x\<lparr>i_ref := i_ref x - 1\<rparr>)))"

definition iunlockput :: "int \<Rightarrow> nat \<Rightarrow> ('a fsys_scheme, unit) kmon" where
  "iunlockput pid ip = kseq (iunlock pid ip) (iput pid ip)"

definition bmap_direct :: "nat \<Rightarrow> nat \<Rightarrow> ('a fsys_scheme, u32) kmon" where
  "bmap_direct ip bn =
     kbind (get_inode ip) (\<lambda>x.
       if i_addrs x ! bn \<noteq> 0 then kret (i_addrs x ! bn)
       else kbind (balloc (i_dev x)) (\<lambda>addr.
         kseq (upd_inode ip (\<lambda>x. x\<lparr>i_addrs := (i_addrs x)[bn := addr]\<rparr>)) (kret addr)))"

text \<open>
  The entry for the indirect block itself is filled like a direct one; the new entry of the
  indirect block is stored into the locked buffer after \<^verbatim>\<open>balloc\<close> has returned.
\<close>

definition bmap :: "nat \<Rightarrow> nat \<Rightarrow> ('a fsys_scheme, u32) kmon" where
  "bmap ip bn =
     (if bn < NDIRECT then bmap_direct ip bn
      else if bn - NDIRECT < NINDIRECT then
        kbind (bmap_direct ip NDIRECT) (\<lambda>ind.
        kbind (get_inode ip) (\<lambda>x.
        kbind (fs_bread (i_dev x) ind) (\<lambda>a.
          let addr = of_nat (get 4 a (4 * (bn - NDIRECT)))
          in if addr \<noteq> 0 then kret addr
             else kbind (balloc (i_dev x)) (\<lambda>addr.
                  kbind (fs_bread (i_dev x) ind) (\<lambda>a.
                    kseq (fs_log_write (i_dev x) ind (put 4 a (4 * (bn - NDIRECT)) (unat addr)))
                         (kret addr))))))
      else panic ''bmap: out of range'')"

record kstat =
  st_dev :: u32
  st_ino :: u32
  st_type :: u16
  st_nlink :: u16
  st_size :: u64

definition stati :: "nat \<Rightarrow> ('a fsys_scheme, kstat) kmon" where
  "stati ip = kbind (get_inode ip) (\<lambda>x.
     kret \<lparr>st_dev = i_dev x, st_ino = i_inum x, st_type = i_type x, st_nlink = i_nlink x,
           st_size = ucast (i_size x)\<rparr>)"

text \<open>
  The loop variables of \<^verbatim>\<open>readi\<close> and \<^verbatim>\<open>writei\<close> do not wrap, because the code rejects
  \<^verbatim>\<open>off + n < off\<close> first. \<^verbatim>\<open>readi\<close> also returns the bytes it copied, for callers whose
  destination is a kernel object outside the modelled memory.
\<close>

function readi_loop ::
  "'a fsys_scheme cout \<Rightarrow> nat \<Rightarrow> u64 \<Rightarrow> nat \<Rightarrow> nat \<Rightarrow> nat \<Rightarrow> u8 list
     \<Rightarrow> ('a fsys_scheme, int \<times> u8 list) kmon" where
  "readi_loop copy ip dst off n tot acc s =
     (if tot < n then
        (case bmap ip (off div BSIZE) s of
           Inl e \<Rightarrow> Inl e
         | Inr (addr, s1) \<Rightarrow>
             let d = fs_blocks s1 (i_dev (fs_itable s1 ! ip)) addr;
                 m = min (n - tot) (BSIZE - off mod BSIZE);
                 bs = take m (drop (off mod BSIZE) d)
             in case copy dst bs s1 of
                  Inl e \<Rightarrow> Inl e
                | Inr (r, s2) \<Rightarrow>
                    if r = -1 then Inr ((-1, acc), s2)
                    else readi_loop copy ip (dst + of_nat m) (off + m) n (tot + m) (acc @ bs) s2)
      else Inr ((int tot, acc), s))"
  by pat_completeness auto
termination
  by (relation "measure (\<lambda>(copy, ip, dst, off, n, tot, acc, s). n - tot)") auto

definition readi ::
  "'a fsys_scheme cout \<Rightarrow> nat \<Rightarrow> u64 \<Rightarrow> u32 \<Rightarrow> u32 \<Rightarrow> ('a fsys_scheme, int \<times> u8 list) kmon" where
  "readi copy ip dst off n =
     kbind (get_inode ip) (\<lambda>x.
       if off > i_size x \<or> off + n < off then kret (0, [])
       else let n' = (if off + n > i_size x then i_size x - off else n)
            in readi_loop copy ip dst (unat off) (unat n') 0 [])"

text \<open>
  When the copy fails half-way through a block, the bytes copied so far stay in the cached
  block although it is not logged.
\<close>

function writei_loop ::
  "'a fsys_scheme cin \<Rightarrow> nat \<Rightarrow> u64 \<Rightarrow> nat \<Rightarrow> nat \<Rightarrow> nat \<Rightarrow> ('a fsys_scheme, nat \<times> nat) kmon" where
  "writei_loop copy ip src off n tot s =
     (if tot < n then
        (case bmap ip (off div BSIZE) s of
           Inl e \<Rightarrow> Inl e
         | Inr (addr, s1) \<Rightarrow>
             let dev = i_dev (fs_itable s1 ! ip); m = min (n - tot) (BSIZE - off mod BSIZE)
             in case copy src m s1 of
                  Inl e \<Rightarrow> Inl e
                | Inr ((r, bs), s2) \<Rightarrow>
                    let d = splice (fs_blocks s2 dev addr) (off mod BSIZE) bs
                    in if r = -1 then Inr ((tot, off), set_block dev addr d s2)
                       else case fs_log_write dev addr d s2 of
                              Inl e \<Rightarrow> Inl e
                            | Inr (_, s3) \<Rightarrow>
                                writei_loop copy ip (src + of_nat m) (off + m) n (tot + m) s3)
      else Inr ((tot, off), s))"
  by pat_completeness auto
termination
  by (relation "measure (\<lambda>(copy, ip, src, off, n, tot, s). n - tot)") auto

definition writei ::
  "'a fsys_scheme cin \<Rightarrow> nat \<Rightarrow> u64 \<Rightarrow> u32 \<Rightarrow> u32 \<Rightarrow> ('a fsys_scheme, int) kmon" where
  "writei copy ip src off n =
     kbind (get_inode ip) (\<lambda>x.
       if off > i_size x \<or> off + n < off then kret (-1)
       else if unat (off + n) > MAXFILE * BSIZE then kret (-1)
       else kbind (writei_loop copy ip src (unat off) (unat n) 0) (\<lambda>(tot, off').
         kseq (kbind (get_inode ip) (\<lambda>x.
                 kwhen (off' > unat (i_size x))
                   (upd_inode ip (\<lambda>x. x\<lparr>i_size := of_nat off'\<rparr>))))
        (kseq (iupdate ip)
              (kret (int tot)))))"

declare readi_loop.simps [simp del] writei_loop.simps [simp del] balloc_loop.simps [simp del]
  free_bit.simps [simp del]

text \<open>Copy routines for kernel objects on the caller's stack.\<close>

definition obj_out :: "'s cout" where
  "obj_out dst bs = kret 0"

definition obj_in :: "u8 list \<Rightarrow> 's cin" where
  "obj_in obj src n = kret (0, take n (drop (unat src) obj))"

text \<open>Copy routine for physical memory, \<^verbatim>\<open>memmove\<close> under \<^verbatim>\<open>user_dst == 0\<close>.\<close>

definition mem_out :: "'a kmem_scheme cout" where
  "mem_out dst bs = kseq (kmodify (\<lambda>s. s\<lparr>km_mem := store_bytes (km_mem s) dst bs\<rparr>)) (kret 0)"

subsection \<open>Directories\<close>

definition cstr :: "u8 list \<Rightarrow> cbuf" where
  "cstr bs = (\<lambda>i. if i < length bs then bs ! i else 0)"

definition namecmp :: "cbuf \<Rightarrow> cbuf \<Rightarrow> int" where
  "namecmp s t = strncmp s t DIRSIZ"

definition de_inum :: "u8 list \<Rightarrow> u16" where
  "de_inum de = of_nat (get 2 de 0)"

definition de_name :: "u8 list \<Rightarrow> cbuf" where
  "de_name de = cstr (drop 2 de)"

definition mk_dirent :: "u16 \<Rightarrow> cbuf \<Rightarrow> u8 list" where
  "mk_dirent inum name = le_bytes 2 (unat inum) @ map name [0..<DIRSIZ]"

text \<open>\<^verbatim>\<open>for(off = from; off < size; off += sizeof(de))\<close>; the size of a locked directory does not
  change while it is searched.\<close>

definition de_offsets :: "nat \<Rightarrow> u32 \<Rightarrow> u32 list" where
  "de_offsets from sz = map (\<lambda>k. of_nat (from + 16 * k)) [0..<(unat sz - from + 15) div 16]"

fun dirlookup_loop :: "nat \<Rightarrow> cbuf \<Rightarrow> u32 list \<Rightarrow> ('a fsys_scheme, (nat \<times> u32) option) kmon" where
  "dirlookup_loop dp name [] = kret None"
| "dirlookup_loop dp name (off # offs) =
     kbind (readi obj_out dp 0 off 16) (\<lambda>(r, de).
       if r \<noteq> 16 then panic ''dirlookup read''
       else if de_inum de = 0 then dirlookup_loop dp name offs
       else if namecmp name (de_name de) = 0 then
         kbind (get_inode dp) (\<lambda>x.
         kbind (iget (i_dev x) (ucast (de_inum de))) (\<lambda>ip. kret (Some (ip, off))))
       else dirlookup_loop dp name offs)"

definition dirlookup :: "nat \<Rightarrow> cbuf \<Rightarrow> ('a fsys_scheme, (nat \<times> u32) option) kmon" where
  "dirlookup dp name =
     kbind (get_inode dp) (\<lambda>x.
       if i_type x \<noteq> T_DIR then panic ''dirlookup not DIR''
       else dirlookup_loop dp name (de_offsets 0 (i_size x)))"

text \<open>The search for an empty entry leaves its offset and the last entry read.\<close>

fun dirlink_slot :: "nat \<Rightarrow> u32 \<Rightarrow> u32 list \<Rightarrow> ('a fsys_scheme, u32) kmon" where
  "dirlink_slot dp lst [] = kret lst"
| "dirlink_slot dp lst (off # offs) =
     kbind (readi obj_out dp 0 off 16) (\<lambda>(r, de).
       if r \<noteq> 16 then panic ''dirlink read''
       else if de_inum de = 0 then kret off
       else dirlink_slot dp (off + 16) offs)"

definition dirlink :: "int \<Rightarrow> nat \<Rightarrow> cbuf \<Rightarrow> u32 \<Rightarrow> ('a fsys_scheme, int) kmon" where
  "dirlink pid dp name inum =
     kbind (dirlookup dp name) (\<lambda>r.
       case r of
         Some (ip, _) \<Rightarrow> kseq (iput pid ip) (kret (-1))
       | None \<Rightarrow>
           kbind (get_inode dp) (\<lambda>x.
           kbind (dirlink_slot dp 0 (de_offsets 0 (i_size x))) (\<lambda>off.
             let de = mk_dirent (ucast inum) (strncpy (\<lambda>_. 0) name (int DIRSIZ))
             in kbind (writei (obj_in de) dp 0 off 16) (\<lambda>w.
                  if w \<noteq> 16 then panic ''dirlink'' else kret 0))))"

subsection \<open>Path names\<close>

abbreviation (input) slash :: u8 where "slash \<equiv> 47"

definition buf_write :: "cbuf \<Rightarrow> u8 list \<Rightarrow> cbuf" where
  "buf_write b bs = (\<lambda>i. if i < length bs then bs ! i else b i)"

definition skipelem :: "u8 list \<Rightarrow> cbuf \<Rightarrow> (u8 list \<times> cbuf) option" where
  "skipelem path name =
     (let path1 = dropWhile (\<lambda>c. c = slash) path
      in if path1 = [] then None
         else let s = takeWhile (\<lambda>c. c \<noteq> slash) path1;
                  path2 = dropWhile (\<lambda>c. c \<noteq> slash) path1;
                  name' = (if length s \<ge> DIRSIZ then buf_write name (take DIRSIZ s)
                           else (buf_write name s)(length s := 0))
              in Some (dropWhile (\<lambda>c. c = slash) path2, name'))"

lemma skipelem_shorter:
  assumes "skipelem path name = Some (path', name')"
  shows "length path' < length path"
proof -
  let ?p = "dropWhile (\<lambda>c. c = slash) path"
  from assms have ne: "?p \<noteq> []" and p': "path' = dropWhile (\<lambda>c. c = slash) (dropWhile (\<lambda>c. c \<noteq> slash) ?p)"
    by (auto simp: skipelem_def Let_def split: if_splits)
  have "hd ?p \<noteq> slash" using hd_dropWhile[OF ne] by simp
  then have "length (dropWhile (\<lambda>c. c \<noteq> slash) ?p) < length ?p"
    using ne by (cases ?p) (auto simp: less_Suc_eq_le length_dropWhile_le)
  moreover have "length ?p \<le> length path" by (rule length_dropWhile_le)
  moreover have "length path' \<le> length (dropWhile (\<lambda>c. c \<noteq> slash) ?p)"
    unfolding p' by (rule length_dropWhile_le)
  ultimately show ?thesis by linarith
qed

function namex_loop ::
  "int \<Rightarrow> u8 list \<Rightarrow> bool \<Rightarrow> cbuf \<Rightarrow> nat \<Rightarrow> ('a fsys_scheme, nat option \<times> cbuf) kmon" where
  "namex_loop pid path parent name ip =
     (case skipelem path name of
        None \<Rightarrow> if parent then kseq (iput pid ip) (kret (None, name)) else kret (Some ip, name)
      | Some (path', name') \<Rightarrow>
          kseq (ilock pid ip)
         (kbind (get_inode ip) (\<lambda>x.
            if i_type x \<noteq> T_DIR then kseq (iunlockput pid ip) (kret (None, name'))
            else if parent \<and> path' = [] then kseq (iunlock pid ip) (kret (Some ip, name'))
            else kbind (dirlookup ip name') (\<lambda>r.
              case r of
                None \<Rightarrow> kseq (iunlockput pid ip) (kret (None, name'))
              | Some (next, _) \<Rightarrow>
                  kseq (iunlockput pid ip) (namex_loop pid path' parent name' next)))))"
  by pat_completeness auto
termination
  by (relation "measure (\<lambda>(pid, path, parent, name, ip). length path)") (auto dest: skipelem_shorter)

declare namex_loop.simps [simp del]

definition namex ::
  "int \<Rightarrow> nat \<Rightarrow> u8 list \<Rightarrow> bool \<Rightarrow> cbuf \<Rightarrow> ('a fsys_scheme, nat option \<times> cbuf) kmon" where
  "namex pid cwd path parent name =
     kbind (if path \<noteq> [] \<and> hd path = slash then iget ROOTDEV ROOTINO else idup cwd)
       (namex_loop pid path parent name)"

text \<open>The name buffer on the stack is not initialised; its contents do not matter.\<close>

definition namei :: "int \<Rightarrow> nat \<Rightarrow> u8 list \<Rightarrow> ('a fsys_scheme, nat option) kmon" where
  "namei pid cwd path = kbind (namex pid cwd path False (\<lambda>_. 0)) (\<lambda>(ip, _). kret ip)"

definition nameiparent :: "int \<Rightarrow> nat \<Rightarrow> u8 list \<Rightarrow> cbuf \<Rightarrow> ('a fsys_scheme, nat option \<times> cbuf) kmon" where
  "nameiparent pid cwd path name = namex pid cwd path True name"

end
