(* ===== verification/Uart.thy ===== *)
theory Uart
  imports Ring
begin

text \<open>
  The UART driver, \<^verbatim>\<open>src/kernel/uart.c\<close>. The transmit buffer is a ring between
  \<^verbatim>\<open>uart_tx_r\<close> and \<^verbatim>\<open>uart_tx_w\<close>. The chip itself is a parameter: \<open>ua_idle\<close> holds its answers
  to the successive reads of \<^verbatim>\<open>LSR_TX_IDLE\<close> (no more answers: busy), \<open>ua_rx\<close> the characters that
  wait in its receive register. Every byte stored into \<^verbatim>\<open>THR\<close> is logged in \<open>ua_thr\<close>, with a
  tag telling whether it came from the transmit buffer or from \<^verbatim>\<open>uartputc_sync\<close>.
\<close>

abbreviation (input) UART_TX_BUF_SIZE :: nat where "UART_TX_BUF_SIZE \<equiv> 32"

record uart =
  ua_buf :: "u8 list"
  ua_w :: u64
  ua_r :: u64
  ua_idle :: "bool list"
  ua_rx :: "u8 list"
  ua_thr :: "(bool \<times> u8) list"
  ua_cfg :: "(nat \<times> u8) list"

text \<open>The register writes of \<^verbatim>\<open>uartinit\<close>, in order: \<^verbatim>\<open>IER\<close> 1, \<^verbatim>\<open>FCR\<close> 2, \<^verbatim>\<open>LCR\<close> 3.\<close>

definition uartinit :: "uart \<Rightarrow> uart" where
  "uartinit u = u\<lparr>ua_cfg := ua_cfg u @ [(1, 0x00), (3, 0x80), (0, 0x03), (1, 0x00), (3, 0x03),
                                        (2, 0x01 OR 0x06), (1, 0x02 OR 0x01)]\<rparr>"

text \<open>
  \<^verbatim>\<open>uartstart\<close>; the second component tells whether waiting writers were woken. Every round
  consumes one answer of the chip, or finds the chip busy.
\<close>

function uartstart :: "uart \<Rightarrow> bool \<Rightarrow> uart \<times> bool" where
  "uartstart u woken =
     (if ua_w u = ua_r u then (u, woken)
      else case ua_idle u of
             [] \<Rightarrow> (u, woken)
           | idle # rest \<Rightarrow>
               if \<not> idle then (u\<lparr>ua_idle := rest\<rparr>, woken)
               else let c = ua_buf u ! slot UART_TX_BUF_SIZE (ua_r u)
                    in uartstart (u\<lparr>ua_idle := rest, ua_r := ua_r u + 1,
                                    ua_thr := ua_thr u @ [(True, c)]\<rparr>) True)"
  by pat_completeness auto
termination
  by (relation "measure (\<lambda>(u, _). length (ua_idle u))") auto

declare uartstart.simps [simp del]

text \<open>
  \<open>None\<close> is a call of \<^verbatim>\<open>sleep(&uart_tx_r, ...)\<close> on a full buffer, after which the loop starts
  again. After a panic on any CPU the function spins forever with the lock held.
\<close>

datatype putc_result = Put_done bool | Put_full | Put_frozen

definition uartputc :: "bool \<Rightarrow> u8 \<Rightarrow> uart \<Rightarrow> putc_result \<times> uart" where
  "uartputc panicked c u =
     (if panicked then (Put_frozen, u)
      else if ua_w u = ua_r u + of_nat UART_TX_BUF_SIZE then (Put_full, u)
      else case uartstart (u\<lparr>ua_buf := (ua_buf u)[slot UART_TX_BUF_SIZE (ua_w u) := c],
                             ua_w := ua_w u + 1\<rparr>) False of
             (u', woken) \<Rightarrow> (Put_done woken, u'))"

text \<open>
  \<^verbatim>\<open>uartputc_sync\<close> waits for the chip to be idle: \<open>dropWhile\<close> over its answers. With no
  further answer it never returns.
\<close>

definition uartputc_sync :: "bool \<Rightarrow> u8 \<Rightarrow> uart \<Rightarrow> uart option" where
  "uartputc_sync panicked c u =
     (if panicked then None
      else case dropWhile (\<lambda>idle. \<not> idle) (ua_idle u) of
             [] \<Rightarrow> None
           | _ # rest \<Rightarrow> Some (u\<lparr>ua_idle := rest, ua_thr := ua_thr u @ [(False, c)]\<rparr>))"

definition uartgetc :: "uart \<Rightarrow> int \<times> uart" where
  "uartgetc u =
     (case ua_rx u of [] \<Rightarrow> (-1, u) | c # cs \<Rightarrow> (uint c, u\<lparr>ua_rx := cs\<rparr>))"

text \<open>
  The input loop of \<^verbatim>\<open>uartintr\<close>: each character goes to \<^verbatim>\<open>consoleintr\<close>, an argument here,
  which works on the caller's state.
\<close>

lemma uartgetc_rx: "uartgetc u = (c, u') \<Longrightarrow> c \<noteq> -1 \<Longrightarrow> length (ua_rx u') < length (ua_rx u)"
  by (auto simp: uartgetc_def split: list.splits)

function uartintr_input :: "(int \<Rightarrow> 's \<Rightarrow> 's) \<Rightarrow> uart \<Rightarrow> 's \<Rightarrow> uart \<times> 's" where
  "uartintr_input consoleintr u s =
     (let (c, u') = uartgetc u
      in if c = -1 then (u', s) else uartintr_input consoleintr u' (consoleintr c s))"
  by pat_completeness auto
termination
proof (relation "measure (\<lambda>(_, u, _). length (ua_rx u))")
  fix consoleintr :: "int \<Rightarrow> 's \<Rightarrow> 's" and u :: uart and s :: 's and x c u'
  assume "x = uartgetc u" "(c, u') = x" "c \<noteq> -1"
  then show "((consoleintr, u', consoleintr c s), consoleintr, u, s)
      \<in> measure (\<lambda>(_, u, _). length (ua_rx u))"
    using uartgetc_rx[of u c u'] by simp
qed simp

declare uartintr_input.simps [simp del]

definition uartintr :: "(int \<Rightarrow> 's \<Rightarrow> 's) \<Rightarrow> uart \<Rightarrow> 's \<Rightarrow> (uart \<times> bool) \<times> 's" where
  "uartintr consoleintr u s =
     (case uartintr_input consoleintr u s of (u', s') \<Rightarrow> (uartstart u' False, s'))"

subsection \<open>The transmit buffer is a queue\<close>

interpretation uring: ring UART_TX_BUF_SIZE "TYPE(64 word)"
proof unfold_locales
  have "(2 :: nat) ^ 64 = 32 * 2 ^ 59" by simp
  then show "UART_TX_BUF_SIZE dvd 2 ^ LENGTH(64)" by simp
qed simp_all

definition uart_pending :: "uart \<Rightarrow> u8 list" where
  "uart_pending u = ring_list UART_TX_BUF_SIZE (ua_buf u) (ua_r u) (ua_w u)"

definition uart_sent :: "uart \<Rightarrow> u8 list" where
  "uart_sent u = map snd (filter fst (ua_thr u))"

definition uart_inv :: "uart \<Rightarrow> bool" where
  "uart_inv u \<longleftrightarrow>
     length (ua_buf u) = UART_TX_BUF_SIZE \<and> unat (ua_w u - ua_r u) \<le> UART_TX_BUF_SIZE"

lemma uart_pending_length: "length (uart_pending u) = unat (ua_w u - ua_r u)"
  by (simp add: uart_pending_def)

lemma uart_take:
  assumes "uart_inv u" "ua_w u \<noteq> ua_r u"
  shows "uart_inv (u\<lparr>ua_idle := rest, ua_r := ua_r u + 1, ua_thr := thr\<rparr>)"
    and "uart_pending u = ua_buf u ! slot UART_TX_BUF_SIZE (ua_r u) #
           uart_pending (u\<lparr>ua_idle := rest, ua_r := ua_r u + 1, ua_thr := thr\<rparr>)"
  using uring.count_pop[OF assms(2)] uring.ring_pop[OF assms(2)] assms(1)
  by (simp_all add: uart_inv_def uart_pending_def)

text \<open>
  \<^verbatim>\<open>uartstart\<close> keeps the invariant and moves bytes, in order, from the buffer to the chip; it
  stops with bytes left only when the chip has answered that it is busy.
\<close>

lemma uartstart_spec:
  "uart_inv u \<Longrightarrow> uartstart u woken = (u', w') \<Longrightarrow>
     uart_inv u' \<and> (\<exists>bs. uart_sent u' = uart_sent u @ bs \<and> uart_pending u = bs @ uart_pending u' \<and>
       (w' \<longleftrightarrow> woken \<or> bs \<noteq> []) \<and>
       (uart_pending u' = [] \<or> (\<exists>n. take n (ua_idle u) = replicate n True \<and> length bs = n \<and>
          (n < length (ua_idle u) \<longrightarrow> \<not> ua_idle u ! n))))"
proof (induction u woken rule: uartstart.induct)
  case (1 u woken)
  note run = "1.prems"(2)[unfolded uartstart.simps[of u woken]]
  show ?case
  proof (cases "ua_w u = ua_r u \<or> (\<exists>rest. ua_idle u = False # rest) \<or> ua_idle u = []")
    case True
    with run "1.prems"(1) show ?thesis
      by (auto simp: uart_inv_def uart_pending_def uart_sent_def intro!: exI[of _ "0 :: nat"] split: if_splits)
  next
    case False
    then obtain rest where rest: "ua_idle u = True # rest" and ne: "ua_w u \<noteq> ua_r u"
      by (cases "ua_idle u") auto
    let ?c = "ua_buf u ! slot UART_TX_BUF_SIZE (ua_r u)"
    let ?u = "u\<lparr>ua_idle := rest, ua_r := ua_r u + 1, ua_thr := ua_thr u @ [(True, ?c)]\<rparr>"
    have tk: "uart_inv ?u" "uart_pending u = ?c # uart_pending ?u"
      by (rule uart_take[OF "1.prems"(1) ne])+
    have run': "uartstart ?u True = (u', w')" using run rest ne by (simp add: Let_def)
    obtain bs where bs: "uart_inv u'" "uart_sent u' = uart_sent ?u @ bs" "uart_pending ?u = bs @ uart_pending u'" "w'"
      "uart_pending u' = [] \<or> (\<exists>n. take n rest = replicate n True \<and> length bs = n \<and>
         (n < length rest \<longrightarrow> \<not> rest ! n))"
      using "1.IH"[of True rest ?c] ne rest tk(1) run' by auto
    have sent: "uart_sent ?u = uart_sent u @ [?c]" by (simp add: uart_sent_def)
    from bs(5) have "uart_pending u' = [] \<or> (\<exists>n. take n (ua_idle u) = replicate n True \<and>
        length (?c # bs) = n \<and> (n < length (ua_idle u) \<longrightarrow> \<not> ua_idle u ! n))"
      using rest by auto
    with bs(1-4) sent tk(2) show ?thesis by (intro conjI exI[of _ "?c # bs"]) simp_all
  qed
qed

lemma uart_put:
  fixes c :: u8
  assumes "uart_inv u" "ua_w u \<noteq> ua_r u + of_nat UART_TX_BUF_SIZE"
  defines "u1 \<equiv> u\<lparr>ua_buf := (ua_buf u)[slot UART_TX_BUF_SIZE (ua_w u) := c], ua_w := ua_w u + 1\<rparr>"
  shows "uart_inv u1" "uart_pending u1 = uart_pending u @ [c]" "uart_sent u1 = uart_sent u"
proof -
  have "ua_w u - ua_r u \<noteq> 32" using assms(2) by (auto simp: algebra_simps)
  then have "unat (ua_w u - ua_r u) \<noteq> 32" by (auto simp: word_unat_eq_iff)
  then have lt: "unat (ua_w u - ua_r u) < UART_TX_BUF_SIZE"
    using assms(1) by (auto simp: uart_inv_def)
  have len: "length (ua_buf u) = UART_TX_BUF_SIZE" using assms(1) by (simp add: uart_inv_def)
  show "uart_inv u1" using uring.count_push[OF lt] lt len by (simp add: uart_inv_def u1_def)
  show "uart_pending u1 = uart_pending u @ [c]"
    using uring.ring_push[OF lt len] by (simp add: uart_pending_def u1_def)
  show "uart_sent u1 = uart_sent u" by (simp add: uart_sent_def u1_def)
qed

lemma uartintr_input_tx:
  "uartintr_input f u s = (u', s') \<Longrightarrow>
     uart_inv u' = uart_inv u \<and> uart_sent u' = uart_sent u \<and> uart_pending u' = uart_pending u"
proof (induction f u s rule: uartintr_input.induct)
  case (1 f u s)
  obtain c u1 where g: "uartgetc u = (c, u1)" by fastforce
  have same: "uart_inv u1 = uart_inv u" "uart_sent u1 = uart_sent u" "uart_pending u1 = uart_pending u"
    using g by (auto simp: uartgetc_def uart_inv_def uart_sent_def uart_pending_def split: list.splits)
  show ?case
  proof (cases "c = -1")
    case True
    with "1.prems" g same show ?thesis by (simp add: uartintr_input.simps)
  next
    case False
    with "1.prems" g have "uartintr_input f u1 (f c s) = (u', s')" by (simp add: uartintr_input.simps[of f u s])
    with "1.IH"[OF g[symmetric] refl False] same show ?thesis by simp
  qed
qed

lemma uartintr_input_idle: "uartintr_input f u s = (u', s') \<Longrightarrow> ua_idle u' = ua_idle u"
proof (induction f u s rule: uartintr_input.induct)
  case (1 f u s)
  obtain c u1 where g: "uartgetc u = (c, u1)" by fastforce
  then have same: "ua_idle u1 = ua_idle u" by (auto simp: uartgetc_def split: list.splits)
  show ?case
    using "1.prems" "1.IH"[OF g[symmetric] refl] g same
    by (cases "c = -1") (simp_all add: uartintr_input.simps[of f u s])
qed

text \<open>
  Writers, the interrupt handler and synchronous output in any order; \<open>acc\<close> collects the
  bytes for which \<^verbatim>\<open>uartputc\<close> returned. The handler of the input characters does not touch the
  transmit buffer; here it just collects them. The chip may change its readiness and receive input at any time.
\<close>

inductive uart_run :: "uart \<Rightarrow> u8 list \<Rightarrow> bool" where
  uart_boot: "length (ua_buf u) = UART_TX_BUF_SIZE \<Longrightarrow> ua_w u = ua_r u \<Longrightarrow> ua_thr u = [] \<Longrightarrow>
     uart_run (uartinit u) []"
| uart_putc: "uart_run u acc \<Longrightarrow> uartputc panicked c u = (Put_done w, u') \<Longrightarrow>
     uart_run u' (acc @ [c])"
| uart_sync: "uart_run u acc \<Longrightarrow> uartputc_sync panicked c u = Some u' \<Longrightarrow> uart_run u' acc"
| uart_intr: "uart_run u acc \<Longrightarrow> uartintr (\<lambda>c cs. cs @ [c]) u [] = ((u', w), chars) \<Longrightarrow>
     uart_run u' acc"
| uart_chip: "uart_run u acc \<Longrightarrow> uart_run (u\<lparr>ua_idle := idle, ua_rx := rx\<rparr>) acc"

lemma uart_run_inv: "uart_run u acc \<Longrightarrow> uart_inv u \<and> uart_sent u @ uart_pending u = acc"
proof (induction rule: uart_run.induct)
  case (uart_boot u)
  then show ?case by (simp add: uartinit_def uart_inv_def uart_sent_def uart_pending_def)
next
  case (uart_putc u acc panicked c w u')
  then have nf: "ua_w u \<noteq> ua_r u + of_nat UART_TX_BUF_SIZE" and
    st: "uartstart (u\<lparr>ua_buf := (ua_buf u)[slot UART_TX_BUF_SIZE (ua_w u) := c], ua_w := ua_w u + 1\<rparr>) False = (u', w)"
    by (auto simp: uartputc_def split: if_splits prod.splits)
  note p = uart_put[OF conjunct1[OF uart_putc.IH] nf, of c]
  from uartstart_spec[OF p(1) st] p(2,3) uart_putc.IH show ?case by auto
next
  case (uart_sync u acc panicked c u')
  then show ?case
    by (auto simp: uartputc_sync_def uart_inv_def uart_sent_def uart_pending_def split: if_splits list.splits)
next
  case (uart_intr u acc u' w chars)
  then obtain u1 where "uartintr_input (\<lambda>c cs. cs @ [c]) u [] = (u1, chars)" and
    st: "uartstart u1 False = (u', w)"
    by (auto simp: uartintr_def split: prod.splits)
  with uartintr_input_tx[of "\<lambda>c cs. cs @ [c]" u "[]" u1 chars] uart_intr.IH
  have "uart_inv u1" "uart_sent u1 @ uart_pending u1 = acc" by auto
  with uartstart_spec[OF _ st] show ?case by auto
next
  case (uart_chip u acc idle rx)
  then show ?case by (simp add: uart_inv_def uart_sent_def uart_pending_def)
qed

text \<open>
  C29: Through any interleaving of \<^verbatim>\<open>uartputc\<close>, \<^verbatim>\<open>uartputc_sync\<close> and \<^verbatim>\<open>uartintr\<close>, with the
  chip changing its readiness in between, the bytes that have left the transmit buffer followed
  by the bytes still in it are exactly the bytes that writers have handed over, in that order,
  and the buffer never holds more than 32. When the chip is idle at every read, the
  interrupt handler empties the buffer and wakes the waiting writers.
\<close>

theorem uart_fifo:
  assumes "uart_run u acc"
  shows "uart_sent u @ uart_pending u = acc \<and> length (uart_pending u) \<le> UART_TX_BUF_SIZE \<and>
    (\<forall>idle f s u' w s'. 32 \<le> length idle \<and> list_all id idle \<and>
       uartintr f (u\<lparr>ua_idle := idle\<rparr>) s = ((u', w), s') \<longrightarrow>
       uart_sent u' = acc \<and> uart_pending u' = [] \<and> (w \<longleftrightarrow> uart_pending u \<noteq> []))"
proof (intro conjI allI impI)
  note inv = uart_run_inv[OF assms]
  then show "uart_sent u @ uart_pending u = acc" by simp
  from inv show len: "length (uart_pending u) \<le> UART_TX_BUF_SIZE"
    by (simp add: uart_inv_def uart_pending_length)
  fix idle and f :: "int \<Rightarrow> 'a \<Rightarrow> 'a" and s u' w s'
  assume a: "32 \<le> length idle \<and> list_all id idle \<and> uartintr f (u\<lparr>ua_idle := idle\<rparr>) s = ((u', w), s')"
  let ?u = "u\<lparr>ua_idle := idle\<rparr>"
  have u: "uart_inv ?u" "uart_sent ?u = uart_sent u" "uart_pending ?u = uart_pending u"
    using inv by (simp_all add: uart_inv_def uart_sent_def uart_pending_def)
  obtain u1 where i1: "uartintr_input f ?u s = (u1, s')" and st: "uartstart u1 False = (u', w)"
    using a by (auto simp: uartintr_def split: prod.splits)
  have u1: "uart_inv u1" "uart_sent u1 = uart_sent u" "uart_pending u1 = uart_pending u"
    using uartintr_input_tx[OF i1] u by simp_all
  have idle: "ua_idle u1 = idle"
    using uartintr_input_idle[OF i1] by simp
  from uartstart_spec[OF u1(1) st] obtain bs where bs: "uart_sent u' = uart_sent u @ bs"
    "uart_pending u = bs @ uart_pending u'" "w \<longleftrightarrow> bs \<noteq> []"
    "uart_pending u' = [] \<or> (length bs < length idle \<longrightarrow> \<not> idle ! length bs)"
    using u1 idle by auto
  have "length bs < 32" if "uart_pending u' \<noteq> []"
    using len that by (cases "uart_pending u'") (simp_all add: bs(2))
  with bs(4) a have e: "uart_pending u' = []" by (fastforce simp: list_all_length)
  then show "uart_pending u' = []" .
  from e bs inv show "uart_sent u' = acc" "w \<longleftrightarrow> uart_pending u \<noteq> []" by auto
qed

definition uart0 :: uart where
  "uart0 = \<lparr>ua_buf = replicate 32 0, ua_w = 0, ua_r = 0, ua_idle = [False], ua_rx = [], ua_thr = [], ua_cfg = []\<rparr>"

lemma uart_run_example: "uart_run (snd (uartputc False 65 (uartinit uart0))) [65]"
proof -
  have b: "uart_run (uartinit uart0) []" by (rule uart_boot) (simp_all add: uart0_def)
  obtain w u' where p: "uartputc False 65 (uartinit uart0) = (Put_done w, u')"
    by (fastforce simp: uartputc_def uartinit_def uart0_def split: prod.splits)
  from uart_putc[OF b p] show ?thesis by (simp add: p)
qed

theorem uart_fifo_witness:
  "uart_run (snd (uartputc False 65 (uartinit uart0))) [65] \<and>
   uart_sent (snd (uartputc False 65 (uartinit uart0))) @
     uart_pending (snd (uartputc False 65 (uartinit uart0))) = [65]"
  using uart_fifo[OF uart_run_example] uart_run_example by blast

end
