(* ===== verification/Printf.thy ===== *)
theory Printf
  imports Riscv
begin

text \<open>
  Formatted output: \<^verbatim>\<open>src/kernel/printf.c\<close> and \<^verbatim>\<open>src/user/printf.c\<close>. Output is the list of
  bytes handed to \<^verbatim>\<open>consputc\<close> or \<^verbatim>\<open>putc\<close>. A format is the list of bytes before the terminating
  zero, the variable arguments are the 64-bit registers they are passed in, and \<open>str\<close> gives the
  string at an address.
\<close>

definition bytes :: "string \<Rightarrow> u8 list" where
  "bytes = map of_char"

definition kdigits :: "u8 list" where
  "kdigits = bytes ''0123456789abcdef''"

definition udigits :: "u8 list" where
  "udigits = bytes ''0123456789ABCDEF''"

lemma div_shrinks: "2 \<le> b \<Longrightarrow> x div b \<noteq> 0 \<Longrightarrow> x div b < (x :: nat)"
  by (rule div_less_dividend) (auto intro: Nat.gr0I)

text \<open>The loop \<^verbatim>\<open>do { buf[i++] = digits[x % base]; } while((x /= base) != 0)\<close>.\<close>

function digit_loop :: "u8 list \<Rightarrow> nat \<Rightarrow> nat \<Rightarrow> u8 list" where
  "digit_loop digits base x =
     digits ! (x mod base) # (if 2 \<le> base \<and> x div base \<noteq> 0 then digit_loop digits base (x div base) else [])"
  by pat_completeness auto
termination
  by (relation "measure (\<lambda>(digits, base, x). x)") (auto dest: div_shrinks)

declare digit_loop.simps [simp del]

definition printint_buf :: "u8 list \<Rightarrow> u32 \<Rightarrow> nat \<Rightarrow> bool \<Rightarrow> u8 list" where
  "printint_buf digits xx base sign =
     (let neg = (sign \<and> sint xx < 0); x = (if neg then - xx else xx)
      in digit_loop digits base (unat x) @ (if neg then [45] else []))"

subsection \<open>Kernel printf\<close>

definition printint :: "u32 \<Rightarrow> nat \<Rightarrow> bool \<Rightarrow> u8 list" where
  "printint xx base sign = rev (printint_buf kdigits xx base sign)"

fun hex_loop :: "u8 list \<Rightarrow> nat \<Rightarrow> u64 \<Rightarrow> u8 list" where
  "hex_loop digits 0 x = []"
| "hex_loop digits (Suc n) x = digits ! unat (drop_bit 60 x) # hex_loop digits n (push_bit 4 x)"

definition printptr :: "u64 \<Rightarrow> u8 list" where
  "printptr x = [48, 120] @ hex_loop kdigits 16 x"

definition c_string :: "(u64 \<Rightarrow> u8 list) \<Rightarrow> u64 \<Rightarrow> u8 list" where
  "c_string str p = (if p = 0 then bytes ''(null)'' else str p)"

text \<open>\<open>None\<close>: more conversions than arguments, where \<^verbatim>\<open>va_arg\<close> is undefined.\<close>

fun printf :: "(u64 \<Rightarrow> u8 list) \<Rightarrow> u8 list \<Rightarrow> u64 list \<Rightarrow> u8 list option" where
  "printf str [] ap = Some []"
| "printf str [c] ap = (if c \<noteq> 37 then Some [c] else Some [])"
| "printf str (c # c2 # cs) ap =
     (if c \<noteq> 37 then map_option ((#) c) (printf str (c2 # cs) ap)
      else if c2 = 100 then
        (case ap of [] \<Rightarrow> None
         | a # ap' \<Rightarrow> map_option ((@) (printint (ucast a) 10 True)) (printf str cs ap'))
      else if c2 = 120 then
        (case ap of [] \<Rightarrow> None
         | a # ap' \<Rightarrow> map_option ((@) (printint (ucast a) 16 True)) (printf str cs ap'))
      else if c2 = 112 then
        (case ap of [] \<Rightarrow> None
         | a # ap' \<Rightarrow> map_option ((@) (printptr a)) (printf str cs ap'))
      else if c2 = 115 then
        (case ap of [] \<Rightarrow> None
         | a # ap' \<Rightarrow> map_option ((@) (c_string str a)) (printf str cs ap'))
      else if c2 = 37 then map_option ((#) 37) (printf str cs ap)
      else map_option ((@) [37, c2]) (printf str cs ap))"

subsection \<open>User-level printf\<close>

definition uprintint :: "u32 \<Rightarrow> nat \<Rightarrow> bool \<Rightarrow> u8 list" where
  "uprintint xx base sg = rev (printint_buf udigits xx base sg)"

definition uprintptr :: "u64 \<Rightarrow> u8 list" where
  "uprintptr x = [48, 120] @ hex_loop udigits 16 x"

text \<open>The first argument is the variable \<^verbatim>\<open>state\<close>: whether the last byte was a percent sign.\<close>

fun vprintf :: "bool \<Rightarrow> (u64 \<Rightarrow> u8 list) \<Rightarrow> u8 list \<Rightarrow> u64 list \<Rightarrow> u8 list option" where
  "vprintf state str [] ap = Some []"
| "vprintf False str (c # cs) ap =
     (if c = 37 then vprintf True str cs ap else map_option ((#) c) (vprintf False str cs ap))"
| "vprintf True str (c # cs) ap =
     (if c \<in> {100, 108, 120, 112, 115, 99} then
        (case ap of [] \<Rightarrow> None
         | a # ap' \<Rightarrow> map_option ((@)
             (if c = 100 then uprintint (ucast a) 10 True
              else if c = 108 then uprintint (ucast a) 10 False
              else if c = 120 then uprintint (ucast a) 16 False
              else if c = 112 then uprintptr a
              else if c = 115 then c_string str a
              else [ucast a])) (vprintf False str cs ap'))
      else if c = 37 then map_option ((#) c) (vprintf False str cs ap)
      else map_option ((@) [37, c]) (vprintf False str cs ap))"

definition fprintf :: "(u64 \<Rightarrow> u8 list) \<Rightarrow> u8 list \<Rightarrow> u64 list \<Rightarrow> u8 list option" where
  "fprintf str fmt ap = vprintf False str fmt ap"

subsection \<open>Numbers are printed correctly\<close>

text \<open>The value of a digit character of either table, and of a numeral.\<close>

definition digit_val :: "u8 \<Rightarrow> nat" where
  "digit_val c =
     (if 48 \<le> c \<and> c \<le> 57 then unat c - 48
      else if 97 \<le> c \<and> c \<le> 102 then unat c - 87
      else if 65 \<le> c \<and> c \<le> 70 then unat c - 55 else 16)"

definition numeral_val :: "nat \<Rightarrow> u8 list \<Rightarrow> nat" where
  "numeral_val base ds = foldl (\<lambda>a d. a * base + digit_val d) 0 ds"

definition read_int :: "nat \<Rightarrow> u8 list \<Rightarrow> int" where
  "read_int base s = (case s of [] \<Rightarrow> 0
     | c # cs \<Rightarrow> if c = 45 then - int (numeral_val base cs) else int (numeral_val base s))"

definition digit_table :: "u8 list \<Rightarrow> bool" where
  "digit_table ds \<longleftrightarrow> (\<forall>d<16. digit_val (ds ! d) = d \<and> ds ! d \<noteq> 45)"

lemma less_16: "d < 16 \<longleftrightarrow> d \<in> {0, 1, 2, 3, 4, 5, 6, 7, 8, 9, 10, 11, 12, 13, 14, 15 :: nat}"
  by (simp only: insert_iff empty_iff) presburger

lemma digit_tables [simp]: "digit_table kdigits" "digit_table udigits"
  unfolding digit_table_def less_16 kdigits_def udigits_def
  by (auto simp: bytes_def digit_val_def)

lemma numeral_val_snoc: "numeral_val base (ds @ [d]) = numeral_val base ds * base + digit_val d"
  by (simp add: numeral_val_def)

lemma numeral_val_digits:
  assumes "digit_table ds" "2 \<le> base" "base \<le> 16"
  shows "numeral_val base (rev (digit_loop ds base x)) = x"
proof (induction x rule: less_induct)
  case (less x)
  have "x mod base < 16" using assms(2,3) mod_less_divisor[of base x] by linarith
  then have d: "digit_val (ds ! (x mod base)) = x mod base" using assms(1) by (simp add: digit_table_def)
  show ?case
  proof (cases "x div base = 0")
    case True
    then have "x mod base = x" using assms(2) by (metis div_mult_mod_eq add_0 mult_0)
    with True d show ?thesis by (simp add: digit_loop.simps[of ds base x] numeral_val_def)
  next
    case False
    then have "x div base < x" using assms(2) by (simp add: div_shrinks)
    from less[OF this] d False assms(2) show ?thesis
      by (simp add: digit_loop.simps[of ds base x] numeral_val_snoc)
  qed
qed

lemma digit_loop_chars:
  assumes "digit_table ds" "2 \<le> base" "base \<le> 16"
  shows "45 \<notin> set (digit_loop ds base x)"
proof (induction x rule: less_induct)
  case (less x)
  have "x mod base < 16" using assms(2,3) mod_less_divisor[of base x] by linarith
  then have "ds ! (x mod base) \<noteq> 45" using assms(1) by (simp add: digit_table_def)
  moreover have "x div base < x" if "x div base \<noteq> 0" using assms(2) that by (rule div_shrinks)
  ultimately show ?case using less by (auto simp: digit_loop.simps[of ds base x])
qed

lemma digit_loop_length:
  assumes "2 \<le> base" "x < base ^ n" "0 < n"
  shows "length (digit_loop ds base x) \<le> n"
  using assms(2,3)
proof (induction n arbitrary: x)
  case 0
  then show ?case by simp
next
  case (Suc n)
  show ?case
  proof (cases "x div base = 0")
    case True
    then show ?thesis by (simp add: digit_loop.simps[of ds base x])
  next
    case False
    then have "base \<le> x" by (metis div_less not_le)
    then have "0 < n" using Suc.prems(1) by (cases n) auto
    moreover have "x div base < base ^ n"
      using Suc.prems(1) assms(1) by (simp add: less_mult_imp_div_less mult.commute)
    ultimately show ?thesis using Suc.IH by (subst digit_loop.simps) auto
  qed
qed

lemma take_bit_uint32: "take_bit 32 (uint (w :: u32)) = uint w"
  using uint_lt2p[of w] by (simp add: take_bit_int_eq_self)

text \<open>The absolute value of an \<^verbatim>\<open>int\<close>, negated in unsigned arithmetic.\<close>

lemma unat_minus_sint:
  fixes w :: u32
  assumes "sint w < 0"
  shows "int (unat (- w)) = - sint w"
proof -
  have s: "sint w = uint w - 4294967296 * of_bool (bit (uint w) 31)"
    by (simp add: sint_uint signed_take_bit_eq_take_bit_minus take_bit_uint32)
  have u: "0 \<le> uint w" "uint w < 4294967296" using uint_lt2p[of w] by simp_all
  from s u assms have w: "sint w = uint w - 4294967296" by (cases "bit (uint w) 31") auto
  with assms u have "w \<noteq> 0" by auto
  then have "uint w \<noteq> 0" by (simp add: uint_0_iff)
  then have "uint (- w) = 4294967296 - uint w"
    using u by (simp add: uint_word_ariths zmod_zminus1_eq_if)
  with w show ?thesis by simp
qed

lemma sint_nonneg_unat:
  fixes w :: u32
  assumes "0 \<le> sint w"
  shows "int (unat w) = sint w"
proof -
  have s: "sint w = uint w - 4294967296 * of_bool (bit (uint w) 31)"
    by (simp add: sint_uint signed_take_bit_eq_take_bit_minus take_bit_uint32)
  have "uint w < 4294967296" using uint_lt2p[of w] by simp
  with s assms show ?thesis by (cases "bit (uint w) 31") auto
qed

lemma printint_buf_reads_back:
  assumes "digit_table ds" "2 \<le> base" "base \<le> 16"
  shows "read_int base (rev (printint_buf ds xx base sign)) = (if sign then sint xx else uint xx)"
proof -
  have *: "read_int base (rev (digit_loop ds base x)) = int x" for x
  proof -
    obtain c cs where "rev (digit_loop ds base x) = c # cs"
      by (metis digit_loop.simps list.exhaust list.distinct(1) rev_is_Nil_conv)
    moreover from this have "c \<noteq> 45" using digit_loop_chars[OF assms, of x]
      by (metis list.set_intros(1) set_rev)
    ultimately show ?thesis
      using numeral_val_digits[OF assms, of x] by (simp add: read_int_def)
  qed
  show ?thesis
  proof (cases "sign \<and> sint xx < 0")
    case True
    then show ?thesis
      using numeral_val_digits[OF assms, of "unat (- xx)"] unat_minus_sint[of xx]
      by (simp add: printint_buf_def read_int_def)
  next
    case False
    then show ?thesis using *[of "unat xx"] sint_nonneg_unat[of xx]
      by (auto simp: printint_buf_def)
  qed
qed

lemma printint_buf_length:
  assumes "10 \<le> base" shows "length (printint_buf ds xx base sign) \<le> 11"
proof -
  have "length (digit_loop ds base x) \<le> 10" if "x < 4294967296" for x
  proof (rule digit_loop_length)
    have "(10 :: nat) ^ 10 \<le> base ^ 10" using assms by (rule power_mono) simp
    with that show "x < base ^ 10" by simp
  qed (use assms in simp_all)
  from this[OF unat_u32[of xx]] this[OF unat_u32[of "- xx"]] show ?thesis
    by (simp add: printint_buf_def Let_def le_SucI)
qed

text \<open>Sixteen hexadecimal digits of a pointer.\<close>

lemma nibble_split:
  fixes u n :: nat
  assumes "u < 2 ^ 64" "n \<le> 15"
  shows "u div 2 ^ (60 - 4 * n) = u div 2 ^ 60 * 16 ^ n + u * 16 mod 2 ^ 64 div 2 ^ (64 - 4 * n)"
proof -
  define k where "k = 60 - 4 * n"
  define q r where "q = u div 2 ^ 60" and "r = u mod 2 ^ 60"
  have u: "u = q * 2 ^ 60 + r" by (simp add: q_def r_def)
  have r: "r < 2 ^ 60" and q: "q < 16" using assms(1) by (auto simp: q_def r_def)
  have "(16 :: nat) ^ n * 2 ^ k = 2 ^ (4 * n + k)" by (simp add: power_add power_mult)
  moreover have "4 * n + k = 60" "64 - 4 * n = k + 4" using assms(2) by (simp_all add: k_def)
  ultimately have e: "(2 :: nat) ^ 60 = 16 ^ n * 2 ^ k" "64 - 4 * n = k + 4" by simp_all
  have "u div 2 ^ k = q * 16 ^ n + r div 2 ^ k"
    unfolding u e(1) mult.assoc[symmetric] by simp
  moreover have "u * 16 mod 2 ^ 64 = r * 16"
  proof -
    have "u * 16 = r * 16 + q * 2 ^ 64" by (simp add: u algebra_simps)
    then have "u * 16 mod 2 ^ 64 = r * 16 mod 2 ^ 64" by simp
    then show ?thesis using r by simp
  qed
  moreover have "r * 16 div 2 ^ (k + 4) = r div 2 ^ k"
    by (simp add: power_add div_mult2_eq[symmetric] mult.commute)
  ultimately show ?thesis by (simp add: q_def k_def[symmetric] e(2))
qed

lemma hex_loop_val:
  assumes "digit_table ds" "n \<le> 16"
  shows "foldl (\<lambda>a d. a * 16 + digit_val d) a (hex_loop ds n x) =
    a * 16 ^ n + unat x div 2 ^ (64 - 4 * n)"
  using assms(2)
proof (induction n arbitrary: a x)
  case 0
  then show ?case using unat_u64[of x] by simp
next
  case (Suc n)
  have top: "unat (drop_bit 60 x) = unat x div 2 ^ 60" unfolding unat_drop_bit_eq by (rule drop_bit_eq_div)
  have "unat x div 2 ^ 60 < 16" using unat_u64[of x] by simp
  then have dv: "digit_val (ds ! (unat x div 1152921504606846976)) = unat x div 1152921504606846976"
    using assms(1) by (simp add: digit_table_def)
  have sh: "unat (push_bit 4 x) = unat x * 16 mod 2 ^ 64"
    by (simp add: push_bit_eq_mult unat_word_ariths mult.commute)
  show ?case
    using Suc.IH[of "a * 16 + unat x div 2 ^ 60" "push_bit 4 x"] Suc.prems nibble_split[of "unat x" n] unat_u64[of x]
    by (simp add: top dv sh algebra_simps)
qed

text \<open>
  C31: \<^verbatim>\<open>printint\<close> (kernel and user) prints a numeral that reads back as the signed value of
  its argument (or the unsigned one when \<^verbatim>\<open>sign\<close> is 0), for every 32-bit argument including
  \<^verbatim>\<open>INT_MIN\<close>, and never stores more than 11 bytes into its 16-byte buffer; \<^verbatim>\<open>printptr\<close> prints
  \<^verbatim>\<open>0x\<close> and exactly 16 digits that read back as the pointer.
\<close>

theorem printint_reads_back:
  "read_int 10 (printint xx 10 sign) = (if sign then sint xx else uint xx) \<and>
   read_int 16 (printint xx 16 sign) = (if sign then sint xx else uint xx) \<and>
   read_int 10 (uprintint xx 10 sign) = (if sign then sint xx else uint xx) \<and>
   read_int 16 (uprintint xx 16 sign) = (if sign then sint xx else uint xx) \<and>
   length (printint xx 10 sign) \<le> 11 \<and> length (printint xx 16 sign) \<le> 11 \<and>
   take 2 (printptr p) = bytes ''0x'' \<and> length (printptr p) = 18 \<and>
   numeral_val 16 (drop 2 (printptr p)) = unat p"
proof -
  have len: "length (hex_loop ds n x) = n" for ds n x by (induction n arbitrary: x) auto
  have "numeral_val 16 (hex_loop kdigits 16 p) = unat p"
    using hex_loop_val[of kdigits 16 0 p] by (simp add: numeral_val_def)
  then show ?thesis
    using printint_buf_length[of 10 kdigits xx sign] printint_buf_length[of 16 kdigits xx sign] len[of kdigits 16 p]
    by (simp add: printint_def uprintint_def printint_buf_reads_back printptr_def bytes_def)
qed

subsection \<open>The two printfs agree\<close>

text \<open>Decimal digits are the same characters in both tables.\<close>

lemma digit_loop_decimal: "digit_loop kdigits 10 x = digit_loop udigits 10 x"
proof (induction x rule: less_induct)
  case (less x)
  have "kdigits ! d = udigits ! d" if "d < 10" for d :: nat
  proof -
    have "d \<in> {0, 1, 2, 3, 4, 5, 6, 7, 8, 9}" using that by (simp only: insert_iff empty_iff) presburger
    then show ?thesis by (auto simp: kdigits_def udigits_def bytes_def)
  qed
  then have "kdigits ! (x mod 10) = udigits ! (x mod 10)" by simp
  with less[of "x div 10"] div_shrinks[of 10 x] show ?case
    by (simp add: digit_loop.simps[of kdigits 10 x] digit_loop.simps[of udigits 10 x])
qed

lemma printint_decimal: "printint xx 10 sign = uprintint xx 10 sign"
  by (simp add: printint_def uprintint_def printint_buf_def digit_loop_decimal)

text \<open>Formats whose conversions are \<^verbatim>\<open>%d\<close>, \<^verbatim>\<open>%s\<close>, \<^verbatim>\<open>%%\<close> and conversions neither function knows.\<close>

fun plain_format :: "u8 list \<Rightarrow> bool" where
  "plain_format [] = True"
| "plain_format [c] = True"
| "plain_format (c # c2 # cs) =
     (if c = 37 then c2 \<notin> {120, 112, 108, 99} \<and> plain_format cs else plain_format (c2 # cs))"

text \<open>
  C32: On every format whose conversions are \<^verbatim>\<open>%d\<close>, \<^verbatim>\<open>%s\<close>, \<^verbatim>\<open>%%\<close> or unknown letters, the
  kernel's \<^verbatim>\<open>printf\<close>, which looks ahead in the format, and the user library's \<^verbatim>\<open>vprintf\<close>, a state
  machine over its bytes, print the same text (a percent sign at the very end prints nothing in both).
\<close>

theorem printf_equals_vprintf:
  "plain_format fmt \<Longrightarrow> printf str fmt ap = fprintf str fmt ap"
proof -
  have "plain_format fmt \<Longrightarrow> printf str fmt ap = vprintf False str fmt ap"
    by (induction str fmt ap rule: printf.induct)
       (auto simp: printint_decimal split: if_splits list.splits)
  then show "plain_format fmt \<Longrightarrow> printf str fmt ap = fprintf str fmt ap" by (simp add: fprintf_def)
qed

theorem printf_equals_vprintf_witness:
  "plain_format (bytes ''usertests: %d%%'') \<and>
   printf (\<lambda>_. []) (bytes ''usertests: %d%%'') [7] = fprintf (\<lambda>_. []) (bytes ''usertests: %d%%'') [7]"
  using printf_equals_vprintf[of "bytes ''usertests: %d%%''" "\<lambda>_. []" "[7]"] by (simp add: bytes_def)

end
