(* ===== verification/Console.thy ===== *)
theory Console
  imports Pipe Uart Printf
begin

text \<open>
  The console line discipline, \<^verbatim>\<open>src/kernel/console.c\<close>. The input buffer is a ring with three
  counters: \<^verbatim>\<open>r\<close> where \<^verbatim>\<open>consoleread\<close> takes bytes, \<^verbatim>\<open>w\<close> the end of the committed
  lines, \<^verbatim>\<open>e\<close> the end of the line being edited. The second half shows that it implements the
  obvious editor on two lists, the committed input and the current line.
\<close>

abbreviation (input) INPUT_BUF :: nat where "INPUT_BUF \<equiv> 128"
abbreviation (input) BACKSPACE :: int where "BACKSPACE \<equiv> 0x100"

record cons =
  cn_buf :: "u8 list"
  cn_r :: u32
  cn_w :: u32
  cn_e :: u32

text \<open>The bytes \<^verbatim>\<open>consputc\<close> sends through \<^verbatim>\<open>uartputc_sync\<close>.\<close>

definition consputc :: "int \<Rightarrow> u8 list" where
  "consputc c = (if c = BACKSPACE then [8, 32, 8] else [of_int c])"

text \<open>
  \<^verbatim>\<open>consolewrite\<close>: \<open>CBlocks\<close> is the call of \<^verbatim>\<open>sleep\<close> inside \<^verbatim>\<open>uartputc\<close>. The flag tells
  whether writers that wait for room in the transmit buffer were woken.
\<close>

datatype cresult = CReturns int | CBlocks u64 int

function consolewrite_loop ::
  "'s copyin1 \<Rightarrow> bool \<Rightarrow> u64 \<Rightarrow> int \<Rightarrow> int \<Rightarrow> bool \<Rightarrow> uart \<Rightarrow> 's \<Rightarrow> cresult \<times> bool \<times> uart \<times> 's" where
  "consolewrite_loop copyin panicked src n i woken u s =
     (if i < n then
        (case copyin (src + of_int i) s of
           (None, s') \<Rightarrow> (CReturns i, woken, u, s')
         | (Some c, s') \<Rightarrow>
             (case uartputc panicked c u of
                (Put_done w, u') \<Rightarrow>
                  consolewrite_loop copyin panicked src n (i + 1) (woken \<or> w) u' s'
              | (_, u') \<Rightarrow> (CBlocks (src + of_int i) i, woken, u', s')))
      else (CReturns i, woken, u, s))"
  by pat_completeness auto
termination
  by (relation "measure (\<lambda>(_, _, _, n, i, _, _, _). nat (n - i))") auto

definition consolewrite ::
  "'s copyin1 \<Rightarrow> bool \<Rightarrow> u64 \<Rightarrow> int \<Rightarrow> uart \<Rightarrow> 's \<Rightarrow> cresult \<times> bool \<times> uart \<times> 's" where
  "consolewrite copyin panicked src n u s = consolewrite_loop copyin panicked src n 0 False u s"

text \<open>\<open>target\<close> is the number of bytes asked for, \<open>n\<close> the number still missing.\<close>

function consoleread_loop ::
  "'s copyout1 \<Rightarrow> bool \<Rightarrow> int \<Rightarrow> u64 \<Rightarrow> int \<Rightarrow> cons \<Rightarrow> 's \<Rightarrow> cresult \<times> cons \<times> 's" where
  "consoleread_loop copyout killed target dst n c s =
     (if n > 0 then
        (if cn_r c = cn_w c
         then (if killed then (CReturns (-1), c, s) else (CBlocks dst n, c, s))
         else let ch = cn_buf c ! slot INPUT_BUF (cn_r c); c1 = c\<lparr>cn_r := cn_r c + 1\<rparr>
              in if ch = 4
                 then (CReturns (target - n), if n < target then c1\<lparr>cn_r := cn_r c1 - 1\<rparr> else c1, s)
                 else (case copyout dst ch s of
                         (False, s') \<Rightarrow> (CReturns (target - n), c1, s')
                       | (True, s') \<Rightarrow>
                           if ch = 10 then (CReturns (target - (n - 1)), c1, s')
                           else consoleread_loop copyout killed target (dst + 1) (n - 1) c1 s'))
      else (CReturns (target - n), c, s))"
  by pat_completeness auto
termination
  by (relation "measure (\<lambda>(_, _, _, _, n, _, _). nat n)") auto

definition consoleread ::
  "'s copyout1 \<Rightarrow> bool \<Rightarrow> u64 \<Rightarrow> int \<Rightarrow> cons \<Rightarrow> 's \<Rightarrow> cresult \<times> cons \<times> 's" where
  "consoleread copyout killed dst n c s = consoleread_loop copyout killed n dst n c s"

declare consolewrite_loop.simps [simp del] consoleread_loop.simps [simp del]

text \<open>
  \<^verbatim>\<open>consoleintr\<close> returns the bytes it echoes, the new buffer and whether it wakes readers.
  The text that \<^verbatim>\<open>procdump\<close> prints on control-P is an argument.
\<close>

function kill_line :: "cons \<Rightarrow> u8 list \<Rightarrow> u8 list \<times> cons" where
  "kill_line c out =
     (if cn_e c \<noteq> cn_w c \<and> cn_buf c ! slot INPUT_BUF (cn_e c - 1) \<noteq> 10
      then kill_line (c\<lparr>cn_e := cn_e c - 1\<rparr>) (out @ consputc BACKSPACE)
      else (out, c))"
  by pat_completeness auto
termination
proof (relation "measure (\<lambda>(c, out). unat (cn_e c - cn_w c))")
  fix c :: cons and out :: "u8 list"
  assume "cn_e c \<noteq> cn_w c \<and> cn_buf c ! slot INPUT_BUF (cn_e c - 1) \<noteq> 10"
  then have "cn_e c - cn_w c \<noteq> 0" by simp
  then have "unat (cn_e c - cn_w c - 1) < unat (cn_e c - cn_w c)"
    by (simp add: unat_minus_one unat_gt_0)
  then show "((c\<lparr>cn_e := cn_e c - 1\<rparr>, out @ consputc BACKSPACE), c, out)
      \<in> measure (\<lambda>(c, out). unat (cn_e c - cn_w c))"
    by (simp add: algebra_simps)
qed simp

declare kill_line.simps [simp del]

definition consoleintr :: "u8 list \<Rightarrow> u8 \<Rightarrow> cons \<Rightarrow> u8 list \<times> cons \<times> bool" where
  "consoleintr dump c0 c =
     (if c0 = 16 then (dump, c, False)
      else if c0 = 21 then (case kill_line c [] of (out, c') \<Rightarrow> (out, c', False))
      else if c0 = 8 \<or> c0 = 0x7f then
        (if cn_e c \<noteq> cn_w c then (consputc BACKSPACE, c\<lparr>cn_e := cn_e c - 1\<rparr>, False) else ([], c, False))
      else if c0 \<noteq> 0 \<and> cn_e c - cn_r c < of_nat INPUT_BUF then
        (let ch = (if c0 = 13 then 10 else c0);
             c1 = c\<lparr>cn_buf := (cn_buf c)[slot INPUT_BUF (cn_e c) := ch], cn_e := cn_e c + 1\<rparr>
         in if ch = 10 \<or> ch = 4 \<or> cn_e c1 = cn_r c1 + of_nat INPUT_BUF
            then (consputc (uint ch), c1\<lparr>cn_w := cn_e c1\<rparr>, True)
            else (consputc (uint ch), c1, False))
      else ([], c, False))"

lemma consputc_char [simp]: "consputc (uint (c :: u8)) = [c]"
  using uint_lt2p[of c] by (simp add: consputc_def)

subsection \<open>The editor it implements\<close>

text \<open>The committed input and the line being edited.\<close>

definition committed :: "cons \<Rightarrow> u8 list" where
  "committed c = ring_list INPUT_BUF (cn_buf c) (cn_r c) (cn_w c)"

definition editing :: "cons \<Rightarrow> u8 list" where
  "editing c = ring_list INPUT_BUF (cn_buf c) (cn_w c) (cn_e c)"

definition spec_key :: "u8 \<Rightarrow> u8 list \<times> u8 list \<Rightarrow> u8 list \<times> u8 list" where
  "spec_key c0 = (\<lambda>(lines, line).
     if c0 = 16 then (lines, line)
     else if c0 = 21 then (lines, [])
     else if c0 = 8 \<or> c0 = 0x7f then (lines, butlast line)
     else if c0 = 0 \<or> 128 \<le> length lines + length line then (lines, line)
     else let ch = (if c0 = 13 then 10 else c0)
          in if ch = 10 \<or> ch = 4 \<or> length lines + length line = 127
             then (lines @ line @ [ch], []) else (lines, line @ [ch]))"

text \<open>The bytes one key echoes; erasing a character prints backspace, space, backspace.\<close>

definition spec_echo :: "u8 list \<Rightarrow> u8 \<Rightarrow> u8 list \<times> u8 list \<Rightarrow> u8 list" where
  "spec_echo dump c0 = (\<lambda>(lines, line).
     if c0 = 16 then dump
     else if c0 = 21 then concat (replicate (length line) [8, 32, 8])
     else if c0 = 8 \<or> c0 = 0x7f then (if line = [] then [] else [8, 32, 8])
     else if c0 = 0 \<or> 128 \<le> length lines + length line then []
     else [if c0 = 13 then 10 else c0])"

interpretation cring: ring INPUT_BUF "TYPE(32 word)"
proof unfold_locales
  have "(2 :: nat) ^ 32 = 128 * 2 ^ 25" by simp
  then show "INPUT_BUF dvd 2 ^ LENGTH(32)" by simp
qed simp_all

definition cons_inv :: "cons \<Rightarrow> bool" where
  "cons_inv c \<longleftrightarrow> length (cn_buf c) = INPUT_BUF \<and>
     unat (cn_w c - cn_r c) + unat (cn_e c - cn_w c) \<le> INPUT_BUF \<and> 10 \<notin> set (editing c)"

lemma unat_diff_chain:
  fixes r w e :: u32
  assumes "unat (w - r) + unat (e - w) \<le> INPUT_BUF"
  shows "unat (e - r) = unat (w - r) + unat (e - w)"
proof -
  have e: "(w - r) + (e - w) = e - r" by simp
  have "unat (e - r) = (unat (w - r) + unat (e - w)) mod 2 ^ 32"
    using unat_word_ariths(1)[of "w - r" "e - w"] unfolding e by (simp only: len_of_numeral_defs) simp
  moreover have "unat (w - r) + unat (e - w) < 2 ^ 32"
    by (rule order_le_less_trans[OF assms]) simp
  ultimately show ?thesis by (simp only: mod_less)
qed

lemma cons_total:
  "cons_inv c \<Longrightarrow> unat (cn_e c - cn_r c) = length (committed c) + length (editing c)"
  using unat_diff_chain[of "cn_w c" "cn_r c" "cn_e c"]
  by (simp add: cons_inv_def committed_def editing_def)

lemma ring_list_append:
  fixes r w e :: u32
  assumes "unat (w - r) + unat (e - w) \<le> INPUT_BUF"
  shows "ring_list INPUT_BUF buf r e = ring_list INPUT_BUF buf r w @ ring_list INPUT_BUF buf w e"
proof -
  define k where "k = unat (w - r)"
  have w: "w + of_nat i = r + of_nat (i + k)" for i by (simp add: k_def)
  have "[0..<k + unat (e - w)] = [0..<k] @ map (\<lambda>i. i + k) [0..<unat (e - w)]"
    using upt_add_eq_append[of 0 k "unat (e - w)"] by (simp add: map_add_upt add.commute[of k])
  then show ?thesis
    unfolding ring_list_def unat_diff_chain[OF assms] k_def[symmetric] w by simp
qed

text \<open>Erasing the last character, and killing the line.\<close>

lemma cons_erase:
  assumes "cons_inv c" "cn_e c \<noteq> cn_w c"
  defines "c1 \<equiv> c\<lparr>cn_e := cn_e c - 1\<rparr>"
  shows "cons_inv c1" "committed c1 = committed c"
    "editing c = editing c1 @ [cn_buf c ! slot INPUT_BUF (cn_e c - 1)]"
proof -
  show e: "editing c = editing c1 @ [cn_buf c ! slot INPUT_BUF (cn_e c - 1)]"
    using cring.ring_unpush[OF assms(2)] by (simp add: editing_def c1_def)
  have "unat (cn_e c - 1 - cn_w c) < unat (cn_e c - cn_w c)"
    using arg_cong[OF e, of length] by (simp add: editing_def c1_def)
  moreover have "10 \<notin> set (editing c1)" using assms(1) e by (simp add: cons_inv_def)
  ultimately show "cons_inv c1" using assms(1) by (simp add: cons_inv_def c1_def)
  show "committed c1 = committed c" by (simp add: committed_def c1_def)
qed

lemma kill_line_spec:
  "cons_inv c \<Longrightarrow> kill_line c out = (out', c') \<Longrightarrow>
     cons_inv c' \<and> committed c' = committed c \<and> editing c' = [] \<and>
     out' = out @ concat (replicate (length (editing c)) [8, 32, 8])"
proof (induction c out rule: kill_line.induct)
  case (1 c out)
  show ?case
  proof (cases "cn_e c = cn_w c")
    case True
    with "1.prems" show ?thesis by (simp add: kill_line.simps[of c out] editing_def)
  next
    case False
    note er = cons_erase[OF "1.prems"(1) False]
    have nl: "cn_buf c ! slot INPUT_BUF (cn_e c - 1) \<noteq> 10"
      using "1.prems"(1) er(3) by (auto simp: cons_inv_def)
    have run: "kill_line (c\<lparr>cn_e := cn_e c - 1\<rparr>) (out @ consputc BACKSPACE) = (out', c')"
      using "1.prems"(2) False nl by (simp add: kill_line.simps[of c out])
    from "1.IH"[OF conjI[OF False nl] er(1) run] er(2,3) show ?thesis
      by (simp add: consputc_def)
  qed
qed

text \<open>Storing a character at the edit counter.\<close>

lemma cons_store:
  fixes ch :: u8
  assumes "cons_inv c" "unat (cn_e c - cn_r c) < INPUT_BUF"
  defines "c1 \<equiv> c\<lparr>cn_buf := (cn_buf c)[slot INPUT_BUF (cn_e c) := ch], cn_e := cn_e c + 1\<rparr>"
  shows "length (cn_buf c1) = INPUT_BUF" "committed c1 = committed c"
    "editing c1 = editing c @ [ch]"
    "unat (cn_w c - cn_r c) + unat (cn_e c + 1 - cn_w c) \<le> INPUT_BUF"
    "unat (cn_e c + 1 - cn_r c) = Suc (unat (cn_e c - cn_r c))"
proof -
  have le: "unat (cn_w c - cn_r c) + unat (cn_e c - cn_w c) \<le> INPUT_BUF"
    and len: "length (cn_buf c) = INPUT_BUF"
    using assms(1) by (simp_all add: cons_inv_def)
  note tot = unat_diff_chain[OF le]
  have lt: "unat (cn_e c - cn_w c) < INPUT_BUF" using assms(2) tot by simp
  show "length (cn_buf c1) = INPUT_BUF" by (simp add: c1_def len)
  show ed: "editing c1 = editing c @ [ch]"
    using cring.ring_push[OF lt len] by (simp add: editing_def c1_def)
  have "unat (cn_e c + 1 - cn_w c) = Suc (unat (cn_e c - cn_w c))" by (rule cring.count_push[OF lt])
  then show le1: "unat (cn_w c - cn_r c) + unat (cn_e c + 1 - cn_w c) \<le> INPUT_BUF"
    using assms(2) tot by simp
  show "unat (cn_e c + 1 - cn_r c) = Suc (unat (cn_e c - cn_r c))" by (rule cring.count_push[OF assms(2)])
  have "ring_list INPUT_BUF (cn_buf c1) (cn_r c) (cn_e c + 1) =
      ring_list INPUT_BUF (cn_buf c) (cn_r c) (cn_e c) @ [ch]"
    using cring.ring_push[OF assms(2) len] by (simp add: c1_def)
  moreover have "ring_list INPUT_BUF (cn_buf c1) (cn_r c) (cn_e c + 1) =
      committed c1 @ editing c1"
    using ring_list_append[OF le1, of "cn_buf c1"]
    by (simp add: committed_def editing_def c1_def)
  moreover have "ring_list INPUT_BUF (cn_buf c) (cn_r c) (cn_e c) = committed c @ editing c"
    using ring_list_append[OF le, of "cn_buf c"] by (simp add: committed_def editing_def)
  ultimately show "committed c1 = committed c" using ed by simp
qed

lemma consoleintr_default:
  assumes inv: "cons_inv c" and room: "unat (cn_e c - cn_r c) < INPUT_BUF"
    and c0: "c0 \<notin> {0, 8, 16, 21, 0x7f}" and run: "consoleintr dump c0 c = (out, c', woken)"
  shows "cons_inv c' \<and> (committed c', editing c') = spec_key c0 (committed c, editing c) \<and>
    out = spec_echo dump c0 (committed c, editing c) \<and> (woken \<longleftrightarrow> committed c' \<noteq> committed c)"
proof -
  define ch where "ch = (if c0 = 13 then 10 else c0)"
  define c1 where "c1 = c\<lparr>cn_buf := (cn_buf c)[slot INPUT_BUF (cn_e c) := ch], cn_e := cn_e c + 1\<rparr>"
  define full where "full \<longleftrightarrow> ch = 10 \<or> ch = 4 \<or> length (committed c) + length (editing c) = 127"
  note st = cons_store(1-3)[OF inv room, of ch, folded c1_def] cons_store(4,5)[OF inv room]
  have lt: "cn_e c - cn_r c < of_nat INPUT_BUF" using room by (simp add: word_less_nat_alt)
  have fullw: "cn_e c + 1 = cn_r c + 128 \<longleftrightarrow> length (committed c) + length (editing c) = 127"
  proof -
    have "cn_e c + 1 = cn_r c + 128 \<longleftrightarrow> cn_e c + 1 - cn_r c = 128" by (auto simp: algebra_simps)
    also have "\<dots> \<longleftrightarrow> unat (cn_e c + 1 - cn_r c) = 128" by (simp add: word_unat_eq_iff)
    finally show ?thesis using st(5) cons_total[OF inv] by simp
  qed
  have out: "out = [ch]" and c': "c' = (if full then c1\<lparr>cn_w := cn_e c1\<rparr> else c1)" and wk: "woken = full"
    using run c0 lt by (auto simp: consoleintr_def Let_def ch_def c1_def full_def fullw[symmetric]
        split: if_splits)
  have whole: "ring_list INPUT_BUF (cn_buf c1) (cn_r c) (cn_e c + 1) = committed c @ editing c @ [ch]"
    using ring_list_append[OF st(4), of "cn_buf c1"] st(2,3)
    by (simp add: committed_def editing_def c1_def)
  have r: "128 \<le> length (committed c) + length (editing c) \<longleftrightarrow> False"
    using room cons_total[OF inv] by simp
  show ?thesis
  proof (cases full)
    case True
    have "cons_inv c'" using True st(1,4,5) room by (simp add: c' cons_inv_def editing_def c1_def ring_list_def)
    moreover have "committed c' = committed c @ editing c @ [ch]" "editing c' = []"
      using True whole by (simp_all add: c' committed_def editing_def c1_def)
    ultimately show ?thesis using True c0 r
      by (auto simp: spec_key_def spec_echo_def out wk ch_def[symmetric] full_def Let_def)
  next
    case False
    have "cons_inv c'" using False inv st(1,3,4) by (auto simp: c' cons_inv_def c1_def full_def)
    then show ?thesis using False c0 r st(2,3)
      by (auto simp: spec_key_def spec_echo_def out wk ch_def[symmetric] full_def Let_def c')
  qed
qed

text \<open>
  C30: The console input interrupt handler refines a line editor on two lists, the committed input
  and the line being edited: after every key the ring buffer with its three counters represents
  exactly the lists the editor computes (end of line, end of file and a full buffer commit the
  line; backspace and kill-line never reach into committed input), the echo is the editor's,
  and readers are woken exactly when input is committed. The buffer never overflows.
\<close>

theorem consoleintr_refines:
  assumes "cons_inv c" and "consoleintr dump c0 c = (out, c', woken)"
  shows "cons_inv c' \<and> (committed c', editing c') = spec_key c0 (committed c, editing c) \<and>
    out = spec_echo dump c0 (committed c, editing c) \<and> (woken \<longleftrightarrow> committed c' \<noteq> committed c) \<and>
    length (committed c') + length (editing c') \<le> INPUT_BUF"
proof -
  have "cons_inv c' \<and> (committed c', editing c') = spec_key c0 (committed c, editing c) \<and>
    out = spec_echo dump c0 (committed c, editing c) \<and> (woken \<longleftrightarrow> committed c' \<noteq> committed c)"
  proof -
    consider (dump) "c0 = 16" | (kill) "c0 = 21" | (erase) "c0 = 8 \<or> c0 = 0x7f"
      | (store) "c0 \<notin> {0, 8, 16, 21, 0x7f}" "unat (cn_e c - cn_r c) < INPUT_BUF"
      | (zero) "c0 = 0"
      | (full) "c0 \<notin> {0, 8, 16, 21, 0x7f}" "\<not> unat (cn_e c - cn_r c) < INPUT_BUF"
      by blast
    then show ?thesis
    proof cases
      case dump
      with assms show ?thesis by (auto simp: consoleintr_def spec_key_def spec_echo_def)
    next
      case kill
      with assms kill_line_spec[OF assms(1), of "[]"] show ?thesis
        by (auto simp: consoleintr_def spec_key_def spec_echo_def split: prod.splits)
    next
      case erase
      show ?thesis
      proof (cases "cn_e c = cn_w c")
        case True
        then have "editing c = []" by (simp add: editing_def)
        with True erase assms show ?thesis by (auto simp: consoleintr_def spec_key_def spec_echo_def)
      next
        case False
        note er = cons_erase[OF assms(1) False]
        have "out = consputc BACKSPACE" "c' = c\<lparr>cn_e := cn_e c - 1\<rparr>" "\<not> woken"
          using assms(2) erase False by (auto simp: consoleintr_def)
        moreover have "editing c \<noteq> []" "butlast (editing c) = editing (c\<lparr>cn_e := cn_e c - 1\<rparr>)"
          using er(3) by simp_all
        moreover have "c0 \<noteq> 16" "c0 \<noteq> 21" using erase by auto
        ultimately show ?thesis using er(1,2) erase by (simp add: spec_key_def spec_echo_def consputc_def)
      qed
    next
      case store
      with consoleintr_default[OF assms(1) store(2,1) assms(2)] show ?thesis by simp
    next
      case zero
      with assms show ?thesis by (simp add: consoleintr_def spec_key_def spec_echo_def)
    next
      case full
      then have "\<not> cn_e c - cn_r c < of_nat INPUT_BUF" "128 \<le> length (committed c) + length (editing c)"
        using cons_total[OF assms(1)] by (simp_all add: word_less_nat_alt)
      with full(1) assms show ?thesis by (simp add: consoleintr_def spec_key_def spec_echo_def)
    qed
  qed
  moreover from this cons_total[of c'] have "length (committed c') + length (editing c') \<le> INPUT_BUF"
    by (simp add: cons_inv_def committed_def editing_def)
  ultimately show ?thesis by simp
qed

definition cons0 :: cons where
  "cons0 = \<lparr>cn_buf = replicate 128 0, cn_r = 0, cn_w = 0, cn_e = 0\<rparr>"

theorem consoleintr_refines_witness:
  "cons_inv cons0 \<and> consoleintr [] 13 cons0 = ([10], \<lparr>cn_buf = (replicate 128 0)[0 := 10], cn_r = 0, cn_w = 1, cn_e = 1\<rparr>, True)
   \<and> committed \<lparr>cn_buf = (replicate 128 0)[0 := 10], cn_r = 0, cn_w = 1, cn_e = 1\<rparr> = [10]"
proof -
  have i: "cons_inv cons0" by (simp add: cons0_def cons_inv_def editing_def ring_list_def)
  have r: "consoleintr [] 13 cons0 =
      ([10], \<lparr>cn_buf = (replicate 128 0)[0 := 10], cn_r = 0, cn_w = 1, cn_e = 1\<rparr>, True)"
    by (simp add: consoleintr_def cons0_def Let_def slot_def consputc_def)
  have e: "committed cons0 = []" "editing cons0 = []" by (simp_all add: cons0_def committed_def editing_def)
  from consoleintr_refines[OF i r] i r show ?thesis unfolding e by (simp add: spec_key_def)
qed

end
