(* ===== verification/Kstate.thy ===== *)
theory Kstate
  imports Fs Vm Console
begin

text \<open>
  The state of the kernel as one record: physical memory and the file system of the earlier
  theories, the open-file table (\<^verbatim>\<open>src/kernel/file.h\<close>), pipes, the table of virtual memory areas
  (\<^verbatim>\<open>src/kernel/vma.h\<close>), the process table (\<^verbatim>\<open>src/kernel/proc.h\<close>) and the globals of the
  scheduler. Objects of a static table are named by their index, objects in pages from
  \<^verbatim>\<open>kalloc\<close> (pipes, trap frames, page tables) by their address. The process that runs on the CPU
  is \<open>k_cur\<close>, which is what \<^verbatim>\<open>myproc()\<close> returns. The last fields are addresses of code and of
  \<^verbatim>\<open>initcode\<close>, fixed by the linker.
\<close>

subsection \<open>Open files (file.h)\<close>

datatype ftype = FD_NONE | FD_PIPE | FD_INODE | FD_DEVICE

record ofile =
  f_type :: ftype
  f_ref :: int
  f_readable :: bool
  f_writable :: bool
  f_pipe :: u64
  f_ip :: nat
  f_off :: u32
  f_major :: u16

subsection \<open>Virtual memory areas (vma.h)\<close>

abbreviation (input) PROT_READ :: u32 where "PROT_READ \<equiv> 1"
abbreviation (input) PROT_WRITE :: u32 where "PROT_WRITE \<equiv> 2"
abbreviation (input) PROT_EXEC :: u32 where "PROT_EXEC \<equiv> 4"
abbreviation (input) MAP_SHARED :: u32 where "MAP_SHARED \<equiv> 1"
abbreviation (input) MAP_PRIVATE :: u32 where "MAP_PRIVATE \<equiv> 2"

record vma =
  vm_used :: bool
  vm_start :: u64
  vm_length :: u64
  vm_file_length :: u64
  vm_file :: "nat option"
  vm_offset :: u64
  vm_permission :: u32
  vm_flags :: u32
  vm_next :: "nat option"

definition vma_zero :: vma where
  "vma_zero = \<lparr>vm_used = False, vm_start = 0, vm_length = 0, vm_file_length = 0, vm_file = None,
     vm_offset = 0, vm_permission = 0, vm_flags = 0, vm_next = None\<rparr>"

text \<open>A pointer to an area: the dummy head inside a process, or an entry of the table.\<close>

datatype vref = Head nat | Area nat

subsection \<open>Processes (proc.h)\<close>

datatype procstate = UNUSED | USED | SLEEPING | RUNNABLE | RUNNING | ZOMBIE

text \<open>The addresses a process may sleep on.\<close>

datatype chan = Ch_none | Ch_proc nat | Ch_ticks | Ch_piper u64 | Ch_pipew u64 | Ch_cons | Ch_uart
  | Ch_log | Ch_inode nat | Ch_disk | Ch_buf nat

record kcontext =
  ctx_ra :: u64
  ctx_sp :: u64
  ctx_s :: "u64 list"

record proc =
  p_state :: procstate
  p_chan :: chan
  p_killed :: bool
  p_xstate :: u32
  p_pid :: int
  p_tickets :: u32
  p_ticks :: u32
  p_parent :: "nat option"
  p_kstack :: u64
  p_sz :: u64
  p_pagetable :: u64
  p_trapframe :: u64
  p_context :: kcontext
  p_ofile :: "nat option list"
  p_cwd :: "nat option"
  p_name :: cbuf
  p_vma_start :: vma
  p_heap :: "nat option"

record kst = fsys +
  k_ftable :: "ofile list"
  k_pipes :: "u64 \<Rightarrow> pipe"
  k_vmas :: "vma list"
  k_proc :: "proc list"
  k_cur :: "nat option"
  k_initproc :: "nat option"
  k_nextpid :: int
  k_tickets :: u32
  k_seed :: u32
  k_ticks :: u32
  k_ticks_last :: u32
  k_cons :: cons
  k_uart :: uart
  k_panicked :: bool
  k_trampoline :: u64
  k_uservec :: u64
  k_userret :: u64
  k_usertrap :: u64
  k_kernelvec :: u64
  k_forkret :: u64
  k_initcode :: u64

subsection \<open>Access\<close>

definition fault :: "string \<Rightarrow> ('s, 'a) kmon" where
  [kmon_defs]: "fault msg = kfail (Fault msg)"

lemma fault_Inr [simp]: "fault m s \<noteq> Inr y"
  by (simp add: fault_def)

text \<open>The current process; without one, the caller follows a null pointer.\<close>

definition curproc :: "(kst, nat) kmon" where
  "curproc s = (case k_cur s of None \<Rightarrow> fault ''myproc'' s | Some p \<Rightarrow> Inr (p, s))"

definition get_proc :: "nat \<Rightarrow> (kst, proc) kmon" where
  "get_proc p = kget (\<lambda>s. k_proc s ! p)"

definition upd_proc :: "nat \<Rightarrow> (proc \<Rightarrow> proc) \<Rightarrow> (kst, unit) kmon" where
  "upd_proc p f = kmodify (\<lambda>s. s\<lparr>k_proc := (k_proc s)[p := f (k_proc s ! p)]\<rparr>)"

definition myself :: "(kst, proc) kmon" where
  "myself = kbind curproc get_proc"

definition upd_file :: "nat \<Rightarrow> (ofile \<Rightarrow> ofile) \<Rightarrow> (kst, unit) kmon" where
  "upd_file f g = kmodify (\<lambda>s. s\<lparr>k_ftable := (k_ftable s)[f := g (k_ftable s ! f)]\<rparr>)"

definition get_file :: "nat \<Rightarrow> (kst, ofile) kmon" where
  "get_file f = kget (\<lambda>s. k_ftable s ! f)"

fun vma_at :: "vref \<Rightarrow> kst \<Rightarrow> vma" where
  "vma_at (Head p) s = p_vma_start (k_proc s ! p)"
| "vma_at (Area v) s = k_vmas s ! v"

definition get_vma :: "vref \<Rightarrow> (kst, vma) kmon" where
  "get_vma r = kget (vma_at r)"

fun upd_vma :: "vref \<Rightarrow> (vma \<Rightarrow> vma) \<Rightarrow> (kst, unit) kmon" where
  "upd_vma (Head p) g = upd_proc p (\<lambda>x. x\<lparr>p_vma_start := g (p_vma_start x)\<rparr>)"
| "upd_vma (Area v) g = kmodify (\<lambda>s. s\<lparr>k_vmas := (k_vmas s)[v := g (k_vmas s ! v)]\<rparr>)"

text \<open>
  A list of areas linked through \<^verbatim>\<open>next\<close>, from the given pointer on. A walk along more
  entries than the table has is a cycle, on which the code would loop forever.
\<close>

fun vma_chain :: "nat \<Rightarrow> vref option \<Rightarrow> kst \<Rightarrow> vref list option" where
  "vma_chain fuel None s = Some []"
| "vma_chain 0 (Some r) s = None"
| "vma_chain (Suc fuel) (Some r) s =
     map_option ((#) r) (vma_chain fuel (map_option Area (vm_next (vma_at r s))) s)"

definition vma_list_from :: "vref option \<Rightarrow> (kst, vref list) kmon" where
  "vma_list_from r s =
     (case vma_chain (NVMA + 1) r s of None \<Rightarrow> fault ''vma list is cyclic'' s | Some rs \<Rightarrow> Inr (rs, s))"

subsection \<open>The trap frame\<close>

text \<open>Byte offsets of the fields of \<^verbatim>\<open>struct trapframe\<close>.\<close>

datatype tfreg = TF_kernel_satp | TF_kernel_sp | TF_kernel_trap | TF_epc | TF_kernel_hartid
  | TF_ra | TF_sp | TF_gp | TF_tp | TF_t0 | TF_t1 | TF_t2 | TF_s0 | TF_s1
  | TF_a0 | TF_a1 | TF_a2 | TF_a3 | TF_a4 | TF_a5 | TF_a6 | TF_a7
  | TF_s2 | TF_s3 | TF_s4 | TF_s5 | TF_s6 | TF_s7 | TF_s8 | TF_s9 | TF_s10 | TF_s11
  | TF_t3 | TF_t4 | TF_t5 | TF_t6

definition tf_order :: "tfreg list" where
  "tf_order = [TF_kernel_satp, TF_kernel_sp, TF_kernel_trap, TF_epc, TF_kernel_hartid,
     TF_ra, TF_sp, TF_gp, TF_tp, TF_t0, TF_t1, TF_t2, TF_s0, TF_s1,
     TF_a0, TF_a1, TF_a2, TF_a3, TF_a4, TF_a5, TF_a6, TF_a7,
     TF_s2, TF_s3, TF_s4, TF_s5, TF_s6, TF_s7, TF_s8, TF_s9, TF_s10, TF_s11,
     TF_t3, TF_t4, TF_t5, TF_t6]"

fun index_of :: "'a \<Rightarrow> 'a list \<Rightarrow> nat" where
  "index_of x [] = 0"
| "index_of x (y # ys) = (if x = y then 0 else Suc (index_of x ys))"

definition tf_off :: "tfreg \<Rightarrow> u64" where
  "tf_off r = 8 * of_nat (index_of r tf_order)"

definition tf_load :: "nat \<Rightarrow> tfreg \<Rightarrow> (kst, u64) kmon" where
  "tf_load p r = kget (\<lambda>s. load64 (km_mem s) (p_trapframe (k_proc s ! p) + tf_off r))"

definition tf_store :: "nat \<Rightarrow> tfreg \<Rightarrow> u64 \<Rightarrow> (kst, unit) kmon" where
  "tf_store p r v =
     kmodify (\<lambda>s. s\<lparr>km_mem := store64 (km_mem s) (p_trapframe (k_proc s ! p) + tf_off r) v\<rparr>)"

lemma tf_layout:
  "tf_off TF_kernel_satp = 0" "tf_off TF_epc = 24" "tf_off TF_ra = 40" "tf_off TF_sp = 48"
  "tf_off TF_a0 = 112" "tf_off TF_a7 = 168" "tf_off TF_s2 = 176" "tf_off TF_t3 = 256" "tf_off TF_t6 = 280"
  by (simp_all add: tf_off_def tf_order_def)

subsection \<open>A concrete state\<close>

text \<open>
  One process without memory that asks for system call \<open>num\<close>, on an empty file system of the size
  that \<^verbatim>\<open>mkfs\<close> makes. The examples of the development start here.
\<close>

definition proc0 :: proc where
  "proc0 = \<lparr>p_state = RUNNING, p_chan = Ch_none, p_killed = False, p_xstate = 0, p_pid = 1,
     p_tickets = 1, p_ticks = 0, p_parent = None, p_kstack = 0, p_sz = 0, p_pagetable = 0x80000000,
     p_trapframe = 0x80001000, p_context = \<lparr>ctx_ra = 0, ctx_sp = 0, ctx_s = []\<rparr>,
     p_ofile = replicate 16 None, p_cwd = None, p_name = (\<lambda>_. 0), p_vma_start = vma_zero, p_heap = None\<rparr>"

definition kst0 :: "u8 \<Rightarrow> kst" where
  "kst0 num = \<lparr>km_mem = (\<lambda>a. if a = 0x800010a8 then num else 0), km_freelist = 0, km_end = 0x80000000,
     fs_blocks = (\<lambda>_ _. replicate 1024 0),
     fs_sb = \<lparr>sb_magic = FSMAGIC, sb_size = 1000, sb_nblocks = 954, sb_ninodes = 200, sb_nlog = 30,
              sb_logstart = 2, sb_inodestart = 32, sb_bmapstart = 45\<rparr>,
     fs_outstanding = 0, fs_itable = [], k_ftable = [], k_pipes = (\<lambda>_. pipe_init []), k_vmas = [],
     k_proc = [proc0], k_cur = Some 0, k_initproc = None, k_nextpid = 2, k_tickets = 1, k_seed = 1,
     k_ticks = 0, k_ticks_last = 0, k_cons = cons0, k_uart = uart0, k_panicked = False,
     k_trampoline = 0, k_uservec = 0, k_userret = 0, k_usertrap = 0, k_kernelvec = 0, k_forkret = 0,
     k_initcode = 0\<rparr>"

end
