(* ===== verification/Sched.thy ===== *)
theory Sched
  imports Kstate
begin

text \<open>
  The lottery scheduler and the process states, the second half of \<^verbatim>\<open>src/kernel/proc.c\<close>:
  \<^verbatim>\<open>scheduler\<close>, \<^verbatim>\<open>sched\<close>, \<^verbatim>\<open>yield\<close>, \<^verbatim>\<open>sleep\<close>, \<^verbatim>\<open>wakeup\<close>, \<^verbatim>\<open>kill\<close>, the random
  number generator and \<^verbatim>\<open>sys_settickets\<close>.

  A routine runs between taking and dropping the locks of the process and of the tickets.
  \<^verbatim>\<open>swtch\<close> is where a routine ends: \<^verbatim>\<open>sleep\<close>, \<^verbatim>\<open>yield\<close> and \<^verbatim>\<open>scheduler\<close> are split there.
\<close>

subsection \<open>Random numbers\<close>

definition lcg_parkmiller :: "u32 \<Rightarrow> u32" where
  "lcg_parkmiller state =
     (let N = 0x7fffffff; G = 48271;
          q = state div (N div G); r = state mod (N div G);
          a = r * G; b = q * (N mod G)
      in if a > b then a - b else a + (N - b))"

definition next_random :: "(kst, u32) kmon" where
  "next_random =
     kbind (kget (\<lambda>s. lcg_parkmiller (k_seed s))) (\<lambda>r. kseq (kmodify (\<lambda>s. s\<lparr>k_seed := r\<rparr>)) (kret r))"

subsection \<open>Process states\<close>

definition add_tickets :: "u32 \<Rightarrow> (kst, unit) kmon" where
  "add_tickets n = kmodify (\<lambda>s. s\<lparr>k_tickets := k_tickets s + n\<rparr>)"

definition counted :: "proc \<Rightarrow> bool" where
  "counted x \<longleftrightarrow> p_state x = RUNNING \<or> p_state x = RUNNABLE"

definition procinit :: "(kst, unit) kmon" where
  "procinit = kfor [0..<NPROC] (\<lambda>i. upd_proc i (\<lambda>x. x\<lparr>p_kstack := KSTACK i\<rparr>))"

definition allocpid :: "(kst, int) kmon" where
  "allocpid = kbind (kget k_nextpid) (\<lambda>pid. kseq (kmodify (\<lambda>s. s\<lparr>k_nextpid := k_nextpid s + 1\<rparr>)) (kret pid))"

definition wakeup :: "chan \<Rightarrow> (kst, unit) kmon" where
  "wakeup ch =
     kfor [0..<NPROC] (\<lambda>i.
       kbind (kget k_cur) (\<lambda>me.
         kwhen (me \<noteq> Some i)
           (kbind (get_proc i) (\<lambda>x.
              kwhen (p_state x = SLEEPING \<and> p_chan x = ch)
                (kseq (upd_proc i (\<lambda>x. x\<lparr>p_state := RUNNABLE\<rparr>))
                      (add_tickets (p_tickets x)))))))"

text \<open>
  \<^verbatim>\<open>sched\<close> up to \<^verbatim>\<open>swtch\<close>. Its checks of the lock, the nesting depth and the interrupt flag
  hold by the lock discipline and are not repeated here.
\<close>

definition sched :: "(kst, unit) kmon" where
  "sched =
     kbind curproc (\<lambda>p.
     kbind (get_proc p) (\<lambda>x.
       if p_state x = RUNNING then panic ''sched running''
       else kbind (kget (\<lambda>s. k_ticks s - k_ticks_last s)) (\<lambda>d.
              upd_proc p (\<lambda>x. x\<lparr>p_ticks := p_ticks x + d\<rparr>))))"

definition yield :: "(kst, unit) kmon" where
  "yield =
     kbind curproc (\<lambda>p.
     kbind (get_proc p) (\<lambda>x.
       kseq (kwhen (p_state x \<noteq> RUNNABLE \<and> p_state x \<noteq> RUNNING) (add_tickets (p_tickets x)))
      (kseq (upd_proc p (\<lambda>x. x\<lparr>p_state := RUNNABLE\<rparr>))
            sched)))"

text \<open>\<^verbatim>\<open>sleep\<close> before and after the switch.\<close>

definition sleep :: "chan \<Rightarrow> (kst, unit) kmon" where
  "sleep ch =
     kbind curproc (\<lambda>p.
       kseq (upd_proc p (\<lambda>x. x\<lparr>p_chan := ch\<rparr>))
      (kbind (get_proc p) (\<lambda>x.
       kseq (kwhen (p_state x = RUNNING \<or> p_state x = RUNNABLE) (add_tickets (- p_tickets x)))
      (kseq (upd_proc p (\<lambda>x. x\<lparr>p_state := SLEEPING\<rparr>))
            sched))))"

definition sleep_resume :: "(kst, unit) kmon" where
  "sleep_resume = kbind curproc (\<lambda>p. upd_proc p (\<lambda>x. x\<lparr>p_chan := Ch_none\<rparr>))"

fun kill_loop :: "int \<Rightarrow> nat list \<Rightarrow> (kst, int) kmon" where
  "kill_loop pid [] = kret (-1)"
| "kill_loop pid (i # is) =
     kbind (get_proc i) (\<lambda>x.
       if p_pid x = pid then
         kseq (upd_proc i (\<lambda>x. x\<lparr>p_killed := True\<rparr>))
        (kseq (kwhen (p_state x = SLEEPING)
                 (kseq (upd_proc i (\<lambda>x. x\<lparr>p_state := RUNNABLE\<rparr>)) (add_tickets (p_tickets x))))
              (kret 0))
       else kill_loop pid is)"

definition kill :: "int \<Rightarrow> (kst, int) kmon" where
  "kill pid = kill_loop pid [0..<NPROC]"

text \<open>The argument of \<^verbatim>\<open>settickets\<close> is an \<^verbatim>\<open>int\<close>; the running total is unsigned.\<close>

definition settickets :: "u32 \<Rightarrow> (kst, int) kmon" where
  "settickets n =
     (if sint n < MINTICKETS then kret (-1)
      else kbind curproc (\<lambda>p.
           kbind (get_proc p) (\<lambda>x.
             kseq (add_tickets (n - p_tickets x))
            (kseq (upd_proc p (\<lambda>x. x\<lparr>p_tickets := n\<rparr>))
                  (kret 0)))))"

subsection \<open>The scheduler\<close>

text \<open>
  The scan for the winner: \<open>sel\<close> is the variable \<^verbatim>\<open>selected\<close>; the sum \<open>cum\<close> is a 32-bit
  \<^verbatim>\<open>int\<close>, whose addition wraps on the hardware.
\<close>

fun lottery :: "int \<Rightarrow> proc list \<Rightarrow> nat \<Rightarrow> u32 \<Rightarrow> nat option \<Rightarrow> nat option" where
  "lottery target [] i cum sel = sel"
| "lottery target (x # xs) i cum sel =
     (if p_state x = RUNNABLE
      then if sint (cum + p_tickets x) \<ge> target then Some i
           else lottery target xs (Suc i) (cum + p_tickets x) (Some i)
      else lottery target xs (Suc i) cum sel)"

text \<open>
  One round of the loop of \<^verbatim>\<open>scheduler\<close> up to \<^verbatim>\<open>release(&tickets_lock)\<close>: the winner, whose
  lock is then held. \<open>None\<close> is a round that runs nobody.
\<close>

definition scheduler_pick :: "(kst, nat option) kmon" where
  "scheduler_pick =
     kbind (kget k_tickets) (\<lambda>total.
       if total = 0 then kret None
       else kbind next_random (\<lambda>r.
            kget (\<lambda>s. lottery (sint (r mod total + 1)) (k_proc s) 0 0 None)))"

text \<open>The code between \<^verbatim>\<open>release(&tickets_lock)\<close> and \<^verbatim>\<open>swtch\<close>, and after it.\<close>

definition scheduler_run :: "nat \<Rightarrow> (kst, unit) kmon" where
  "scheduler_run p =
     kseq (upd_proc p (\<lambda>x. x\<lparr>p_state := RUNNING\<rparr>)) (kmodify (\<lambda>s. s\<lparr>k_cur := Some p\<rparr>))"

definition scheduler_return :: "(kst, unit) kmon" where
  "scheduler_return =
     kseq (kmodify (\<lambda>s. s\<lparr>k_cur := None\<rparr>)) (kmodify (\<lambda>s. s\<lparr>k_ticks_last := k_ticks s\<rparr>))"

definition scheduler_round :: "(kst, unit) kmon" where
  "scheduler_round =
     kbind scheduler_pick (\<lambda>sel. case sel of None \<Rightarrow> kret () | Some p \<Rightarrow> scheduler_run p)"

subsection \<open>Clock\<close>

definition clockintr :: "(kst, unit) kmon" where
  "clockintr = kseq (kmodify (\<lambda>s. s\<lparr>k_ticks := k_ticks s + 1\<rparr>)) (wakeup Ch_ticks)"

end
