(* ===== verification/Uvm.thy ===== *)
theory Uvm
  imports Sched
begin

text \<open>
  Access to user memory, the rest of \<^verbatim>\<open>src/kernel/vm.c\<close>: the look-up of a user address, which
  faults the page in from the file of its memory area (\<^verbatim>\<open>lazyalloc\<close>), and the copy routines
  between user and kernel that are built on it. Source and destination inside the kernel are byte
  lists: they are objects outside the memory that \<^verbatim>\<open>kalloc\<close> manages.
\<close>

definition mypid :: "(kst, int) kmon" where
  "mypid = kbind myself (\<lambda>x. kret (p_pid x))"

subsection \<open>Faulting a page in\<close>

definition lazyalloc_fill :: "u64 \<Rightarrow> u64 \<Rightarrow> vma \<Rightarrow> (kst, unit) kmon" where
  "lazyalloc_fill mem va v =
     (case vm_file v of
        None \<Rightarrow> kret ()
      | Some f \<Rightarrow>
          let pa = PGROUNDDOWN (va - vm_start v);
              file_off = (ucast (pa + vm_offset v) :: u32)
          in kwhen (vm_file_length v + vm_start v > pa)
               (let remaining_length = vm_file_length v + vm_start v - pa;
                    sz = (if PGSIZE \<ge> remaining_length then remaining_length else PGSIZE)
                in kbind (get_file f) (\<lambda>x.
                   kbind mypid (\<lambda>pid.
                     kseq (ilock pid (f_ip x))
                    (kbind (readi mem_out (f_ip x) mem file_off (ucast sz)) (\<lambda>_.
                     iunlock pid (f_ip x)))))))"

definition lazyalloc :: "u64 \<Rightarrow> u64 \<Rightarrow> vref \<Rightarrow> (kst, u64) kmon" where
  "lazyalloc pagetable va r =
     kbind kalloc (\<lambda>mem.
       if mem = 0 then kret 0
       else kseq (kmemset mem 0 4096)
           (kbind (get_vma r) (\<lambda>v.
            kseq (lazyalloc_fill mem va v)
                 (kbind (mappages pagetable (PGROUNDDOWN va) PGSIZE mem
                           (scast (push_bit 1 (vm_permission v)) OR PTE_U OR PTE_V)) (\<lambda>m.
                    if m \<noteq> 0 then kseq (kfree mem) (kret 0) else kret mem)))))"

text \<open>
  The search of \<^verbatim>\<open>walkaddr\<close> along the areas; \<open>None\<close> when it has passed more entries than
  there are, that is, on a cyclic list.
\<close>

fun find_vma :: "nat \<Rightarrow> u64 \<Rightarrow> vref option \<Rightarrow> kst \<Rightarrow> vref option option" where
  "find_vma fuel va None s = Some None"
| "find_vma 0 va (Some r) s = None"
| "find_vma (Suc fuel) va (Some r) s =
     (let v = vma_at r s
      in if vm_start v \<le> va \<and> va < vm_start v + vm_length v then Some (Some r)
         else find_vma fuel va (map_option Area (vm_next v)) s)"

definition walkaddr :: "u64 \<Rightarrow> u64 \<Rightarrow> (kst, u64) kmon" where
  "walkaddr pagetable va =
     (if va \<ge> MAXVA then kret 0
      else kbind curproc (\<lambda>p.
           kbind (kget (find_vma (NVMA + 1) va (Some (Head p)))) (\<lambda>found.
             case found of
               None \<Rightarrow> fault ''vma list is cyclic''
             | Some None \<Rightarrow> kret 0
             | Some (Some r) \<Rightarrow>
                 kbind (walk pagetable va False) (\<lambda>pte.
                   if pte = 0 then lazyalloc pagetable va r
                   else kbind (kload pte) (\<lambda>e.
                     if e AND PTE_V = 0 then lazyalloc pagetable va r
                     else if e AND PTE_U = 0 then kret 0
                     else kret (PTE2PA e))))))"

text \<open>
  The loop of \<^verbatim>\<open>allocrange\<close> steps a 64-bit address that is not rounded down and may wrap around
  below the end of the range, after which it never ends; not returning is \<^term>\<open>None\<close>, and a
  \<open>Fault\<close> for the callers.
\<close>

partial_function (option) allocrange_loop ::
  "u64 \<Rightarrow> u64 \<Rightarrow> u64 \<Rightarrow> kst \<Rightarrow> (kerr + unit \<times> kst) option" where
  "allocrange_loop pagetable pa lim s =
     (if pa < lim
      then (case walkaddr pagetable pa s of
              Inl e \<Rightarrow> Some (Inl e)
            | Inr (_, s') \<Rightarrow> allocrange_loop pagetable (pa + PGSIZE) lim s')
      else Some (Inr ((), s)))"

definition allocrange :: "u64 \<Rightarrow> u64 \<Rightarrow> u64 \<Rightarrow> (kst, unit) kmon" where
  "allocrange pagetable va sz s =
     (case allocrange_loop pagetable va (va + sz) s of
        None \<Rightarrow> fault ''allocrange does not return'' s
      | Some r \<Rightarrow> r)"

subsection \<open>Copying\<close>

definition page_room :: "u64 \<Rightarrow> nat" where
  "page_room va = unat (PGSIZE - (va - PGROUNDDOWN va))"

lemma page_room_eq: "page_room va = 4096 - unat va mod 4096"
proof -
  have le: "unat (PGROUNDDOWN va) \<le> unat va" by (simp add: PGROUNDDOWN_unat)
  then have "unat (va - PGROUNDDOWN va) = unat va mod 4096"
    by (simp add: unat_sub word_le_nat_alt PGROUNDDOWN_unat)
  then show ?thesis by (simp add: page_room_def unat_sub word_le_nat_alt less_imp_le)
qed

lemma page_room_pos: "0 < page_room va"
  by (simp add: page_room_eq)

function copyout :: "u64 \<Rightarrow> u64 \<Rightarrow> u8 list \<Rightarrow> (kst, int) kmon" where
  "copyout pagetable dstva src s =
     (if src = [] then Inr (0, s)
      else case walkaddr pagetable (PGROUNDDOWN dstva) s of
             Inl e \<Rightarrow> Inl e
           | Inr (pa0, s1) \<Rightarrow>
               if pa0 = 0 then Inr (-1, s1)
               else let va0 = PGROUNDDOWN dstva; n = min (page_room dstva) (length src);
                        s2 = s1\<lparr>km_mem := store_bytes (km_mem s1) (pa0 + (dstva - va0)) (take n src)\<rparr>
                    in copyout pagetable (va0 + PGSIZE) (drop n src) s2)"
  by pat_completeness auto
termination
  by (relation "measure (\<lambda>(pagetable, dstva, src, s). length src)") (auto simp: page_room_pos)

text \<open>Returns the status and the bytes that have reached the destination.\<close>

function copyin_acc :: "u64 \<Rightarrow> u64 \<Rightarrow> nat \<Rightarrow> u8 list \<Rightarrow> (kst, int \<times> u8 list) kmon" where
  "copyin_acc pagetable srcva len acc s =
     (if len = 0 then Inr ((0, acc), s)
      else case walkaddr pagetable (PGROUNDDOWN srcva) s of
             Inl e \<Rightarrow> Inl e
           | Inr (pa0, s1) \<Rightarrow>
               if pa0 = 0 then Inr ((-1, acc), s1)
               else let va0 = PGROUNDDOWN srcva; n = min (page_room srcva) len
                    in copyin_acc pagetable (va0 + PGSIZE) (len - n)
                         (acc @ load_bytes (km_mem s1) (pa0 + (srcva - va0)) n) s1)"
  by pat_completeness auto
termination
  by (relation "measure (\<lambda>(pagetable, srcva, len, acc, s). len)") (auto simp: page_room_pos)

definition copyin :: "u64 \<Rightarrow> u64 \<Rightarrow> nat \<Rightarrow> (kst, int \<times> u8 list) kmon" where
  "copyin pagetable srcva len = copyin_acc pagetable srcva len []"

text \<open>The inner loop of \<^verbatim>\<open>copyinstr\<close>: the bytes of one page up to a zero, and whether there was one.\<close>

fun scan_str :: "memory \<Rightarrow> u64 \<Rightarrow> nat \<Rightarrow> u8 list \<times> bool" where
  "scan_str m p 0 = ([], False)"
| "scan_str m p (Suc n) =
     (if m p = 0 then ([], True)
      else let (bs, got) = scan_str m (p + 1) n in (m p # bs, got))"

function copyinstr_acc :: "u64 \<Rightarrow> u64 \<Rightarrow> nat \<Rightarrow> u8 list \<Rightarrow> (kst, int \<times> u8 list) kmon" where
  "copyinstr_acc pagetable srcva mx acc s =
     (if mx = 0 then Inr ((-1, acc), s)
      else case walkaddr pagetable (PGROUNDDOWN srcva) s of
             Inl e \<Rightarrow> Inl e
           | Inr (pa0, s1) \<Rightarrow>
               if pa0 = 0 then Inr ((-1, acc), s1)
               else let va0 = PGROUNDDOWN srcva; n = min (page_room srcva) mx;
                        found = scan_str (km_mem s1) (pa0 + (srcva - va0)) n
                    in if snd found then Inr ((0, acc @ fst found), s1)
                       else copyinstr_acc pagetable (va0 + PGSIZE) (mx - n) (acc @ fst found) s1)"
  by pat_completeness auto
termination
  by (relation "measure (\<lambda>(pagetable, srcva, mx, acc, s). mx)") (auto simp: page_room_pos)

definition copyinstr :: "u64 \<Rightarrow> u64 \<Rightarrow> nat \<Rightarrow> (kst, int \<times> u8 list) kmon" where
  "copyinstr pagetable srcva mx = copyinstr_acc pagetable srcva mx []"

declare copyout.simps [simp del] copyin_acc.simps [simp del] copyinstr_acc.simps [simp del]

definition either_copyout :: "bool \<Rightarrow> kst cout" where
  "either_copyout user_dst dst bs =
     (if user_dst then kbind myself (\<lambda>x. copyout (p_pagetable x) dst bs) else mem_out dst bs)"

definition either_copyin :: "bool \<Rightarrow> kst cin" where
  "either_copyin user_src src len =
     (if user_src then kbind myself (\<lambda>x. copyin (p_pagetable x) src len)
      else kget (\<lambda>s. (0, load_bytes (km_mem s) src len)))"

text \<open>
  The single-byte copies that pipes and the console make; an error outcome of the copy itself is
  carried along and ends the loop.
\<close>

definition byte_in :: "(kerr + kst) copyin1" where
  "byte_in a st =
     (case st of
        Inl e \<Rightarrow> (None, Inl e)
      | Inr s \<Rightarrow> (case either_copyin True a 1 s of
                   Inl e \<Rightarrow> (None, Inl e)
                 | Inr ((r, bs), s') \<Rightarrow> (if r = -1 then None else Some (hd bs), Inr s')))"

definition byte_out :: "(kerr + kst) copyout1" where
  "byte_out a ch st =
     (case st of
        Inl e \<Rightarrow> (False, Inl e)
      | Inr s \<Rightarrow> (case either_copyout True a [ch] s of
                   Inl e \<Rightarrow> (False, Inl e)
                 | Inr (r, s') \<Rightarrow> (r \<noteq> -1, Inr s')))"

end
