(* ===== verification/Files.thy ===== *)
theory Files
  imports Uvm
begin

text \<open>
  Open files, \<^verbatim>\<open>src/kernel/file.c\<close>, and the creation of pipes from \<^verbatim>\<open>src/kernel/pipe.c\<close>.
  Reading and writing may block on a pipe or on the console: the value \<^term>\<open>None\<close> means that the
  calling process has gone to sleep, its state saved, and will run the rest of the loop when it is
  woken. The array \<^verbatim>\<open>devsw\<close> has one entry, the console, which \<^verbatim>\<open>consoleinit\<close> fills in.
\<close>

definition filealloc :: "(kst, nat option) kmon" where
  "filealloc =
     kbind (kget k_ftable) (\<lambda>tab.
       case find_slot (\<lambda>f. f_ref f = 0) tab of
         None \<Rightarrow> kret None
       | Some f \<Rightarrow> kseq (upd_file f (\<lambda>x. x\<lparr>f_ref := 1\<rparr>)) (kret (Some f)))"

definition filedup :: "nat \<Rightarrow> (kst, nat) kmon" where
  "filedup f =
     kbind (get_file f) (\<lambda>x.
       if f_ref x < 1 then panic ''filedup''
       else kseq (upd_file f (\<lambda>x. x\<lparr>f_ref := f_ref x + 1\<rparr>)) (kret f))"

definition pipe_chan :: "u64 \<Rightarrow> pchan \<Rightarrow> chan" where
  "pipe_chan pi ch = (case ch of Ch_nread \<Rightarrow> Ch_piper pi | Ch_nwrite \<Rightarrow> Ch_pipew pi)"

definition kpipeclose :: "u64 \<Rightarrow> bool \<Rightarrow> (kst, unit) kmon" where
  "kpipeclose pi writable =
     kbind (kget (\<lambda>s. pipeclose (k_pipes s pi) writable)) (\<lambda>(x, ch, free).
       kseq (kmodify (\<lambda>s. s\<lparr>k_pipes := (k_pipes s)(pi := x)\<rparr>))
      (kseq (wakeup (pipe_chan pi ch))
            (kwhen free (kfree pi))))"

definition close_inode :: "nat \<Rightarrow> (kst, unit) kmon" where
  "close_inode ip = kbind mypid (\<lambda>pid. kseq fs_begin_op (kseq (iput pid ip) fs_end_op))"

definition fileclose :: "nat \<Rightarrow> (kst, unit) kmon" where
  "fileclose f =
     kbind (get_file f) (\<lambda>ff.
       if f_ref ff < 1 then panic ''fileclose''
       else if f_ref ff - 1 > 0 then upd_file f (\<lambda>x. x\<lparr>f_ref := f_ref x - 1\<rparr>)
       else kseq (upd_file f (\<lambda>x. x\<lparr>f_ref := 0, f_type := FD_NONE\<rparr>))
              (if f_type ff = FD_PIPE then kpipeclose (f_pipe ff) (f_writable ff)
               else kwhen (f_type ff = FD_INODE \<or> f_type ff = FD_DEVICE)
                 (close_inode (f_ip ff))))"

text \<open>The bytes of \<^verbatim>\<open>struct stat\<close>; the four padding bytes are whatever is on the stack.\<close>

definition stat_bytes :: "u8 list \<Rightarrow> kstat \<Rightarrow> u8 list" where
  "stat_bytes pad st =
     le_bytes 4 (unat (st_dev st)) @ le_bytes 4 (unat (st_ino st)) @ le_bytes 2 (unat (st_type st))
     @ le_bytes 2 (unat (st_nlink st)) @ take 4 pad @ le_bytes 8 (unat (st_size st))"

definition filestat :: "u8 list \<Rightarrow> nat \<Rightarrow> u64 \<Rightarrow> (kst, int) kmon" where
  "filestat pad f addr =
     kbind (get_file f) (\<lambda>x.
       if f_type x = FD_INODE \<or> f_type x = FD_DEVICE then
         kbind mypid (\<lambda>pid.
           kseq (ilock pid (f_ip x))
          (kbind (stati (f_ip x)) (\<lambda>st.
           kseq (iunlock pid (f_ip x))
          (kbind myself (\<lambda>p.
           kbind (copyout (p_pagetable p) addr (stat_bytes pad st)) (\<lambda>r.
             kret (if r < 0 then -1 else 0)))))))
       else kret (-1))"

subsection \<open>Devices and pipes as files\<close>

text \<open>Finishing a call that ran with the copies of \<open>byte_in\<close> or \<open>byte_out\<close>.\<close>

definition resume_with :: "(kst \<Rightarrow> kst) \<Rightarrow> (kerr + kst) \<Rightarrow> (kst, unit) kmon" where
  "resume_with f st = (\<lambda>_. case st of Inl e \<Rightarrow> Inl e | Inr s \<Rightarrow> Inr ((), f s))"

definition wake_all :: "u64 \<Rightarrow> pchan list \<Rightarrow> (kst, unit) kmon" where
  "wake_all pi chs = kfor chs (\<lambda>ch. wakeup (pipe_chan pi ch))"

definition pipe_result :: "u64 \<Rightarrow> presult \<times> pchan list \<times> pipe \<times> (kerr + kst) \<Rightarrow> (kst, int option) kmon" where
  "pipe_result pi = (\<lambda>(r, woken, x, st).
     kseq (resume_with (\<lambda>s. s\<lparr>k_pipes := (k_pipes s)(pi := x)\<rparr>) st)
    (kseq (wake_all pi woken)
          (case r of
             Returns i \<Rightarrow> kret (Some i)
           | Blocks ch _ \<Rightarrow> kseq (sleep (pipe_chan pi ch)) (kret None))))"

definition kpiperead :: "u64 \<Rightarrow> u64 \<Rightarrow> int \<Rightarrow> (kst, int option) kmon" where
  "kpiperead pi addr n =
     kbind myself (\<lambda>p. kbind (kget (\<lambda>s.
       piperead byte_out (p_killed p) (k_pipes s pi) addr n (Inr s))) (pipe_result pi))"

definition kpipewrite :: "u64 \<Rightarrow> u64 \<Rightarrow> int \<Rightarrow> (kst, int option) kmon" where
  "kpipewrite pi addr n =
     kbind myself (\<lambda>p. kbind (kget (\<lambda>s.
       pipewrite byte_in (p_killed p) (k_pipes s pi) addr n (Inr s))) (pipe_result pi))"

definition kconsoleread :: "u64 \<Rightarrow> int \<Rightarrow> (kst, int option) kmon" where
  "kconsoleread dst n =
     kbind myself (\<lambda>p. kbind (kget (\<lambda>s. consoleread byte_out (p_killed p) dst n (k_cons s) (Inr s)))
       (\<lambda>(r, c, st).
          kseq (resume_with (\<lambda>s. s\<lparr>k_cons := c\<rparr>) st)
               (case r of
                  CReturns i \<Rightarrow> kret (Some i)
                | CBlocks _ _ \<Rightarrow> kseq (sleep Ch_cons) (kret None))))"

definition kconsolewrite :: "u64 \<Rightarrow> int \<Rightarrow> (kst, int option) kmon" where
  "kconsolewrite src n =
     kbind (kget (\<lambda>s. consolewrite byte_in (k_panicked s) src n (k_uart s) (Inr s)))
       (\<lambda>(r, woken, u, st).
          kseq (resume_with (\<lambda>s. s\<lparr>k_uart := u\<rparr>) st)
         (kseq (kwhen woken (wakeup Ch_uart))
               (case r of
                  CReturns i \<Rightarrow> kret (Some i)
                | CBlocks _ _ \<Rightarrow> kseq (sleep Ch_uart) (kret None))))"

text \<open>\<^verbatim>\<open>devsw[major].read\<close> is set for \<^verbatim>\<open>CONSOLE\<close>, major number 1, only.\<close>

definition no_device :: "u16 \<Rightarrow> bool" where
  "no_device major \<longleftrightarrow> sint major < 0 \<or> sint major \<ge> int NDEV \<or> sint major \<noteq> 1"

subsection \<open>Reading and writing\<close>

definition fileread :: "nat \<Rightarrow> u64 \<Rightarrow> int \<Rightarrow> (kst, int option) kmon" where
  "fileread f addr n =
     kbind (get_file f) (\<lambda>x.
       if \<not> f_readable x then kret (Some (-1))
       else kbind myself (\<lambda>p.
         kseq (allocrange (p_pagetable p) addr (of_int n))
           (case f_type x of
              FD_PIPE \<Rightarrow> kpiperead (f_pipe x) addr n
            | FD_DEVICE \<Rightarrow> if no_device (f_major x) then kret (Some (-1)) else kconsoleread addr n
            | FD_INODE \<Rightarrow>
                kseq (ilock (p_pid p) (f_ip x))
               (kbind (readi (either_copyout True) (f_ip x) addr (f_off x) (of_int n)) (\<lambda>(r, _).
                kseq (kwhen (r > 0) (upd_file f (\<lambda>x. x\<lparr>f_off := f_off x + of_int r\<rparr>)))
               (kseq (iunlock (p_pid p) (f_ip x))
                     (kret (Some r)))))
            | FD_NONE \<Rightarrow> panic ''fileread'')))"

abbreviation (input) WRITE_MAX :: int where "WRITE_MAX \<equiv> ((10 - 1 - 1 - 2) div 2) * 1024"

text \<open>One transaction of the loop of \<^verbatim>\<open>filewrite\<close>, at most \<^verbatim>\<open>max\<close> bytes.\<close>

definition filewrite_part :: "nat \<Rightarrow> u64 \<Rightarrow> int \<Rightarrow> int \<Rightarrow> (kst, int) kmon" where
  "filewrite_part f addr i n1 =
     kbind mypid (\<lambda>pid.
     kseq fs_begin_op
    (kbind (get_file f) (\<lambda>x.
     kseq (ilock pid (f_ip x))
    (kbind (writei (either_copyin True) (f_ip x) (addr + of_int i) (f_off x) (of_int n1)) (\<lambda>r.
     kseq (kwhen (r > 0) (upd_file f (\<lambda>x. x\<lparr>f_off := f_off x + of_int r\<rparr>)))
    (kseq (iunlock pid (f_ip x))
    (kseq fs_end_op
          (kret r))))))))"

function filewrite_loop :: "nat \<Rightarrow> u64 \<Rightarrow> int \<Rightarrow> int \<Rightarrow> (kst, int) kmon" where
  "filewrite_loop f addr n i s =
     (if i < n then
        let n1 = min (n - i) WRITE_MAX
        in case filewrite_part f addr i n1 s of
             Inl e \<Rightarrow> Inl e
           | Inr (r, s') \<Rightarrow> if r \<noteq> n1 then Inr (i, s') else filewrite_loop f addr n (i + r) s'
      else Inr (i, s))"
  by pat_completeness auto
termination
  by (relation "measure (\<lambda>(f, addr, n, i, s). nat (n - i))") (auto simp: min_def)

declare filewrite_loop.simps [simp del]

definition filewrite :: "nat \<Rightarrow> u64 \<Rightarrow> int \<Rightarrow> (kst, int option) kmon" where
  "filewrite f addr n =
     kbind (get_file f) (\<lambda>x.
       if \<not> f_writable x then kret (Some (-1))
       else kbind myself (\<lambda>p.
         kseq (allocrange (p_pagetable p) addr (of_int n))
           (case f_type x of
              FD_PIPE \<Rightarrow> kpipewrite (f_pipe x) addr n
            | FD_DEVICE \<Rightarrow> if no_device (f_major x) then kret (Some (-1)) else kconsolewrite addr n
            | FD_INODE \<Rightarrow>
                kbind (filewrite_loop f addr n 0) (\<lambda>i. kret (Some (if i = n then n else -1)))
            | FD_NONE \<Rightarrow> panic ''filewrite'')))"

subsection \<open>Creating a pipe\<close>

definition close_opt :: "nat option \<Rightarrow> (kst, unit) kmon" where
  "close_opt f = (case f of None \<Rightarrow> kret () | Some f \<Rightarrow> fileclose f)"

definition pipealloc :: "(kst, (nat \<times> nat) option) kmon" where
  "pipealloc =
     kbind filealloc (\<lambda>f0.
     kbind (if f0 = None then kret None else filealloc) (\<lambda>f1.
       case (f0, f1) of
         (Some r, Some w) \<Rightarrow>
           kbind kalloc (\<lambda>pi.
             if pi = 0 then kseq (fileclose r) (kseq (fileclose w) (kret None))
             else kseq (kmodify (\<lambda>s. s\<lparr>k_pipes :=
                          (k_pipes s)(pi := pipe_init (load_bytes (km_mem s) pi PIPESIZE))\<rparr>))
                 (kseq (upd_file r (\<lambda>x. x\<lparr>f_type := FD_PIPE, f_readable := True, f_writable := False,
                                         f_pipe := pi\<rparr>))
                 (kseq (upd_file w (\<lambda>x. x\<lparr>f_type := FD_PIPE, f_readable := False, f_writable := True,
                                         f_pipe := pi\<rparr>))
                       (kret (Some (r, w))))))
       | _ \<Rightarrow> kseq (close_opt f0) (kseq (close_opt f1) (kret None))))"

end
