(* ===== verification/Vma.thy ===== *)
theory Vma
  imports Files
begin

text \<open>
  Virtual memory areas, \<^verbatim>\<open>src/kernel/vma.c\<close>. An area allocated by \<^verbatim>\<open>vma_alloc\<close> is returned with
  its lock held and is not marked as used until \<^verbatim>\<open>vma_init\<close> or \<^verbatim>\<open>vma_copy\<close> fills it in; the
  lock makes this one step.
\<close>

definition vma_alloc :: "(kst, nat option) kmon" where
  "vma_alloc = kget (\<lambda>s. find_slot (\<lambda>v. \<not> vm_used v) (k_vmas s))"

definition vma_init_full ::
  "vref \<Rightarrow> u64 \<Rightarrow> u64 \<Rightarrow> u64 \<Rightarrow> nat option \<Rightarrow> u64 \<Rightarrow> u32 \<Rightarrow> u32 \<Rightarrow> nat option \<Rightarrow> (kst, unit) kmon" where
  "vma_init_full r start len file_length file offset permission flags next =
     kseq (upd_vma r (\<lambda>v. v\<lparr>vm_used := True\<rparr>))
    (kseq (case file of None \<Rightarrow> kret () | Some f \<Rightarrow> kbind (filedup f) (\<lambda>_. kret ()))
          (upd_vma r (\<lambda>v. v\<lparr>vm_start := start, vm_length := len, vm_file_length := file_length,
             vm_file := file, vm_offset := offset, vm_permission := permission, vm_flags := flags,
             vm_next := next\<rparr>)))"

definition vma_init ::
  "vref \<Rightarrow> u64 \<Rightarrow> u64 \<Rightarrow> nat option \<Rightarrow> u64 \<Rightarrow> u32 \<Rightarrow> u32 \<Rightarrow> nat option \<Rightarrow> (kst, unit) kmon" where
  "vma_init r start len file offset permission flags next =
     vma_init_full r start len len file offset permission flags next"

definition vma_copy :: "vref \<Rightarrow> vref \<Rightarrow> (kst, unit) kmon" where
  "vma_copy a b = kbind (get_vma b) (\<lambda>v. upd_vma a (\<lambda>_. v))"

subsection \<open>Unmapping part of an area\<close>

definition writeback_op :: "nat \<Rightarrow> u64 \<Rightarrow> u32 \<Rightarrow> u32 \<Rightarrow> (kst, unit) kmon" where
  "writeback_op ip start file_pos n =
     kbind mypid (\<lambda>pid.
       kseq fs_begin_op
      (kseq (ilock pid ip)
      (kbind (writei (either_copyin True) ip start file_pos n) (\<lambda>_.
       kseq (iunlock pid ip) fs_end_op))))"

definition writeback :: "vma \<Rightarrow> u64 \<Rightarrow> u64 \<Rightarrow> (kst, unit) kmon" where
  "writeback v start write_end =
     (case vm_file v of
        None \<Rightarrow> kret ()
      | Some f \<Rightarrow>
          kwhen (vm_flags v AND MAP_SHARED \<noteq> 0 \<and> write_end > start)
            (kbind (get_file f) (\<lambda>x.
               writeback_op (f_ip x) start (ucast (start - vm_start v + vm_offset v))
                 (ucast (write_end - start)))))"

text \<open>The body of the loop of \<^verbatim>\<open>vma_free_mem\<close>, for the page at \<open>pos\<close>.\<close>

definition vma_free_page :: "u64 \<Rightarrow> vref \<Rightarrow> u64 \<Rightarrow> u64 \<Rightarrow> u64 \<Rightarrow> (kst, unit) kmon" where
  "vma_free_page pagetable r addr len pos =
     kbind (get_vma r) (\<lambda>v.
       let start = (if addr > pos then addr else pos);
           fin = (if pos + PGSIZE > addr + len then addr + len else pos + PGSIZE);
           write_end = (if fin > vm_start v + vm_file_length v then vm_start v + vm_file_length v else fin)
       in kbind (is_page_mapped pagetable pos) (\<lambda>m.
            if m = 0 then kret ()
            else kseq (writeback v start write_end)
              (if start > pos \<and> start > vm_start v \<or>
                  fin < pos + PGSIZE \<and> fin < vm_start v + vm_length v
               then kbind (walkaddr pagetable start) (\<lambda>pa.
                      kmemset (pa + (start - pos)) 0 (ucast (fin - start)))
               else uvmunmap pagetable pos 1 True)))"

lemma is_page_mapped_below: "is_page_mapped pt va s = Inr y \<Longrightarrow> va < MAXVA"
  by (auto simp: is_page_mapped_def dest: walk_below_MAXVA)

lemma vma_free_page_below: "vma_free_page pt r addr len pos s = Inr y \<Longrightarrow> pos < MAXVA"
  by (auto simp: vma_free_page_def Let_def get_vma_def dest: is_page_mapped_below)

function vma_free_loop :: "u64 \<Rightarrow> vref \<Rightarrow> u64 \<Rightarrow> u64 \<Rightarrow> u64 \<Rightarrow> (kst, unit) kmon" where
  "vma_free_loop pagetable r addr len pos s =
     (if pos < addr + len
      then (case vma_free_page pagetable r addr len pos s of
              Inl e \<Rightarrow> Inl e
            | Inr (_, s') \<Rightarrow> vma_free_loop pagetable r addr len (pos + PGSIZE) s')
      else Inr ((), s))"
  by pat_completeness auto
termination
  by (relation "measure (\<lambda>(pagetable, r, addr, len, pos, s). 0x4000001000 - unat pos)")
     (auto dest!: vma_free_page_below page_step_measure)

declare vma_free_loop.simps [simp del]

definition vma_free_mem :: "u64 \<Rightarrow> vref \<Rightarrow> u64 \<Rightarrow> u64 \<Rightarrow> (kst, unit) kmon" where
  "vma_free_mem pagetable r addr len = vma_free_loop pagetable r addr len (PGROUNDDOWN addr)"

definition vma_free :: "u64 \<Rightarrow> vref \<Rightarrow> (kst, unit) kmon" where
  "vma_free pagetable r =
     kbind (get_vma r) (\<lambda>v.
       kseq (vma_free_mem pagetable r (vm_start v) (vm_length v))
      (kseq (case vm_file v of None \<Rightarrow> kret () | Some f \<Rightarrow> fileclose f)
            (upd_vma r (\<lambda>_. vma_zero))))"

text \<open>\<^verbatim>\<open>for(it = ...; it != 0; it = next) { next = it->next; vma_free(pagetable, it); }\<close>\<close>

fun vma_free_all :: "nat \<Rightarrow> u64 \<Rightarrow> nat option \<Rightarrow> (kst, unit) kmon" where
  "vma_free_all fuel pagetable None = kret ()"
| "vma_free_all 0 pagetable (Some v) = fault ''vma list is cyclic''"
| "vma_free_all (Suc fuel) pagetable (Some v) =
     kbind (get_vma (Area v)) (\<lambda>x.
       kseq (vma_free pagetable (Area v)) (vma_free_all fuel pagetable (vm_next x)))"

subsection \<open>sbrk, mmap, munmap (sysproc.c)\<close>

text \<open>
  The bodies of the system calls after their arguments have been fetched. The predecessor of the
  heap area in the list, or \<open>None\<close> where the search runs off the end of the list.
\<close>

fun prev_of :: "vref list \<Rightarrow> kst \<Rightarrow> nat \<Rightarrow> vref option" where
  "prev_of [] s h = None"
| "prev_of (r # rs) s h = (if vm_next (vma_at r s) = Some h then Some r else prev_of rs s h)"

definition sbrk :: "u32 \<Rightarrow> (kst, u64) kmon" where
  "sbrk n =
     kbind curproc (\<lambda>p.
     kbind (get_proc p) (\<lambda>x.
       case p_heap x of
         None \<Rightarrow> fault ''heap''
       | Some h \<Rightarrow>
           kbind (get_vma (Area h)) (\<lambda>v.
           kbind (vma_list_from (Some (Head p))) (\<lambda>rs.
           kbind (kget (\<lambda>s. map_option (\<lambda>r. vma_at r s) (prev_of rs s h))) (\<lambda>prev.
             if sint n < 0 \<and> vm_length v < scast (- n) then kret (-1)
             else if sint n > 0 \<and> prev = None then fault ''heap is not in the list''
             else if sint n > 0 \<and>
                 vm_start v + vm_length v + scast n > vm_start (the prev) then kret (-1)
             else let addr = vm_start v + vm_length v
               in kseq (kwhen (sint n < 0)
                          (vma_free_mem (p_pagetable x) (Area h) (addr - scast (- n)) (scast (- n))))
                 (kseq (upd_vma (Area h) (\<lambda>v. v\<lparr>vm_length := vm_length v + scast n\<rparr>))
                 (kbind (get_vma (Area h)) (\<lambda>v.
                  kseq (upd_proc p (\<lambda>x. x\<lparr>p_sz := vm_start v + vm_length v\<rparr>))
                       (kret addr)))))))))"

fun mmap_find :: "vref list \<Rightarrow> kst \<Rightarrow> u64 \<Rightarrow> vref option" where
  "mmap_find [] s len = None"
| "mmap_find (r # rs) s len =
     (case vm_next (vma_at r s) of
        None \<Rightarrow> None
      | Some nx \<Rightarrow>
          let available_space = PGROUNDDOWN (vm_start (vma_at r s)) -
                PGROUNDUP (vm_start (k_vmas s ! nx) + vm_length (k_vmas s ! nx))
          in if available_space \<ge> PGROUNDUP len then Some r else mmap_find rs s len)"

definition mmap :: "u64 \<Rightarrow> u32 \<Rightarrow> u32 \<Rightarrow> nat \<Rightarrow> u64 \<Rightarrow> (kst, u64) kmon" where
  "mmap len prot flags f offset =
     kbind curproc (\<lambda>p.
     kbind (get_file f) (\<lambda>x.
       if prot AND PROT_WRITE \<noteq> 0 \<and> flags AND MAP_SHARED \<noteq> 0 \<and> \<not> f_writable x then kret (-1)
       else if prot AND PROT_READ \<noteq> 0 \<and> \<not> f_readable x then kret (-1)
       else kbind (vma_list_from (Some (Head p))) (\<lambda>rs.
            kbind (kget (\<lambda>s. mmap_find rs s len)) (\<lambda>found.
              case found of
                None \<Rightarrow> kret (-1)
              | Some r \<Rightarrow>
                  kbind vma_alloc (\<lambda>a.
                    case a of
                      None \<Rightarrow> kret (-1)
                    | Some v \<Rightarrow>
                        kbind (get_vma r) (\<lambda>it.
                          let start = PGROUNDDOWN (vm_start it) - PGROUNDUP len
                          in kseq (vma_init (Area v) start len (Some f) offset prot flags (vm_next it))
                            (kseq (upd_vma r (\<lambda>it. it\<lparr>vm_next := Some v\<rparr>))
                                  (kret start))))))))"

text \<open>
  The search of \<^verbatim>\<open>munmap\<close> stops at the last area without examining it. The first component of the
  result is the predecessor.
\<close>

fun munmap_find :: "vref option \<Rightarrow> vref list \<Rightarrow> kst \<Rightarrow> u64 \<Rightarrow> u64 \<Rightarrow> (vref option \<times> vref) option" where
  "munmap_find prev [] s addr len = None"
| "munmap_find prev (r # rs) s addr len =
     (let v = vma_at r s
      in if vm_next v = None then None
         else if vm_start v \<le> addr \<and> vm_start v + vm_length v \<ge> addr + len then Some (prev, r)
         else munmap_find (Some r) rs s addr len)"

definition munmap :: "u64 \<Rightarrow> u64 \<Rightarrow> (kst, u64) kmon" where
  "munmap addr len =
     kbind curproc (\<lambda>p.
     kbind (get_proc p) (\<lambda>x.
     kbind (vma_list_from (Some (Head p))) (\<lambda>rs.
     kbind (kget (\<lambda>s. munmap_find None rs s addr len)) (\<lambda>found.
       case found of
         None \<Rightarrow> kret (-1)
       | Some (prev, r) \<Rightarrow>
           kbind (get_vma r) (\<lambda>v.
             if vm_start v = addr \<and> vm_length v = len then
               (case prev of
                  None \<Rightarrow> fault ''prev''
                | Some pr \<Rightarrow>
                    kseq (upd_vma pr (\<lambda>w. w\<lparr>vm_next := vm_next v\<rparr>))
                   (kseq (vma_free (p_pagetable x) r)
                         (kret 0)))
             else if vm_start v = addr then
               (if PGROUNDDOWN len \<noteq> len then kret (-1)
                else kseq (vma_free_mem (p_pagetable x) r addr len)
                    (kseq (upd_vma r (\<lambda>v. v\<lparr>vm_start := addr + len, vm_offset := vm_offset v + len,
                                            vm_length := vm_length v - len\<rparr>))
                          (kret 0)))
             else if vm_start v + vm_length v = addr + len then
               kseq (vma_free_mem (p_pagetable x) r addr len)
              (kseq (upd_vma r (\<lambda>v. v\<lparr>vm_length := vm_length v - len\<rparr>))
                    (kret 0))
             else kret (-1))))))"

end
