(* ===== verification/Procs.thy ===== *)
theory Procs
  imports Vma
begin

text \<open>
  Creation and end of processes, the first half of \<^verbatim>\<open>src/kernel/proc.c\<close>. \<^verbatim>\<open>allocproc\<close> returns a
  process with its lock held; the model runs it together with the caller's use of the process.
\<close>

subsection \<open>Page tables of processes\<close>

definition proc_pagetable :: "nat \<Rightarrow> (kst, u64) kmon" where
  "proc_pagetable p =
     kbind uvmcreate (\<lambda>pagetable.
       if pagetable = 0 then kret 0
       else kbind (kget k_trampoline) (\<lambda>tramp.
            kbind (mappages pagetable TRAMPOLINE PGSIZE tramp (PTE_R OR PTE_X)) (\<lambda>r.
              if r < 0 then kseq (uvmfree pagetable 0) (kret 0)
              else kbind (get_proc p) (\<lambda>x.
                   kbind (mappages pagetable TRAPFRAME PGSIZE (p_trapframe x) (PTE_R OR PTE_W)) (\<lambda>r.
                     if r < 0
                     then kseq (uvmunmap pagetable TRAMPOLINE 1 False)
                         (kseq (uvmfree pagetable 0) (kret 0))
                     else kret pagetable)))))"

definition proc_freepagetable :: "u64 \<Rightarrow> u64 \<Rightarrow> (kst, unit) kmon" where
  "proc_freepagetable pagetable sz =
     kseq (uvmunmap pagetable TRAMPOLINE 1 False)
    (kseq (uvmunmap pagetable TRAPFRAME 1 False)
          (uvmfree pagetable sz))"

subsection \<open>The process table\<close>

definition freeproc :: "nat \<Rightarrow> (kst, unit) kmon" where
  "freeproc p =
     kbind (get_proc p) (\<lambda>x.
       kseq (kwhen (p_trapframe x \<noteq> 0) (kfree (p_trapframe x)))
      (kseq (upd_proc p (\<lambda>x. x\<lparr>p_trapframe := 0\<rparr>))
      (kseq (kwhen (p_pagetable x \<noteq> 0) (proc_freepagetable (p_pagetable x) 0))
      (kseq (upd_proc p (\<lambda>x. x\<lparr>p_pagetable := 0, p_sz := 0, p_pid := 0, p_parent := None,
               p_name := (p_name x)(0 := 0), p_chan := Ch_none, p_killed := False, p_xstate := 0,
               p_ticks := 0, p_vma_start := (p_vma_start x)\<lparr>vm_next := None\<rparr>\<rparr>))
      (kseq (kwhen (p_state x = RUNNING \<or> p_state x = RUNNABLE) (add_tickets (- p_tickets x)))
            (upd_proc p (\<lambda>x. x\<lparr>p_tickets := 0, p_state := UNUSED\<rparr>)))))))"

text \<open>\<^verbatim>\<open>allocproc\<close> from the label \<^verbatim>\<open>found\<close> on.\<close>

definition allocproc_found :: "nat \<Rightarrow> (kst, nat option) kmon" where
  "allocproc_found p =
     kbind allocpid (\<lambda>pid.
     kseq (upd_proc p (\<lambda>x. x\<lparr>p_pid := pid, p_state := USED\<rparr>))
    (kbind kalloc (\<lambda>tf.
     kseq (upd_proc p (\<lambda>x. x\<lparr>p_trapframe := tf\<rparr>))
       (if tf = 0 then kseq (freeproc p) (kret None)
        else kbind (proc_pagetable p) (\<lambda>pt.
          kseq (upd_proc p (\<lambda>x. x\<lparr>p_pagetable := pt\<rparr>))
            (if pt = 0 then kseq (freeproc p) (kret None)
             else kbind (kget k_forkret) (\<lambda>ra.
               kseq (upd_proc p (\<lambda>x. x\<lparr>p_context :=
                       \<lparr>ctx_ra = ra, ctx_sp = p_kstack x + PGSIZE, ctx_s = replicate 12 0\<rparr>\<rparr>))
                    (kret (Some p)))))))))"

definition allocproc :: "(kst, nat option) kmon" where
  "allocproc =
     kbind (kget k_proc) (\<lambda>tab.
       case find_slot (\<lambda>x. p_state x = UNUSED) tab of
         None \<Rightarrow> kret None
       | Some p \<Rightarrow> allocproc_found p)"

text \<open>Fifty-two bytes of \<^verbatim>\<open>initcode\<close>.\<close>

definition userinit :: "(kst, unit) kmon" where
  "userinit =
     kbind allocproc (\<lambda>a.
     kseq (kmodify (\<lambda>s. s\<lparr>k_initproc := a\<rparr>))
       (case a of
          None \<Rightarrow> fault ''userinit''
        | Some p \<Rightarrow>
            kbind (get_proc p) (\<lambda>x.
            kbind (kget k_initcode) (\<lambda>code.
            kseq (uvminit (p_pagetable x) code 52)
           (kseq (upd_proc p (\<lambda>x. x\<lparr>p_sz := PGSIZE, p_ticks := 0\<rparr>))
           (kseq (tf_store p TF_epc 0)
           (kseq (tf_store p TF_sp PGSIZE)
           (kbind (namei 0 0 [slash]) (\<lambda>cwd.
            kseq (upd_proc p (\<lambda>x. x\<lparr>p_name := safestrcpy (p_name x) (cstr (bytes ''initcode'')) 16,
                    p_cwd := cwd, p_tickets := of_int MINTICKETS\<rparr>))
           (kseq (add_tickets (of_int MINTICKETS))
           (kbind vma_alloc (\<lambda>v.
            kseq (upd_proc p (\<lambda>x. x\<lparr>p_state := RUNNABLE, p_vma_start := (p_vma_start x)
                    \<lparr>vm_file := None, vm_length := 2 * PGSIZE, vm_file_length := 0,
                     vm_start := MAXVA - 2 * PGSIZE, vm_permission := 0, vm_offset := 0,
                     vm_next := v\<rparr>\<rparr>))
              (case v of
                 None \<Rightarrow> fault ''userinit: vma''
               | Some v \<Rightarrow> vma_init (Area v) 0 PGSIZE None 0 (PROT_EXEC OR PROT_WRITE OR PROT_READ)
                             MAP_PRIVATE None)))))))))))))"

text \<open>\<^verbatim>\<open>growproc\<close> keeps the size in a 32-bit variable.\<close>

definition growproc :: "u32 \<Rightarrow> (kst, int) kmon" where
  "growproc n =
     kbind curproc (\<lambda>p.
     kbind (get_proc p) (\<lambda>x.
       let sz = (ucast (p_sz x) :: u32)
       in if sint n > 0 then
            kbind (uvmalloc (p_pagetable x) (ucast sz) (ucast (sz + n))) (\<lambda>r.
              if (ucast r :: u32) = 0 then kret (-1)
              else kseq (upd_proc p (\<lambda>x. x\<lparr>p_sz := ucast (ucast r :: u32)\<rparr>)) (kret 0))
          else if sint n < 0 then
            kbind (uvmdealloc (p_pagetable x) (ucast sz) (ucast (sz + n))) (\<lambda>r.
              kseq (upd_proc p (\<lambda>x. x\<lparr>p_sz := ucast (ucast r :: u32)\<rparr>)) (kret 0))
          else kseq (upd_proc p (\<lambda>x. x\<lparr>p_sz := ucast sz\<rparr>)) (kret 0)))"

subsection \<open>fork\<close>

definition fork_ofile :: "nat \<Rightarrow> nat \<Rightarrow> nat \<Rightarrow> (kst, unit) kmon" where
  "fork_ofile p np i =
     kbind (get_proc p) (\<lambda>x.
       case p_ofile x ! i of
         None \<Rightarrow> kret ()
       | Some f \<Rightarrow> kbind (filedup f) (\<lambda>f. upd_proc np (\<lambda>y. y\<lparr>p_ofile := (p_ofile y)[i := Some f]\<rparr>)))"

text \<open>
  The loop over the parent's areas; \<open>it2\<close> is the last area of the child. The value is false on the
  error path, where the child's areas have been freed.
\<close>

fun fork_vmas :: "nat \<Rightarrow> nat \<Rightarrow> vref list \<Rightarrow> vref \<Rightarrow> (kst, bool) kmon" where
  "fork_vmas p np [] it2 = kseq (upd_vma it2 (\<lambda>v. v\<lparr>vm_next := None\<rparr>)) (kret True)"
| "fork_vmas p np (r # rs) it2 =
     kbind (get_proc p) (\<lambda>x.
     kbind (get_proc np) (\<lambda>y.
     kbind (get_vma r) (\<lambda>v.
     kbind vma_alloc (\<lambda>a.
     kseq (upd_vma it2 (\<lambda>w. w\<lparr>vm_next := a\<rparr>))
    (kbind (case a of
              None \<Rightarrow> kret (-1)
            | Some _ \<Rightarrow> uvmcopy_offseted (p_pagetable x) (p_pagetable y) (vm_start v) (vm_length v)) (\<lambda>c.
       case a of
         Some n \<Rightarrow>
           if c < 0 then
             kbind (get_vma (Head np)) (\<lambda>h.
               kseq (vma_free_all (NVMA + 1) (p_pagetable y) (vm_next h)) (kret False))
           else
             kseq (vma_copy (Area n) r)
            (kseq (case vm_file v of None \<Rightarrow> kret () | Some f \<Rightarrow> kbind (filedup f) (\<lambda>_. kret ()))
            (kseq (kwhen (map_option Area (p_heap x) = Some r) (upd_proc np (\<lambda>y. y\<lparr>p_heap := Some n\<rparr>)))
                  (fork_vmas p np rs (Area n))))
       | None \<Rightarrow>
           kbind (get_vma (Head np)) (\<lambda>h.
             kseq (vma_free_all (NVMA + 1) (p_pagetable y) (vm_next h)) (kret False))))))))"

text \<open>The child \<open>np\<close> of \<open>p\<close> is filled in and made runnable before its areas are copied.\<close>

definition fork_child :: "nat \<Rightarrow> nat \<Rightarrow> (kst, int) kmon" where
  "fork_child p np =
     kbind (get_proc p) (\<lambda>x.
     kseq (upd_proc np (\<lambda>y. y\<lparr>p_sz := p_sz x, p_tickets := p_tickets x, p_ticks := 0\<rparr>))
    (kbind (get_proc np) (\<lambda>y.
     kseq (kmodify (\<lambda>s. s\<lparr>km_mem := store_bytes (km_mem s) (p_trapframe y)
                            (load_bytes (km_mem s) (p_trapframe x) 288)\<rparr>))
    (kseq (tf_store np TF_a0 0)
    (kseq (kfor [0..<NOFILE] (fork_ofile p np))
    (kbind (case p_cwd x of None \<Rightarrow> fault ''idup'' | Some c \<Rightarrow> idup c) (\<lambda>cwd.
     kseq (upd_proc np (\<lambda>y. y\<lparr>p_cwd := Some cwd, p_name := safestrcpy (p_name y) (p_name x) 16,
                             p_parent := Some p\<rparr>))
    (kseq (add_tickets (p_tickets x))
    (kseq (upd_proc np (\<lambda>y. y\<lparr>p_state := RUNNABLE\<rparr>))
    (kseq (vma_copy (Head np) (Head p))
    (kbind (vma_list_from (map_option Area (vm_next (p_vma_start x)))) (\<lambda>rs.
     kbind (fork_vmas p np rs (Head np)) (\<lambda>ok.
       if ok then kret (p_pid y)
       else kseq (freeproc np) (kret (-1)))))))))))))))"

definition fork :: "(kst, int) kmon" where
  "fork =
     kbind curproc (\<lambda>p.
     kbind allocproc (\<lambda>a. case a of None \<Rightarrow> kret (-1) | Some np \<Rightarrow> fork_child p np))"

subsection \<open>exit and wait\<close>

definition reparent :: "nat \<Rightarrow> (kst, unit) kmon" where
  "reparent p =
     kfor [0..<NPROC] (\<lambda>i.
       kbind (get_proc i) (\<lambda>y.
         kwhen (p_parent y = Some p)
           (kbind (kget k_initproc) (\<lambda>init.
              kseq (upd_proc i (\<lambda>y. y\<lparr>p_parent := init\<rparr>))
                   (case init of None \<Rightarrow> kret () | Some q \<Rightarrow> wakeup (Ch_proc q))))))"

definition exit_fd :: "nat \<Rightarrow> nat \<Rightarrow> (kst, unit) kmon" where
  "exit_fd p fd =
     kbind (get_proc p) (\<lambda>x.
       case p_ofile x ! fd of
         None \<Rightarrow> kret ()
       | Some f \<Rightarrow> kseq (fileclose f)
                     (upd_proc p (\<lambda>x. x\<lparr>p_ofile := (p_ofile x)[fd := None]\<rparr>)))"

definition exit_zombie :: "nat \<Rightarrow> (kst, unit) kmon" where
  "exit_zombie p =
     kbind (get_proc p) (\<lambda>x.
       kseq (kwhen (p_state x = RUNNING \<or> p_state x = RUNNABLE) (add_tickets (- p_tickets x)))
            (upd_proc p (\<lambda>x. x\<lparr>p_state := ZOMBIE\<rparr>)))"

text \<open>\<^verbatim>\<open>exit\<close> ends in \<^verbatim>\<open>sched\<close> with the process a zombie, and never returns.\<close>

definition kexit :: "u32 \<Rightarrow> (kst, unit) kmon" where
  "kexit status =
     kbind curproc (\<lambda>p.
     kbind (kget k_initproc) (\<lambda>init.
       if init = Some p then panic ''init exiting''
       else
         kseq (kfor [0..<NOFILE] (exit_fd p))
        (kbind (get_proc p) (\<lambda>x.
         kseq (vma_free_all (NVMA + 1) (p_pagetable x) (vm_next (p_vma_start x)))
        (kseq fs_begin_op
        (kseq (case p_cwd x of None \<Rightarrow> fault ''iput'' | Some c \<Rightarrow> iput (p_pid x) c)
        (kseq fs_end_op
        (kseq (upd_proc p (\<lambda>x. x\<lparr>p_cwd := None\<rparr>))
        (kseq (reparent p)
        (kseq (kbind (get_proc p) (\<lambda>x. case p_parent x of None \<Rightarrow> kret () | Some q \<Rightarrow> wakeup (Ch_proc q)))
        (kseq (upd_proc p (\<lambda>x. x\<lparr>p_xstate := status\<rparr>))
        (kseq (exit_zombie p)
              sched))))))))))))"

datatype wait_scan = Reaped int | Scanned bool

fun wait_loop :: "nat \<Rightarrow> u64 \<Rightarrow> nat list \<Rightarrow> bool \<Rightarrow> (kst, wait_scan) kmon" where
  "wait_loop p addr [] havekids = kret (Scanned havekids)"
| "wait_loop p addr (i # is) havekids =
     kbind (get_proc i) (\<lambda>y.
       if p_parent y = Some p then
         (if p_state y = ZOMBIE then
            kbind (get_proc p) (\<lambda>x.
            kbind (if addr \<noteq> 0 then copyout (p_pagetable x) addr (le_bytes 4 (unat (p_xstate y))) else kret 0) (\<lambda>r.
              if r < 0 then kret (Reaped (-1))
              else kseq (freeproc i) (kret (Reaped (p_pid y)))))
          else wait_loop p addr is True)
       else wait_loop p addr is havekids)"

text \<open>One round of \<^verbatim>\<open>wait\<close>; \<^term>\<open>None\<close> when it goes to sleep, to scan again when woken.\<close>

definition wait :: "u64 \<Rightarrow> (kst, int option) kmon" where
  "wait addr =
     kbind curproc (\<lambda>p.
     kbind (wait_loop p addr [0..<NPROC] False) (\<lambda>r.
       case r of
         Reaped pid \<Rightarrow> kret (Some pid)
       | Scanned havekids \<Rightarrow>
           kbind (get_proc p) (\<lambda>x.
             if \<not> havekids \<or> p_killed x then kret (Some (-1))
             else kseq (sleep (Ch_proc p)) (kret None))))"

text \<open>\<^verbatim>\<open>procdump\<close>: state names by number, with a gap at \<^verbatim>\<open>USED\<close>.\<close>

fun state_name :: "procstate \<Rightarrow> string" where
  "state_name UNUSED = ''unused''"
| "state_name USED = ''???''"
| "state_name SLEEPING = ''sleep ''"
| "state_name RUNNABLE = ''runble''"
| "state_name RUNNING = ''run   ''"
| "state_name ZOMBIE = ''zombie''"

definition name_text :: "cbuf \<Rightarrow> u8 list" where
  "name_text nm = takeWhile (\<lambda>c. c \<noteq> 0) (map nm [0..<16])"

fun procdump_lines :: "proc list \<Rightarrow> u8 list" where
  "procdump_lines [] = []"
| "procdump_lines (x # xs) =
     (if p_state x = UNUSED then procdump_lines xs
      else the (printf (\<lambda>a. if a = 1 then bytes (state_name (p_state x)) else name_text (p_name x))
                  (bytes ''%d %s %s'') [of_int (p_pid x), 1, 2]) @ [10] @ procdump_lines xs)"

definition procdump :: "kst \<Rightarrow> u8 list" where
  "procdump s = [10] @ procdump_lines (k_proc s)"

end
