(* ===== verification/Exec.thy ===== *)
theory Exec
  imports Procs
begin

text \<open>
  \<^verbatim>\<open>src/kernel/exec.c\<close> with the ELF layouts of \<^verbatim>\<open>src/kernel/elf.h\<close>. The program is not
  loaded: every segment becomes a memory area backed by the file, filled in page by page by
  \<^verbatim>\<open>lazyalloc\<close>. Jumps to the label \<^verbatim>\<open>bad\<close> call \<open>exec_bad\<close> with the values the local variables
  have at that point, in particular the variable \<^verbatim>\<open>vma\<close>, which is null right after a failed
  \<^verbatim>\<open>vma_alloc\<close>.
\<close>

subsection \<open>ELF headers (elf.h)\<close>

abbreviation (input) ELF_MAGIC :: u32 where "ELF_MAGIC \<equiv> 0x464C457F"

record elfhdr =
  elf_magic :: u32
  elf_entry :: u64
  elf_phoff :: u64
  elf_phnum :: u16

definition get_elfhdr :: "u8 list \<Rightarrow> elfhdr" where
  "get_elfhdr bs = \<lparr>elf_magic = of_nat (get 4 bs 0), elf_entry = of_nat (get 8 bs 24),
     elf_phoff = of_nat (get 8 bs 32), elf_phnum = of_nat (get 2 bs 56)\<rparr>"

record proghdr =
  ph_type :: u32
  ph_flags :: u32
  ph_off :: u64
  ph_vaddr :: u64
  ph_filesz :: u64
  ph_memsz :: u64

definition get_proghdr :: "u8 list \<Rightarrow> proghdr" where
  "get_proghdr bs = \<lparr>ph_type = of_nat (get 4 bs 0), ph_flags = of_nat (get 4 bs 4),
     ph_off = of_nat (get 8 bs 8), ph_vaddr = of_nat (get 8 bs 16),
     ph_filesz = of_nat (get 8 bs 32), ph_memsz = of_nat (get 8 bs 40)\<rparr>"

definition seg_permission :: "u32 \<Rightarrow> u32" where
  "seg_permission flags =
     (if flags AND 2 \<noteq> 0 then PROT_WRITE else 0) OR
     (if flags AND 4 \<noteq> 0 then PROT_READ else 0) OR
     (if flags AND 1 \<noteq> 0 then PROT_EXEC else 0)"

subsection \<open>Segments\<close>

text \<open>
  The loop over the program headers. The result is the end of the last segment and the head of
  the new list of areas, or the value of \<^verbatim>\<open>vma\<close> on a jump to \<^verbatim>\<open>bad\<close>.
\<close>

definition bad_segment :: "proghdr \<Rightarrow> bool" where
  "bad_segment ph \<longleftrightarrow> ph_memsz ph < ph_filesz ph \<or> ph_vaddr ph + ph_memsz ph < ph_vaddr ph
     \<or> ph_vaddr ph mod PGSIZE \<noteq> 0"

fun exec_load :: "nat \<Rightarrow> nat \<Rightarrow> nat \<Rightarrow> u32 \<Rightarrow> u64 \<Rightarrow> nat option \<Rightarrow> (kst, nat option + u64 \<times> nat option) kmon" where
  "exec_load 0 ip elf_file off sz vma = kret (Inr (sz, vma))"
| "exec_load (Suc n) ip elf_file off sz vma =
     kbind (readi obj_out ip 0 off 56) (\<lambda>(r, bs).
       if r \<noteq> 56 then kret (Inl vma)
       else let ph = get_proghdr bs
            in if ph_type ph \<noteq> 1 then exec_load n ip elf_file (off + 56) sz vma
               else if bad_segment ph then kret (Inl vma)
               else kbind vma_alloc (\<lambda>a.
                 case a of
                   None \<Rightarrow> kret (Inl None)
                 | Some v \<Rightarrow>
                     kseq (vma_init_full (Area v) (ph_vaddr ph) (ph_memsz ph) (ph_filesz ph)
                             (Some elf_file) (ph_off ph) (seg_permission (ph_flags ph)) MAP_PRIVATE vma)
                          (exec_load n ip elf_file (off + 56) (ph_vaddr ph + ph_memsz ph) (Some v))))"

subsection \<open>The stack\<close>

text \<open>
  \<open>None\<close> is a jump to \<^verbatim>\<open>bad\<close>. The list \<open>ustack\<close> collects the addresses of the argument strings.
\<close>

fun push_args :: "u64 \<Rightarrow> u64 \<Rightarrow> u8 list list \<Rightarrow> u64 \<Rightarrow> u64 list \<Rightarrow> (kst, (u64 \<times> u64 list) option) kmon" where
  "push_args pagetable stackbase [] sp ustack = kret (Some (sp, ustack))"
| "push_args pagetable stackbase (arg # argv) sp ustack =
     (let sp1 = sp - of_nat (length arg + 1); sp2 = sp1 - sp1 mod 16
      in if length ustack \<ge> MAXARG then kret None
         else if sp2 < stackbase then kret None
         else kbind (copyout pagetable sp2 (arg @ [0])) (\<lambda>r.
                if r < 0 then kret None
                else push_args pagetable stackbase argv sp2 (ustack @ [sp2])))"

definition word_bytes :: "u64 list \<Rightarrow> u8 list" where
  "word_bytes ws = concat (map (\<lambda>w. le_bytes 8 (unat w)) ws)"

definition push_argv :: "u64 \<Rightarrow> u64 \<Rightarrow> u64 \<Rightarrow> u64 list \<Rightarrow> (kst, u64 option) kmon" where
  "push_argv pagetable stackbase sp ustack =
     (let sp1 = sp - (of_nat (length ustack) + 1) * 8; sp2 = sp1 - sp1 mod 16
      in if sp2 < stackbase then kret None
         else kbind (copyout pagetable sp2 (word_bytes (ustack @ [0]))) (\<lambda>r.
                kret (if r < 0 then None else Some sp2)))"

text \<open>The last path element, \<^verbatim>\<open>for(last=s=path; *s; s++) if(*s == '/') last = s+1;\<close>\<close>

fun last_elem :: "u8 list \<Rightarrow> u8 list \<Rightarrow> u8 list" where
  "last_elem lst [] = lst"
| "last_elem lst (c # cs) = last_elem (if c = slash then cs else lst) cs"

subsection \<open>exec\<close>

definition exec_bad :: "nat \<Rightarrow> nat option \<Rightarrow> u64 \<Rightarrow> nat option \<Rightarrow> nat option \<Rightarrow> (kst, int) kmon" where
  "exec_bad p old_vma pagetable vma ip =
     kseq (upd_vma (Head p) (\<lambda>v. v\<lparr>vm_next := old_vma\<rparr>))
    (kseq (kwhen (pagetable \<noteq> 0)
             (kseq (vma_free_all (NVMA + 1) pagetable vma) (proc_freepagetable pagetable 0)))
    (kseq (case ip of None \<Rightarrow> kret ()
           | Some ip \<Rightarrow> kbind mypid (\<lambda>pid. kseq (iunlockput pid ip) fs_end_op))
          (kret (-1))))"

text \<open>From the new image on the stack to the return value: after this nothing can fail.\<close>

definition exec_commit :: "nat \<Rightarrow> u8 list \<Rightarrow> nat option \<Rightarrow> u64 \<Rightarrow> u64 \<Rightarrow> u64 \<Rightarrow> u64 \<Rightarrow> nat \<Rightarrow> nat \<Rightarrow> (kst, int) kmon" where
  "exec_commit p path old_vma pagetable sz entry sp heap argc =
     kseq (tf_store p TF_a1 sp)
    (kbind (get_proc p) (\<lambda>x.
     kseq (upd_proc p (\<lambda>x. x\<lparr>p_name := safestrcpy (p_name x) (cstr (last_elem path path)) 16,
             p_pagetable := pagetable, p_sz := sz\<rparr>))
    (kseq (tf_store p TF_epc entry)
    (kseq (tf_store p TF_sp sp)
    (kseq (vma_free_all (NVMA + 1) (p_pagetable x) old_vma)
    (kseq (proc_freepagetable (p_pagetable x) 0)
    (kseq (upd_proc p (\<lambda>x. x\<lparr>p_heap := Some heap\<rparr>))
          (kret (int argc)))))))))"

definition exec_stack ::
  "nat \<Rightarrow> u8 list \<Rightarrow> u8 list list \<Rightarrow> nat option \<Rightarrow> u64 \<Rightarrow> u64 \<Rightarrow> u64 \<Rightarrow> nat option \<Rightarrow> (kst, int) kmon" where
  "exec_stack p path argv old_vma pagetable entry sz0 vma =
     kbind vma_alloc (\<lambda>a.
       case a of
         None \<Rightarrow> exec_bad p old_vma pagetable None None
       | Some stk \<Rightarrow>
           let sz = PGROUNDUP sz0 + 2 * PGSIZE; stackbase = sz - PGSIZE
           in kseq (vma_init_full (Area stk) stackbase PGSIZE 0 None 0 (PROT_READ OR PROT_WRITE) MAP_PRIVATE vma)
             (kbind vma_alloc (\<lambda>a.
                case a of
                  None \<Rightarrow> exec_bad p old_vma pagetable None None
                | Some heap \<Rightarrow>
                    kseq (vma_init_full (Area heap) sz 0 0 None 0 (PROT_READ OR PROT_WRITE) MAP_PRIVATE (Some stk))
                   (kseq (upd_vma (Head p) (\<lambda>v. v\<lparr>vm_next := Some heap\<rparr>))
                   (kbind (push_args pagetable stackbase argv sz []) (\<lambda>pushed.
                      case pushed of
                        None \<Rightarrow> exec_bad p old_vma pagetable (Some heap) None
                      | Some (sp, ustack) \<Rightarrow>
                          kbind (push_argv pagetable stackbase sp ustack) (\<lambda>r.
                            case r of
                              None \<Rightarrow> exec_bad p old_vma pagetable (Some heap) None
                            | Some sp \<Rightarrow> exec_commit p path old_vma pagetable sz entry sp heap (length ustack))))))))"

definition knamei :: "u8 list \<Rightarrow> (kst, nat option) kmon" where
  "knamei path =
     kbind myself (\<lambda>x.
       if p_cwd x = None \<and> \<not> (path \<noteq> [] \<and> hd path = slash) then fault ''cwd''
       else namei (p_pid x) (case p_cwd x of None \<Rightarrow> 0 | Some c \<Rightarrow> c) path)"

text \<open>
  The comparison \<^verbatim>\<open>(elf_file = filealloc()) < 0\<close> is never true for a pointer: without a free
  file structure the code goes on with a null pointer.
\<close>

definition exec :: "u8 list \<Rightarrow> u8 list list \<Rightarrow> (kst, int) kmon" where
  "exec path argv =
     kbind curproc (\<lambda>p.
     kbind (get_proc p) (\<lambda>x.
     let old_vma = vm_next (p_vma_start x)
     in kseq fs_begin_op
       (kbind (knamei path) (\<lambda>found.
          case found of
            None \<Rightarrow> kseq fs_end_op (kret (-1))
          | Some ip \<Rightarrow>
              kseq (ilock (p_pid x) ip)
             (kbind (readi obj_out ip 0 0 64) (\<lambda>(r, bs).
                let elf = get_elfhdr bs
                in if r \<noteq> 64 \<or> elf_magic elf \<noteq> ELF_MAGIC then exec_bad p old_vma 0 None (Some ip)
                   else kbind (proc_pagetable p) (\<lambda>pagetable.
                     if pagetable = 0 then exec_bad p old_vma 0 None (Some ip)
                     else kbind filealloc (\<lambda>f.
                       case f of
                         None \<Rightarrow> fault ''elf_file''
                       | Some elf_file \<Rightarrow>
                           kseq (upd_file elf_file (\<lambda>f. f\<lparr>f_type := FD_INODE, f_off := 0,
                                   f_readable := True, f_writable := False, f_ref := 1, f_ip := ip\<rparr>))
                          (kbind (exec_load (unat (elf_phnum elf)) ip elf_file (ucast (elf_phoff elf)) 0 None) (\<lambda>ld.
                             case ld of
                               Inl vma \<Rightarrow> exec_bad p old_vma pagetable vma (Some ip)
                             | Inr (sz, vma) \<Rightarrow>
                                 kbind (get_file elf_file) (\<lambda>ff.
                                   if f_ref ff \<le> 1 then exec_bad p old_vma pagetable vma (Some ip)
                                   else kseq (upd_file elf_file (\<lambda>f. f\<lparr>f_ref := f_ref f - 1\<rparr>))
                                       (kseq (iunlock (p_pid x) ip)
                                       (kseq fs_end_op
                                             (exec_stack p path argv old_vma pagetable (elf_entry elf) sz vma))))))))))))))"

end
