(* ===== verification/Sysfile.thy ===== *)
theory Sysfile
  imports Exec
begin

text \<open>
  System calls on files, \<^verbatim>\<open>src/kernel/sysfile.c\<close>, and the access to their arguments from
  \<^verbatim>\<open>src/kernel/syscall.c\<close>. Every call returns the 64-bit value that goes into register
  \<^verbatim>\<open>a0\<close>; \<^term>\<open>None\<close> means that the process sleeps inside the call.
\<close>

subsection \<open>Arguments (syscall.c)\<close>

definition argraw :: "nat \<Rightarrow> (kst, u64) kmon" where
  "argraw n =
     kbind curproc (\<lambda>p.
       if n < 6 then tf_load p ([TF_a0, TF_a1, TF_a2, TF_a3, TF_a4, TF_a5] ! n) else panic ''argraw'')"

definition argint :: "nat \<Rightarrow> (kst, u32) kmon" where
  "argint n = kbind (argraw n) (\<lambda>w. kret (ucast w))"

definition argaddr :: "nat \<Rightarrow> (kst, u64) kmon" where
  "argaddr n = argraw n"

definition fetchaddr :: "u64 \<Rightarrow> (kst, u64 option) kmon" where
  "fetchaddr addr =
     kbind myself (\<lambda>x.
       if addr \<ge> p_sz x \<or> addr + 8 > p_sz x then kret None
       else kbind (copyin (p_pagetable x) addr 8) (\<lambda>(r, bs).
              kret (if r \<noteq> 0 then None else Some (of_nat (le_val bs)))))"

definition fetchstr :: "u64 \<Rightarrow> nat \<Rightarrow> (kst, u8 list option) kmon" where
  "fetchstr addr mx =
     kbind myself (\<lambda>x.
     kbind (copyinstr (p_pagetable x) addr mx) (\<lambda>(r, bs). kret (if r < 0 then None else Some bs)))"

definition argstr :: "nat \<Rightarrow> nat \<Rightarrow> (kst, u8 list option) kmon" where
  "argstr n mx = kbind (argaddr n) (\<lambda>addr. fetchstr addr mx)"

subsection \<open>File descriptors\<close>

definition argfd :: "nat \<Rightarrow> (kst, (nat \<times> nat) option) kmon" where
  "argfd n =
     kbind (argint n) (\<lambda>w.
     kbind myself (\<lambda>x.
       let fd = sint w
       in if fd < 0 \<or> fd \<ge> int NOFILE then kret None
          else kret (map_option (\<lambda>f. (nat fd, f)) (p_ofile x ! nat fd))))"

definition fdalloc :: "nat \<Rightarrow> (kst, int) kmon" where
  "fdalloc f =
     kbind curproc (\<lambda>p.
     kbind (get_proc p) (\<lambda>x.
       case find_slot (\<lambda>o'. o' = None) (p_ofile x) of
         None \<Rightarrow> kret (-1)
       | Some fd \<Rightarrow>
           kseq (upd_proc p (\<lambda>x. x\<lparr>p_ofile := (p_ofile x)[fd := Some f]\<rparr>)) (kret (int fd))))"

definition set_fd :: "nat \<Rightarrow> nat option \<Rightarrow> (kst, unit) kmon" where
  "set_fd fd v = kbind curproc (\<lambda>p. upd_proc p (\<lambda>x. x\<lparr>p_ofile := (p_ofile x)[fd := v]\<rparr>))"

definition sys_dup :: "(kst, u64) kmon" where
  "sys_dup =
     kbind (argfd 0) (\<lambda>a.
       case a of
         None \<Rightarrow> kret (-1)
       | Some (_, f) \<Rightarrow>
           kbind (fdalloc f) (\<lambda>fd.
             if fd < 0 then kret (-1) else kbind (filedup f) (\<lambda>_. kret (of_int fd))))"

definition sys_read :: "(kst, u64 option) kmon" where
  "sys_read =
     kbind (argfd 0) (\<lambda>a.
       case a of
         None \<Rightarrow> kret (Some (-1))
       | Some (_, f) \<Rightarrow>
           kbind (argint 2) (\<lambda>n.
           kbind (argaddr 1) (\<lambda>p.
           kbind (fileread f p (sint n)) (\<lambda>r. kret (map_option of_int r)))))"

definition sys_write :: "(kst, u64 option) kmon" where
  "sys_write =
     kbind (argfd 0) (\<lambda>a.
       case a of
         None \<Rightarrow> kret (Some (-1))
       | Some (_, f) \<Rightarrow>
           kbind (argint 2) (\<lambda>n.
           kbind (argaddr 1) (\<lambda>p.
           kbind (filewrite f p (sint n)) (\<lambda>r. kret (map_option of_int r)))))"

definition sys_close :: "(kst, u64) kmon" where
  "sys_close =
     kbind (argfd 0) (\<lambda>a.
       case a of
         None \<Rightarrow> kret (-1)
       | Some (fd, f) \<Rightarrow> kseq (set_fd fd None) (kseq (fileclose f) (kret 0)))"

definition sys_fstat :: "u8 list \<Rightarrow> (kst, u64) kmon" where
  "sys_fstat pad =
     kbind (argfd 0) (\<lambda>a.
       case a of
         None \<Rightarrow> kret (-1)
       | Some (_, f) \<Rightarrow>
           kbind (argaddr 1) (\<lambda>st. kbind (filestat pad f st) (\<lambda>r. kret (of_int r))))"

subsection \<open>Directory operations\<close>

definition knameiparent :: "u8 list \<Rightarrow> (kst, nat option \<times> cbuf) kmon" where
  "knameiparent path =
     kbind myself (\<lambda>x.
       if p_cwd x = None \<and> \<not> (path \<noteq> [] \<and> hd path = slash) then fault ''cwd''
       else nameiparent (p_pid x) (case p_cwd x of None \<Rightarrow> 0 | Some c \<Rightarrow> c) path (\<lambda>_. 0))"

definition end_with :: "u64 \<Rightarrow> (kst, u64) kmon" where
  "end_with v = kseq fs_end_op (kret v)"

definition link_bad :: "int \<Rightarrow> nat \<Rightarrow> (kst, u64) kmon" where
  "link_bad pid ip =
     kseq (ilock pid ip)
    (kseq (upd_inode ip (\<lambda>x. x\<lparr>i_nlink := i_nlink x - 1\<rparr>))
    (kseq (iupdate ip)
    (kseq (iunlockput pid ip)
          (end_with (-1)))))"

definition sys_link :: "(kst, u64) kmon" where
  "sys_link =
     kbind (argstr 0 MAXPATH) (\<lambda>o1.
       case o1 of None \<Rightarrow> kret (-1) | Some old \<Rightarrow>
     kbind (argstr 1 MAXPATH) (\<lambda>n1.
       case n1 of None \<Rightarrow> kret (-1) | Some new \<Rightarrow>
     kbind mypid (\<lambda>pid.
     kseq fs_begin_op
    (kbind (knamei old) (\<lambda>found.
       case found of
         None \<Rightarrow> end_with (-1)
       | Some ip \<Rightarrow>
           kseq (ilock pid ip)
          (kbind (get_inode ip) (\<lambda>x.
             if i_type x = T_DIR then kseq (iunlockput pid ip) (end_with (-1))
             else
               kseq (upd_inode ip (\<lambda>x. x\<lparr>i_nlink := i_nlink x + 1\<rparr>))
              (kseq (iupdate ip)
              (kseq (iunlock pid ip)
              (kbind (knameiparent new) (\<lambda>(dpo, name).
                 case dpo of
                   None \<Rightarrow> link_bad pid ip
                 | Some dp \<Rightarrow>
                     kseq (ilock pid dp)
                    (kbind (get_inode dp) (\<lambda>d.
                     kbind (get_inode ip) (\<lambda>x.
                     kbind (if i_dev d \<noteq> i_dev x then kret (-1) else dirlink pid dp name (i_inum x)) (\<lambda>r.
                       if r < 0 then kseq (iunlockput pid dp) (link_bad pid ip)
                       else kseq (iunlockput pid dp)
                           (kseq (iput pid ip)
                                 (end_with 0)))))))))))))))))"

fun isdirempty_loop :: "nat \<Rightarrow> u32 list \<Rightarrow> (kst, bool) kmon" where
  "isdirempty_loop dp [] = kret True"
| "isdirempty_loop dp (off # offs) =
     kbind (readi obj_out dp 0 off 16) (\<lambda>(r, de).
       if r \<noteq> 16 then panic ''isdirempty: readi''
       else if de_inum de \<noteq> 0 then kret False
       else isdirempty_loop dp offs)"

definition isdirempty :: "nat \<Rightarrow> (kst, bool) kmon" where
  "isdirempty dp = kbind (get_inode dp) (\<lambda>x. isdirempty_loop dp (de_offsets 32 (i_size x)))"

definition unlink_bad :: "int \<Rightarrow> nat \<Rightarrow> (kst, u64) kmon" where
  "unlink_bad pid dp = kseq (iunlockput pid dp) (end_with (-1))"

text \<open>The part of \<^verbatim>\<open>sys_unlink\<close> after the entry has been found at offset \<open>off\<close>.\<close>

definition unlink_entry :: "int \<Rightarrow> nat \<Rightarrow> nat \<Rightarrow> u32 \<Rightarrow> (kst, u64) kmon" where
  "unlink_entry pid dp ip off =
     kseq (ilock pid ip)
    (kbind (get_inode ip) (\<lambda>x.
       if sint (i_nlink x) < 1 then panic ''unlink: nlink < 1''
       else kbind (if i_type x = T_DIR then isdirempty ip else kret True) (\<lambda>empty_dir.
         if \<not> empty_dir then kseq (iunlockput pid ip) (unlink_bad pid dp)
         else kbind (writei (obj_in (replicate 16 0)) dp 0 off 16) (\<lambda>w.
           if w \<noteq> 16 then panic ''unlink: writei''
           else kseq (kwhen (i_type x = T_DIR)
                        (kseq (upd_inode dp (\<lambda>d. d\<lparr>i_nlink := i_nlink d - 1\<rparr>)) (iupdate dp)))
               (kseq (iunlockput pid dp)
               (kseq (upd_inode ip (\<lambda>x. x\<lparr>i_nlink := i_nlink x - 1\<rparr>))
               (kseq (iupdate ip)
               (kseq (iunlockput pid ip)
                     (end_with 0)))))))))"

definition sys_unlink :: "(kst, u64) kmon" where
  "sys_unlink =
     kbind (argstr 0 MAXPATH) (\<lambda>p1.
       case p1 of None \<Rightarrow> kret (-1) | Some path \<Rightarrow>
     kbind mypid (\<lambda>pid.
     kseq fs_begin_op
    (kbind (knameiparent path) (\<lambda>(dpo, name).
       case dpo of
         None \<Rightarrow> end_with (-1)
       | Some dp \<Rightarrow>
           kseq (ilock pid dp)
             (if namecmp name (cstr [46]) = 0 \<or> namecmp name (cstr [46, 46]) = 0
              then unlink_bad pid dp
              else kbind (dirlookup dp name) (\<lambda>r.
                case r of
                  None \<Rightarrow> unlink_bad pid dp
                | Some (ip, off) \<Rightarrow> unlink_entry pid dp ip off))))))"

text \<open>\<^verbatim>\<open>create\<close> returns a locked inode.\<close>

definition create_existing :: "int \<Rightarrow> nat \<Rightarrow> u16 \<Rightarrow> (kst, nat option) kmon" where
  "create_existing pid ip type =
     kseq (ilock pid ip)
    (kbind (get_inode ip) (\<lambda>x.
       if type = T_FILE \<and> (i_type x = T_FILE \<or> i_type x = T_DEVICE) then kret (Some ip)
       else kseq (iunlockput pid ip) (kret None)))"

definition create :: "u8 list \<Rightarrow> u16 \<Rightarrow> u16 \<Rightarrow> u16 \<Rightarrow> (kst, nat option) kmon" where
  "create path type major minor =
     kbind mypid (\<lambda>pid.
     kbind (knameiparent path) (\<lambda>(dpo, name).
       case dpo of
         None \<Rightarrow> kret None
       | Some dp \<Rightarrow>
           kseq (ilock pid dp)
          (kbind (dirlookup dp name) (\<lambda>r.
             case r of
               Some (ip, _) \<Rightarrow> kseq (iunlockput pid dp) (create_existing pid ip type)
             | None \<Rightarrow>
                 kbind (get_inode dp) (\<lambda>d.
                 kbind (ialloc (i_dev d) type) (\<lambda>ip.
                 kseq (ilock pid ip)
                (kseq (upd_inode ip (\<lambda>x. x\<lparr>i_major := major, i_minor := minor, i_nlink := 1\<rparr>))
                (kseq (iupdate ip)
                (kbind (get_inode ip) (\<lambda>x.
                 kseq (kwhen (type = T_DIR)
                         (kseq (upd_inode dp (\<lambda>d. d\<lparr>i_nlink := i_nlink d + 1\<rparr>))
                         (kseq (iupdate dp)
                         (kbind (dirlink pid ip (cstr [46]) (i_inum x)) (\<lambda>r1.
                          kbind (if r1 < 0 then kret (-1) else dirlink pid ip (cstr [46, 46]) (i_inum d)) (\<lambda>r2.
                            kwhen (r2 < 0) (panic ''create dots'')))))))
                (kbind (dirlink pid dp name (i_inum x)) (\<lambda>r3.
                   if r3 < 0 then panic ''create: dirlink''
                   else kseq (iunlockput pid dp) (kret (Some ip))))))))))))))"

subsection \<open>open, mkdir, mknod, chdir\<close>

abbreviation (input) O_WRONLY :: u32 where "O_WRONLY \<equiv> 0x001"
abbreviation (input) O_RDWR :: u32 where "O_RDWR \<equiv> 0x002"
abbreviation (input) O_CREATE :: u32 where "O_CREATE \<equiv> 0x200"
abbreviation (input) O_TRUNC :: u32 where "O_TRUNC \<equiv> 0x400"

definition open_inode :: "int \<Rightarrow> u8 list \<Rightarrow> u32 \<Rightarrow> (kst, nat option) kmon" where
  "open_inode pid path omode =
     (if omode AND O_CREATE \<noteq> 0 then create path T_FILE 0 0
      else kbind (knamei path) (\<lambda>found.
        case found of
          None \<Rightarrow> kret None
        | Some ip \<Rightarrow>
            kseq (ilock pid ip)
           (kbind (get_inode ip) (\<lambda>x.
              if i_type x = T_DIR \<and> omode \<noteq> 0 then kseq (iunlockput pid ip) (kret None)
              else kret (Some ip)))))"

definition open_fail :: "int \<Rightarrow> nat \<Rightarrow> (kst, u64) kmon" where
  "open_fail pid ip = kseq (iunlockput pid ip) (end_with (-1))"

definition sys_open :: "(kst, u64) kmon" where
  "sys_open =
     kbind (argstr 0 MAXPATH) (\<lambda>p1.
       case p1 of None \<Rightarrow> kret (-1) | Some path \<Rightarrow>
     kbind (argint 1) (\<lambda>omode.
     kbind mypid (\<lambda>pid.
     kseq fs_begin_op
    (kbind (open_inode pid path omode) (\<lambda>found.
       case found of
         None \<Rightarrow> end_with (-1)
       | Some ip \<Rightarrow>
           kbind (get_inode ip) (\<lambda>x.
             if i_type x = T_DEVICE \<and> (sint (i_major x) < 0 \<or> sint (i_major x) \<ge> int NDEV)
             then open_fail pid ip
             else kbind filealloc (\<lambda>fo.
               case fo of
                 None \<Rightarrow> open_fail pid ip
               | Some f \<Rightarrow>
                   kbind (fdalloc f) (\<lambda>fd.
                     if fd < 0 then kseq (fileclose f) (open_fail pid ip)
                     else
                       kseq (upd_file f (\<lambda>y.
                               (if i_type x = T_DEVICE then y\<lparr>f_type := FD_DEVICE, f_major := i_major x\<rparr>
                                else y\<lparr>f_type := FD_INODE, f_off := 0\<rparr>)
                               \<lparr>f_ip := ip, f_readable := (omode AND O_WRONLY = 0),
                                f_writable := (omode AND O_WRONLY \<noteq> 0 \<or> omode AND O_RDWR \<noteq> 0)\<rparr>))
                      (kseq (kwhen (omode AND O_TRUNC \<noteq> 0 \<and> i_type x = T_FILE) (itrunc ip))
                      (kseq (iunlock pid ip)
                            (end_with (of_int fd))))))))))))"

definition make_node :: "u16 \<Rightarrow> u16 \<Rightarrow> u16 \<Rightarrow> u8 list option \<Rightarrow> (kst, u64) kmon" where
  "make_node type major minor path =
     (case path of
        None \<Rightarrow> end_with (-1)
      | Some path \<Rightarrow>
          kbind (create path type major minor) (\<lambda>r.
            case r of
              None \<Rightarrow> end_with (-1)
            | Some ip \<Rightarrow> kbind mypid (\<lambda>pid. kseq (iunlockput pid ip) (end_with 0))))"

definition sys_mkdir :: "(kst, u64) kmon" where
  "sys_mkdir = kseq fs_begin_op (kbind (argstr 0 MAXPATH) (make_node T_DIR 0 0))"

definition sys_mknod :: "(kst, u64) kmon" where
  "sys_mknod =
     kseq fs_begin_op
    (kbind (argstr 0 MAXPATH) (\<lambda>path.
     kbind (argint 1) (\<lambda>major.
     kbind (argint 2) (\<lambda>minor.
       make_node T_DEVICE (ucast major) (ucast minor) path))))"

definition sys_chdir :: "(kst, u64) kmon" where
  "sys_chdir =
     kbind curproc (\<lambda>p.
     kbind mypid (\<lambda>pid.
     kseq fs_begin_op
    (kbind (argstr 0 MAXPATH) (\<lambda>p1.
       case p1 of None \<Rightarrow> end_with (-1) | Some path \<Rightarrow>
     kbind (knamei path) (\<lambda>found.
       case found of
         None \<Rightarrow> end_with (-1)
       | Some ip \<Rightarrow>
           kseq (ilock pid ip)
          (kbind (get_inode ip) (\<lambda>x.
             if i_type x \<noteq> T_DIR then kseq (iunlockput pid ip) (end_with (-1))
             else kseq (iunlock pid ip)
                 (kbind (get_proc p) (\<lambda>y.
                  kseq (case p_cwd y of None \<Rightarrow> fault ''iput'' | Some c \<Rightarrow> iput pid c)
                 (kseq fs_end_op
                 (kseq (upd_proc p (\<lambda>y. y\<lparr>p_cwd := Some ip\<rparr>))
                       (kret 0))))))))))))"

subsection \<open>exec and pipe\<close>

text \<open>
  The loop of \<^verbatim>\<open>sys_exec\<close> over the argument vector: the pages it allocates hold the strings, which
  the model carries as lists beside the page addresses.
\<close>

fun exec_args :: "nat \<Rightarrow> u64 \<Rightarrow> (u64 \<times> u8 list) list \<Rightarrow> (kst, bool \<times> (u64 \<times> u8 list) list) kmon" where
  "exec_args 0 uargv argv = kret (False, argv)"
| "exec_args (Suc n) uargv argv =
     kbind (fetchaddr (uargv + 8 * of_nat (length argv))) (\<lambda>a.
       case a of
         None \<Rightarrow> kret (False, argv)
       | Some uarg \<Rightarrow>
           if uarg = 0 then kret (True, argv)
           else kbind kalloc (\<lambda>pg.
             if pg = 0 then kret (False, argv)
             else kbind (fetchstr uarg 4096) (\<lambda>str.
               case str of
                 None \<Rightarrow> kret (False, argv @ [(pg, [])])
               | Some bs \<Rightarrow> exec_args n uargv (argv @ [(pg, bs)]))))"

definition sys_exec :: "(kst, u64) kmon" where
  "sys_exec =
     kbind (argstr 0 MAXPATH) (\<lambda>p1.
       case p1 of None \<Rightarrow> kret (-1) | Some path \<Rightarrow>
     kbind (argaddr 1) (\<lambda>uargv.
     kbind (exec_args MAXARG uargv []) (\<lambda>(ok, argv).
     kbind (if ok then exec path (map snd argv) else kret (-1)) (\<lambda>ret.
     kseq (kfor argv (\<lambda>(pg, _). kfree pg))
          (kret (of_int ret))))))"

definition pipe_fail :: "nat \<Rightarrow> nat \<Rightarrow> (kst, u64) kmon" where
  "pipe_fail rfd wfd = kseq (fileclose rfd) (kseq (fileclose wfd) (kret (-1)))"

definition sys_pipe :: "(kst, u64) kmon" where
  "sys_pipe =
     kbind (argaddr 0) (\<lambda>fdarray.
     kbind pipealloc (\<lambda>a.
       case a of
         None \<Rightarrow> kret (-1)
       | Some (rfd, wfd) \<Rightarrow>
           kbind (fdalloc rfd) (\<lambda>fd0.
             if fd0 < 0 then pipe_fail rfd wfd
             else kbind (fdalloc wfd) (\<lambda>fd1.
               if fd1 < 0 then kseq (set_fd (nat fd0) None) (pipe_fail rfd wfd)
               else kbind myself (\<lambda>x.
                 kbind (copyout (p_pagetable x) fdarray (le_bytes 4 (nat fd0))) (\<lambda>r0.
                 kbind (if r0 < 0 then kret (-1)
                        else copyout (p_pagetable x) (fdarray + 4) (le_bytes 4 (nat fd1))) (\<lambda>r1.
                   if r1 < 0
                   then kseq (set_fd (nat fd0) None) (kseq (set_fd (nat fd1) None) (pipe_fail rfd wfd))
                   else kret 0)))))))"

end
