(* ===== verification/Syscall.thy ===== *)
theory Syscall
  imports Sysfile
begin

text \<open>
  The system calls of \<^verbatim>\<open>src/kernel/sysproc.c\<close>, the dispatcher of \<^verbatim>\<open>src/kernel/syscall.c\<close> and
  the trap handlers of \<^verbatim>\<open>src/kernel/trap.c\<close>. Hardware registers that a handler reads
  (\<^verbatim>\<open>scause\<close>, \<^verbatim>\<open>stval\<close>, \<^verbatim>\<open>sepc\<close>, \<^verbatim>\<open>sstatus\<close>, \<^verbatim>\<open>satp\<close>, \<^verbatim>\<open>tp\<close>) and the interrupt number
  that the PLIC reports are arguments.
\<close>

subsection \<open>sysproc.c\<close>

definition sys_exit :: "(kst, unit) kmon" where
  "sys_exit = kbind (argint 0) kexit"

definition sys_getpid :: "(kst, u64) kmon" where
  "sys_getpid = kbind myself (\<lambda>x. kret (of_int (p_pid x)))"

definition sys_fork :: "(kst, u64) kmon" where
  "sys_fork = kbind fork (\<lambda>r. kret (of_int r))"

definition sys_wait :: "(kst, u64 option) kmon" where
  "sys_wait = kbind (argaddr 0) (\<lambda>p. kbind (wait p) (\<lambda>r. kret (map_option of_int r)))"

definition sys_sbrk :: "(kst, u64) kmon" where
  "sys_sbrk = kbind (argint 0) sbrk"

text \<open>
  One round of the loop of \<^verbatim>\<open>sys_sleep\<close> that started at \<open>ticks0\<close>; the comparison is unsigned.
\<close>

definition sleep_round :: "u32 \<Rightarrow> u32 \<Rightarrow> (kst, u64 option) kmon" where
  "sleep_round n ticks0 =
     kbind (kget k_ticks) (\<lambda>t.
       if t - ticks0 < n then
         kbind myself (\<lambda>x.
           if p_killed x then kret (Some (-1))
           else kseq (sleep Ch_ticks) (kret None))
       else kret (Some 0))"

definition sys_sleep :: "(kst, u64 option) kmon" where
  "sys_sleep = kbind (argint 0) (\<lambda>n. kbind (kget k_ticks) (sleep_round n))"

definition sys_kill :: "(kst, u64) kmon" where
  "sys_kill = kbind (argint 0) (\<lambda>pid. kbind (kill (sint pid)) (\<lambda>r. kret (of_int r)))"

definition sys_uptime :: "(kst, u64) kmon" where
  "sys_uptime = kget (\<lambda>s. ucast (k_ticks s))"

definition sys_settickets :: "(kst, u64) kmon" where
  "sys_settickets = kbind (argint 0) (\<lambda>n. kbind (settickets n) (\<lambda>r. kret (of_int r)))"

text \<open>The bytes of \<^verbatim>\<open>struct pstat\<close>: four arrays of 64 integers.\<close>

definition pstat_bytes :: "proc list \<Rightarrow> u8 list" where
  "pstat_bytes tab =
     concat (map (\<lambda>x. le_bytes 4 (if p_state x \<noteq> UNUSED then 1 else 0)) tab) @
     concat (map (\<lambda>x. le_bytes 4 (unat (p_tickets x))) tab) @
     concat (map (\<lambda>x. le_bytes 4 (unat (of_int (p_pid x) :: u32))) tab) @
     concat (map (\<lambda>x. le_bytes 4 (unat (p_ticks x))) tab)"

definition sys_getpinfo :: "(kst, u64) kmon" where
  "sys_getpinfo =
     kbind (argaddr 0) (\<lambda>addr.
     kbind (kget (\<lambda>s. pstat_bytes (k_proc s))) (\<lambda>bs.
     kbind myself (\<lambda>x.
     kbind (copyout (p_pagetable x) addr bs) (\<lambda>r. kret (if r < 0 then -1 else 0)))))"

text \<open>The descriptor of \<^verbatim>\<open>sys_mmap\<close> indexes \<^verbatim>\<open>p->ofile\<close> without a check of its range.\<close>

definition sys_mmap :: "(kst, u64) kmon" where
  "sys_mmap =
     kbind (argaddr 1) (\<lambda>len.
     kbind (argint 2) (\<lambda>prot.
     kbind (argint 3) (\<lambda>flags.
     kbind (argint 4) (\<lambda>fd.
     kbind (argaddr 5) (\<lambda>offset.
     kbind myself (\<lambda>x.
       if sint fd < 0 \<or> sint fd \<ge> int NOFILE then fault ''ofile[fd]''
       else case p_ofile x ! nat (sint fd) of
              None \<Rightarrow> kret (-1)
            | Some f \<Rightarrow> mmap len prot flags f offset))))))"

definition sys_munmap :: "(kst, u64) kmon" where
  "sys_munmap = kbind (argaddr 0) (\<lambda>addr. kbind (argaddr 1) (munmap addr))"

subsection \<open>The dispatcher\<close>

text \<open>
  The table \<^verbatim>\<open>syscalls[]\<close>. \<^verbatim>\<open>sys_exit\<close> does not come back and, like a blocked call, leaves
  \<^verbatim>\<open>a0\<close> alone. \<open>pad\<close> are the stack bytes between the fields of \<^verbatim>\<open>struct stat\<close>.
\<close>

definition returns :: "(kst, u64) kmon \<Rightarrow> (kst, u64 option) kmon" where
  "returns m = kbind m (\<lambda>v. kret (Some v))"

definition syscalls :: "u8 list \<Rightarrow> int \<Rightarrow> (kst, u64 option) kmon option" where
  "syscalls pad num =
     (if num = 1 then Some (returns sys_fork)
      else if num = 2 then Some (kseq sys_exit (kret None))
      else if num = 3 then Some sys_wait
      else if num = 4 then Some (returns sys_pipe)
      else if num = 5 then Some sys_read
      else if num = 6 then Some (returns sys_kill)
      else if num = 7 then Some (returns sys_exec)
      else if num = 8 then Some (returns (sys_fstat pad))
      else if num = 9 then Some (returns sys_chdir)
      else if num = 10 then Some (returns sys_dup)
      else if num = 11 then Some (returns sys_getpid)
      else if num = 12 then Some (returns sys_sbrk)
      else if num = 13 then Some sys_sleep
      else if num = 14 then Some (returns sys_uptime)
      else if num = 15 then Some (returns sys_open)
      else if num = 16 then Some sys_write
      else if num = 17 then Some (returns sys_mknod)
      else if num = 18 then Some (returns sys_unlink)
      else if num = 19 then Some (returns sys_link)
      else if num = 20 then Some (returns sys_mkdir)
      else if num = 21 then Some (returns sys_close)
      else if num = 22 then Some (returns sys_getpinfo)
      else if num = 23 then Some (returns sys_settickets)
      else if num = 24 then Some (returns sys_mmap)
      else if num = 25 then Some (returns sys_munmap)
      else None)"

definition syscall :: "u8 list \<Rightarrow> (kst, unit) kmon" where
  "syscall pad =
     kbind curproc (\<lambda>p.
     kbind (tf_load p TF_a7) (\<lambda>a7.
       case syscalls pad (sint (ucast a7 :: u32)) of
         Some call \<Rightarrow> kbind call (\<lambda>r. case r of None \<Rightarrow> kret () | Some v \<Rightarrow> tf_store p TF_a0 v)
       | None \<Rightarrow> tf_store p TF_a0 (-1)))"

subsection \<open>Traps\<close>

abbreviation (input) UART0_IRQ :: nat where "UART0_IRQ \<equiv> 10"
abbreviation (input) VIRTIO0_IRQ :: nat where "VIRTIO0_IRQ \<equiv> 1"

text \<open>The console side of \<^verbatim>\<open>uartintr\<close>: each character edits the line and may wake readers.\<close>

definition kconsoleintr :: "int \<Rightarrow> kst \<Rightarrow> kst" where
  "kconsoleintr c s =
     (case consoleintr (procdump s) (of_int c) (k_cons s) of
        (out, c', woken) \<Rightarrow>
          let s1 = s\<lparr>k_cons := c', k_uart := (k_uart s)\<lparr>ua_thr := ua_thr (k_uart s) @ map (Pair False) out\<rparr>\<rparr>
          in if woken then (case wakeup Ch_cons s1 of Inr (_, s2) \<Rightarrow> s2 | Inl _ \<Rightarrow> s1) else s1)"

definition kuartintr :: "(kst, unit) kmon" where
  "kuartintr s =
     (case uartintr_input kconsoleintr (k_uart s) (s\<lparr>k_uart := (k_uart s)\<lparr>ua_thr := []\<rparr>\<rparr>) of
        (u, s1) \<Rightarrow>
          (case uartstart (u\<lparr>ua_thr := ua_thr u @ ua_thr (k_uart s1)\<rparr>) False of
             (u', woken) \<Rightarrow> kwhen woken (wakeup Ch_uart) (s1\<lparr>k_uart := u'\<rparr>)))"

text \<open>
  \<^verbatim>\<open>devintr\<close>: 2 for a timer interrupt, 1 for another device, 0 if not recognised. The disk's
  handler works on the state of the disk driver and wakes the owner of the buffer.
\<close>

definition devintr :: "u64 \<Rightarrow> nat \<Rightarrow> nat \<Rightarrow> chan \<Rightarrow> (kst, int) kmon" where
  "devintr scause irq cpu disk_done =
     (if scause AND 0x8000000000000000 \<noteq> 0 \<and> scause AND 0xff = 9 then
        kseq (if irq = UART0_IRQ then kuartintr
              else if irq = VIRTIO0_IRQ then wakeup disk_done
              else kret ())
             (kret 1)
      else if scause = 0x8000000000000001 then
        kseq (kwhen (cpu = 0) clockintr) (kret 2)
      else kret 0)"

record trapregs =
  tr_scause :: u64
  tr_stval :: u64
  tr_sepc :: u64
  tr_sstatus :: u64
  tr_satp :: u64
  tr_irq :: nat
  tr_cpu :: nat
  tr_disk_done :: chan

text \<open>What \<^verbatim>\<open>usertrapret\<close> programs into the CPU before the jump to \<^verbatim>\<open>userret\<close>.\<close>

record retregs =
  rr_stvec :: u64
  rr_sstatus :: u64
  rr_sepc :: u64
  rr_satp :: u64
  rr_fn :: u64

definition usertrapret :: "trapregs \<Rightarrow> (kst, retregs) kmon" where
  "usertrapret t =
     kbind curproc (\<lambda>p.
     kbind (get_proc p) (\<lambda>x.
     kbind (kget (\<lambda>s. (k_trampoline s, k_uservec s, k_userret s, k_usertrap s))) (\<lambda>(tramp, uservec, userret, utrap).
     kseq (tf_store p TF_kernel_satp (tr_satp t))
    (kseq (tf_store p TF_kernel_sp (p_kstack x + PGSIZE))
    (kseq (tf_store p TF_kernel_trap utrap)
    (kseq (tf_store p TF_kernel_hartid (of_nat (tr_cpu t)))
    (kbind (tf_load p TF_epc) (\<lambda>epc.
     kret \<lparr>rr_stvec = TRAMPOLINE + (uservec - tramp),
           rr_sstatus = (intr_off (tr_sstatus t) AND NOT SSTATUS_SPP) OR SSTATUS_SPIE,
           rr_sepc = epc, rr_satp = MAKE_SATP (p_pagetable x),
           rr_fn = TRAMPOLINE + (userret - tramp)\<rparr>))))))))"

text \<open>
  \<^verbatim>\<open>usertrap\<close>: \<open>None\<close> when the process does not return to user space now, because it has exited,
  sleeps inside a system call, or has given up the CPU.
\<close>

definition set_killed :: "nat \<Rightarrow> (kst, unit) kmon" where
  "set_killed p = upd_proc p (\<lambda>x. x\<lparr>p_killed := True\<rparr>)"

definition trap_finish :: "trapregs \<Rightarrow> nat \<Rightarrow> int \<Rightarrow> (kst, retregs option) kmon" where
  "trap_finish t p which_dev =
     kbind (get_proc p) (\<lambda>x.
       if p_killed x then kseq (kexit (-1)) (kret None)
       else if which_dev = 2 then kseq yield (kret None)
       else kbind (usertrapret t) (\<lambda>r. kret (Some r)))"

definition usertrap :: "u8 list \<Rightarrow> trapregs \<Rightarrow> (kst, retregs option) kmon" where
  "usertrap pad t =
     (if tr_sstatus t AND SSTATUS_SPP \<noteq> 0 then panic ''usertrap: not from user mode''
      else kbind curproc (\<lambda>p.
        kseq (tf_store p TF_epc (tr_sepc t))
          (if tr_scause t = 8 then
             kbind (get_proc p) (\<lambda>x.
               if p_killed x then kseq (kexit (-1)) (kret None)
               else kseq (tf_store p TF_epc (tr_sepc t + 4))
                   (kseq (syscall pad)
                   (kbind (get_proc p) (\<lambda>x.
                      if p_state x \<noteq> RUNNING then kret None else trap_finish t p 0))))
           else if tr_scause t = 12 \<or> tr_scause t = 13 \<or> tr_scause t = 15 then
             kbind (get_proc p) (\<lambda>x.
             kbind (walkaddr (p_pagetable x) (tr_stval t)) (\<lambda>pa.
               kseq (kwhen (pa \<le> 0) (set_killed p)) (trap_finish t p 0)))
           else kbind (devintr (tr_scause t) (tr_irq t) (tr_cpu t) (tr_disk_done t)) (\<lambda>dev.
                  kseq (kwhen (dev = 0) (set_killed p)) (trap_finish t p dev)))))"

definition kerneltrap :: "trapregs \<Rightarrow> (kst, u64 \<times> u64) kmon" where
  "kerneltrap t =
     (if tr_sstatus t AND SSTATUS_SPP = 0 then panic ''kerneltrap: not from supervisor mode''
      else if intr_get (tr_sstatus t) then panic ''kerneltrap: interrupts enabled''
      else kbind (if tr_scause t = 13 \<or> tr_scause t = 15 then
                    kbind myself (\<lambda>x.
                    kbind (walkaddr (p_pagetable x) (tr_stval t)) (\<lambda>pa.
                      if pa \<le> 0 then panic ''kerneltrap: lazy allocation'' else kret 0))
                  else kbind (devintr (tr_scause t) (tr_irq t) (tr_cpu t) (tr_disk_done t)) (\<lambda>dev.
                         if dev = 0 then panic ''kerneltrap'' else kret dev)) (\<lambda>dev.
           kseq (kbind (kget (\<lambda>s. case k_cur s of None \<Rightarrow> False | Some p \<Rightarrow> p_state (k_proc s ! p) = RUNNING)) (\<lambda>running.
                   kwhen (dev = 2 \<and> running) yield))
                (kret (tr_sepc t, tr_sstatus t))))"

end
