(* ===== verification/Frames.thy ===== *)
theory Frames
  imports Syscall
begin

text \<open>
  What a kernel routine leaves alone. A routine keeps an observation \<open>f\<close> of the state when every
  run that returns ends with the same observation. The locales state how little an observation
  has to depend on for the routines of a layer to keep it; they are interpreted for the number of
  open transactions and for the data of the scheduler.
\<close>

named_theorems keeps \<open>routines that keep an observation\<close>

definition keeps :: "('s \<Rightarrow> 'b) \<Rightarrow> ('s, 'a) kmon \<Rightarrow> bool" where
  "keeps f m \<longleftrightarrow> (\<forall>s v t. m s = Inr (v, t) \<longrightarrow> f t = f s)"

lemma keepsI: "(\<And>s v t. m s = Inr (v, t) \<Longrightarrow> f t = f s) \<Longrightarrow> keeps f m"
  by (simp add: keeps_def)

lemma keepsD: "keeps f m \<Longrightarrow> m s = Inr (v, t) \<Longrightarrow> f t = f s"
  by (auto simp: keeps_def)

subsection \<open>Combinators\<close>

lemma keeps_kret [keeps]: "keeps f (kret x)"
  by (auto simp: keeps_def)

lemma keeps_kget [keeps]: "keeps f (kget g)"
  by (auto simp: keeps_def)

lemma keeps_kfail [keeps]: "keeps f (kfail e)"
  by (auto simp: keeps_def)

lemma keeps_panic [keeps]: "keeps f (panic e)"
  by (auto simp: keeps_def)

lemma keeps_fault [keeps]: "keeps f (fault e)"
  by (auto simp: keeps_def)

lemma keeps_kbind [keeps]: "keeps f m \<Longrightarrow> (\<And>x. keeps f (g x)) \<Longrightarrow> keeps f (kbind m g)"
  unfolding keeps_def by (metis kbind_Inr)

lemma keeps_kseq [keeps]: "keeps f m \<Longrightarrow> keeps f n \<Longrightarrow> keeps f (kseq m n)"
  unfolding kseq_def by (rule keeps_kbind)

lemma keeps_kwhen [keeps]: "keeps f m \<Longrightarrow> keeps f (kwhen c m)"
  by (auto simp: keeps_def split: if_splits)

lemma keeps_kmodify: "(\<And>s. f (g s) = f s) \<Longrightarrow> keeps f (kmodify g)"
  by (auto simp: keeps_def)

lemma keeps_if [keeps]: "keeps f m \<Longrightarrow> keeps f n \<Longrightarrow> keeps f (if c then m else n)"
  by simp

lemma keeps_option [keeps]:
  "keeps f m \<Longrightarrow> (\<And>x. keeps f (g x)) \<Longrightarrow> keeps f (case o' of None \<Rightarrow> m | Some x \<Rightarrow> g x)"
  by (cases o') auto

lemma keeps_prod [keeps]: "(\<And>a b. keeps f (g a b)) \<Longrightarrow> keeps f (case p of (a, b) \<Rightarrow> g a b)"
  by (cases p) auto

lemma keeps_sum [keeps]:
  "(\<And>x. keeps f (g x)) \<Longrightarrow> (\<And>x. keeps f (h x)) \<Longrightarrow> keeps f (case r of Inl x \<Rightarrow> g x | Inr x \<Rightarrow> h x)"
  by (cases r) auto

lemma keeps_Let [keeps]: "(\<And>x. keeps f (g x)) \<Longrightarrow> keeps f (Let a g)"
  by simp

lemma keeps_kfor [keeps]: "(\<And>x. keeps f (g x)) \<Longrightarrow> keeps f (kfor xs g)"
  by (induction xs) (auto intro!: keeps)

lemma keeps_ftype [keeps]:
  "keeps f a \<Longrightarrow> keeps f b \<Longrightarrow> keeps f c \<Longrightarrow> keeps f d \<Longrightarrow>
   keeps f (case ty of FD_NONE \<Rightarrow> a | FD_PIPE \<Rightarrow> b | FD_INODE \<Rightarrow> c | FD_DEVICE \<Rightarrow> d)"
  by (cases ty) auto

lemma keeps_wait_scan [keeps]:
  "(\<And>p. keeps f (g p)) \<Longrightarrow> (\<And>b. keeps f (h b)) \<Longrightarrow>
   keeps f (case r of Reaped p \<Rightarrow> g p | Scanned b \<Rightarrow> h b)"
  by (cases r) auto

lemma keeps_presult [keeps]:
  "(\<And>i. keeps f (g i)) \<Longrightarrow> (\<And>c i. keeps f (h c i)) \<Longrightarrow>
   keeps f (case r of Returns i \<Rightarrow> g i | Blocks c i \<Rightarrow> h c i)"
  by (cases r) auto

lemma keeps_cresult [keeps]:
  "(\<And>i. keeps f (g i)) \<Longrightarrow> (\<And>c i. keeps f (h c i)) \<Longrightarrow>
   keeps f (case r of CReturns i \<Rightarrow> g i | CBlocks c i \<Rightarrow> h c i)"
  by (cases r) auto

subsection \<open>Memory and file system\<close>

locale low_frame =
  fixes f :: "kst \<Rightarrow> 'b"
  assumes f_mem [simp]: "f (s\<lparr>km_mem := m\<rparr>) = f s"
    and f_freelist [simp]: "f (s\<lparr>km_freelist := l\<rparr>) = f s"
    and f_blocks [simp]: "f (s\<lparr>fs_blocks := b\<rparr>) = f s"
    and f_itable [simp]: "f (s\<lparr>fs_itable := i\<rparr>) = f s"
begin

lemma kfree_keeps [keeps]: "keeps f (kfree pa)"
  unfolding kfree_def by (auto intro!: keeps keeps_kmodify)

lemma kalloc_keeps [keeps]: "keeps f kalloc"
  unfolding kalloc_def by (auto intro!: keeps keeps_kmodify)

lemma kload_keeps [keeps]: "keeps f (kload a)"
  unfolding kload_def by (auto intro!: keeps)

lemma kstore_keeps [keeps]: "keeps f (kstore a v)"
  unfolding kstore_def by (auto intro!: keeps_kmodify)

lemma kmemset_keeps [keeps]: "keeps f (kmemset a v n)"
  unfolding kmemset_def by (auto intro!: keeps_kmodify)

lemma kmemmove_keeps [keeps]: "keeps f (kmemmove a v n)"
  unfolding kmemmove_def by (auto intro!: keeps_kmodify)

lemma walk_levels_keeps [keeps]: "keeps f (walk_levels n pt va alloc)"
  by (induction n arbitrary: pt) (auto intro!: keeps)

lemma walk_keeps [keeps]: "keeps f (walk pt va alloc)"
  unfolding walk_def by (auto intro!: keeps)

lemma is_page_mapped_keeps [keeps]: "keeps f (is_page_mapped pt va)"
  unfolding is_page_mapped_def by (auto intro!: keeps)

lemma mappages_loop_keeps [keeps]: "keeps f (mappages_loop pt a lst pa perm)"
proof (rule keepsI)
  fix s v t
  show "mappages_loop pt a lst pa perm s = Inr (v, t) \<Longrightarrow> f t = f s"
  proof (induction pt a lst pa perm s rule: mappages_loop.induct)
    case (1 pt a lst pa perm s)
    from "1.prems" obtain pte s1 where w: "walk pt a True s = Inr (pte, s1)"
      by (auto simp: mappages_loop.simps[of pt a] split: sum.splits)
    have s1: "f s1 = f s" by (rule keepsD[OF walk_keeps w])
    from "1.prems" w "1.IH"[OF w refl] s1 show ?case
      by (auto simp: mappages_loop.simps[of pt a] Let_def split: if_splits)
  qed
qed

lemma mappages_keeps [keeps]: "keeps f (mappages pt va sz pa perm)"
  unfolding mappages_def by (auto intro!: keeps)

lemma uvmunmap_page_keeps [keeps]: "keeps f (uvmunmap_page pt a free)"
  unfolding uvmunmap_page_def by (auto intro!: keeps)

lemma uvmunmap_loop_keeps [keeps]: "keeps f (uvmunmap_loop pt a lim free)"
proof (rule keepsI)
  fix s v t
  show "uvmunmap_loop pt a lim free s = Inr (v, t) \<Longrightarrow> f t = f s"
  proof (induction pt a lim free s rule: uvmunmap_loop.induct)
    case (1 pt a lim free s)
    show ?case
    proof (cases "a < lim")
      case False
      with "1.prems" show ?thesis by (simp add: uvmunmap_loop.simps[of pt a])
    next
      case True
      with "1.prems" obtain x s1 where p: "uvmunmap_page pt a free s = Inr (x, s1)"
        by (auto simp: uvmunmap_loop.simps[of pt a] split: sum.splits)
      from "1.prems" p True "1.IH"[OF True p refl] keepsD[OF uvmunmap_page_keeps p] show ?thesis
        by (simp add: uvmunmap_loop.simps[of pt a])
    qed
  qed
qed

lemma uvmunmap_keeps [keeps]: "keeps f (uvmunmap pt va n free)"
  unfolding uvmunmap_def by (auto intro!: keeps)

lemma uvmcreate_keeps [keeps]: "keeps f uvmcreate"
  unfolding uvmcreate_def by (auto intro!: keeps)

lemma uvminit_keeps [keeps]: "keeps f (uvminit pt src sz)"
  unfolding uvminit_def by (auto intro!: keeps)

lemma freewalk_keeps [keeps]: "keeps f (freewalk d pt)"
  by (induction d arbitrary: pt) (auto intro!: keeps)

lemma uvmfree_keeps [keeps]: "keeps f (uvmfree pt sz)"
  unfolding uvmfree_def by (auto intro!: keeps)

lemma uvmcopy_page_keeps [keeps]: "keeps f (uvmcopy_page old new i)"
  unfolding uvmcopy_page_def by (auto intro!: keeps)

lemma uvmcopy_loop_keeps [keeps]: "keeps f (uvmcopy_loop old new i start sz)"
proof (rule keepsI)
  fix s v t
  show "uvmcopy_loop old new i start sz s = Inr (v, t) \<Longrightarrow> f t = f s"
  proof (induction old new i start sz s rule: uvmcopy_loop.induct)
    case (1 old new i start sz s)
    show ?case
    proof (cases "i < sz + start")
      case False
      with "1.prems" show ?thesis by (simp add: uvmcopy_loop.simps[of old new i])
    next
      case True
      with "1.prems" obtain ok s1 where p: "uvmcopy_page old new i s = Inr (ok, s1)"
        by (auto simp: uvmcopy_loop.simps[of old new i] split: sum.splits)
      have s1: "f s1 = f s" by (rule keepsD[OF uvmcopy_page_keeps p])
      show ?thesis
      proof (cases ok)
        case True
        with "1.prems" p \<open>i < sz + start\<close> "1.IH"[OF \<open>i < sz + start\<close> p refl] s1 show ?thesis
          by (simp add: uvmcopy_loop.simps[of old new i])
      next
        case False
        with "1.prems" p \<open>i < sz + start\<close>
        have "kseq (uvmunmap new (PGROUNDDOWN start) ((i - PGROUNDDOWN start) div PGSIZE) True) (kret (-1)) s1 = Inr (v, t)"
          by (simp add: uvmcopy_loop.simps[of old new i])
        then show ?thesis using s1 keepsD[OF uvmunmap_keeps] by auto
      qed
    qed
  qed
qed

lemma uvmcopy_offseted_keeps [keeps]: "keeps f (uvmcopy_offseted old new start sz)"
  unfolding uvmcopy_offseted_def by (rule keeps)

lemma upd_inode_keeps [keeps]: "keeps f (upd_inode ip g)"
  unfolding upd_inode_def by (auto intro!: keeps_kmodify)

lemma get_inode_keeps [keeps]: "keeps f (get_inode ip)"
  unfolding get_inode_def by (rule keeps)

lemma fs_bread_keeps [keeps]: "keeps f (fs_bread dev b)"
  unfolding fs_bread_def by (rule keeps)

lemma set_block_keeps [simp]: "f (set_block dev b d s) = f s"
  by (simp add: set_block_def)

lemma fs_log_write_keeps [keeps]: "keeps f (fs_log_write dev b d)"
  by (auto intro!: keepsI simp: fs_log_write_def split: if_splits)

lemma bzero_keeps [keeps]: "keeps f (bzero dev b)"
  unfolding bzero_def by (rule keeps)

lemma balloc_loop_keeps [keeps]: "keeps f (balloc_loop dev b)"
proof (rule keepsI)
  fix s v t
  show "balloc_loop dev b s = Inr (v, t) \<Longrightarrow> f t = f s"
  proof (induction dev b s rule: balloc_loop.induct)
    case (1 dev b s)
    let ?bno = "BBLOCK (of_nat b) (fs_sb s)"
    let ?d = "fs_blocks s dev ?bno"
    show ?case
    proof (cases "b < unat (sb_size (fs_sb s))")
      case False
      with "1.prems" show ?thesis by (simp add: balloc_loop.simps[of dev b])
    next
      case True
      show ?thesis
      proof (cases "free_bit ?d b (unat (sb_size (fs_sb s))) 0")
        case None
        with "1.prems" True "1.IH"[OF refl refl refl True None] show ?thesis
          by (simp add: balloc_loop.simps[of dev b])
      next
        case (Some bi)
        with "1.prems" True have "kseq (fs_log_write dev ?bno (?d[bi div 8 := ?d ! (bi div 8) OR bit_mask bi]))
            (kseq (bzero dev (of_nat (b + bi))) (kret (of_nat (b + bi)))) s = Inr (v, t)"
          by (simp add: balloc_loop.simps[of dev b] Let_def)
        then show ?thesis by (elim keepsD[rotated]) (intro keeps)
      qed
    qed
  qed
qed

lemma balloc_keeps [keeps]: "keeps f (balloc dev)"
  unfolding balloc_def by (rule keeps)

lemma bfree_keeps [keeps]: "keeps f (bfree dev b)"
  using keepsD[OF fs_log_write_keeps] by (auto intro!: keepsI simp: bfree_def Let_def split: if_splits)

lemma iget_keeps [keeps]: "keeps f (iget dev inum)"
  unfolding iget_def by (auto intro!: keeps)

lemma idup_keeps [keeps]: "keeps f (idup ip)"
  unfolding idup_def by (auto intro!: keeps)

lemma ialloc_loop_keeps [keeps]: "keeps f (ialloc_loop dev type is)"
  by (induction "is") (auto intro!: keeps)

lemma ialloc_keeps [keeps]: "keeps f (ialloc dev type)"
  unfolding ialloc_def by (auto intro!: keeps)

lemma iupdate_keeps [keeps]: "keeps f (iupdate ip)"
  unfolding iupdate_def by (auto intro!: keeps)

lemma ilock_keeps [keeps]: "keeps f (ilock pid ip)"
  unfolding ilock_def by (auto intro!: keeps)

lemma iunlock_keeps [keeps]: "keeps f (iunlock pid ip)"
  unfolding iunlock_def by (auto intro!: keeps)

lemma itrunc_keeps [keeps]: "keeps f (itrunc ip)"
  unfolding itrunc_def by (auto intro!: keeps)

lemma iput_keeps [keeps]: "keeps f (iput pid ip)"
  unfolding iput_def by (auto intro!: keeps)

lemma iunlockput_keeps [keeps]: "keeps f (iunlockput pid ip)"
  unfolding iunlockput_def by (auto intro!: keeps)

lemma bmap_direct_keeps [keeps]: "keeps f (bmap_direct ip bn)"
  unfolding bmap_direct_def by (auto intro!: keeps)

lemma bmap_keeps [keeps]: "keeps f (bmap ip bn)"
  unfolding bmap_def by (auto intro!: keeps)

lemma stati_keeps [keeps]: "keeps f (stati ip)"
  unfolding stati_def by (auto intro!: keeps)

lemma readi_loop_keeps:
  assumes copy: "\<And>a bs. keeps f (copy a bs)"
  shows "keeps f (readi_loop copy ip dst off n tot acc)"
proof (rule keepsI)
  fix s v t
  show "readi_loop copy ip dst off n tot acc s = Inr (v, t) \<Longrightarrow> f t = f s"
  proof (induction "n - tot" arbitrary: dst off tot acc s rule: less_induct)
    case less
    show ?case
    proof (cases "tot < n")
      case False
      with less.prems show ?thesis by (simp add: readi_loop.simps)
    next
      case True
      from less.prems True obtain addr s1 where b: "bmap ip (off div BSIZE) s = Inr (addr, s1)"
        by (auto simp: readi_loop.simps[of copy ip dst off n tot] split: sum.splits)
      define m where "m = min (n - tot) (BSIZE - off mod BSIZE)"
      define bs where "bs = take m (drop (off mod BSIZE) (fs_blocks s1 (i_dev (fs_itable s1 ! ip)) addr))"
      have run: "(case copy dst bs s1 of Inl e \<Rightarrow> Inl e
          | Inr (r, s2) \<Rightarrow> if r = -1 then Inr ((-1, acc), s2)
             else readi_loop copy ip (dst + of_nat m) (off + m) n (tot + m) (acc @ bs) s2) = Inr (v, t)"
        using less.prems True b unfolding m_def bs_def
        by (simp add: readi_loop.simps[of copy ip dst off n tot] Let_def)
      then obtain r s2 where c: "copy dst bs s1 = Inr (r, s2)" by (auto split: sum.splits)
      have s2: "f s2 = f s" using keepsD[OF copy c] keepsD[OF bmap_keeps b] by simp
      have "n - (tot + m) < n - tot" using True by (auto simp: m_def)
      from less.hyps[OF this] run c s2 show ?thesis by (auto split: if_splits)
    qed
  qed
qed

lemma readi_keeps: "(\<And>a bs. keeps f (copy a bs)) \<Longrightarrow> keeps f (readi copy ip dst off n)"
  unfolding readi_def by (auto intro!: keeps readi_loop_keeps)

lemma writei_loop_keeps:
  assumes copy: "\<And>a k. keeps f (copy a k)"
  shows "keeps f (writei_loop copy ip src off n tot)"
proof (rule keepsI)
  fix s v t
  show "writei_loop copy ip src off n tot s = Inr (v, t) \<Longrightarrow> f t = f s"
  proof (induction "n - tot" arbitrary: src off tot s rule: less_induct)
    case less
    show ?case
    proof (cases "tot < n")
      case False
      with less.prems show ?thesis by (simp add: writei_loop.simps)
    next
      case True
      from less.prems True obtain addr s1 where b: "bmap ip (off div BSIZE) s = Inr (addr, s1)"
        by (auto simp: writei_loop.simps[of copy ip src off n tot] split: sum.splits)
      define m where "m = min (n - tot) (BSIZE - off mod BSIZE)"
      define dev where "dev = i_dev (fs_itable s1 ! ip)"
      obtain r bs s2 where c: "copy src m s1 = Inr ((r, bs), s2)"
        using less.prems True b
        by (auto simp: writei_loop.simps[of copy ip src off n tot] Let_def m_def split: sum.splits)
      define d where "d = splice (fs_blocks s2 dev addr) (off mod BSIZE) bs"
      have run: "(if r = -1 then Inr ((tot, off), set_block dev addr d s2)
          else case fs_log_write dev addr d s2 of Inl e \<Rightarrow> Inl e
               | Inr (_, s3) \<Rightarrow> writei_loop copy ip (src + of_nat m) (off + m) n (tot + m) s3) = Inr (v, t)"
        using less.prems True b c unfolding d_def dev_def m_def
        by (simp add: writei_loop.simps[of copy ip src off n tot] Let_def)
      have s2: "f s2 = f s" using keepsD[OF copy c] keepsD[OF bmap_keeps b] by simp
      show ?thesis
      proof (cases "r = -1")
        case True
        with run s2 show ?thesis by auto
      next
        case False
        with run obtain u s3 where l: "fs_log_write dev addr d s2 = Inr (u, s3)"
          by (auto split: sum.splits)
        have s3: "f s3 = f s2" by (rule keepsD[OF fs_log_write_keeps l])
        have "n - (tot + m) < n - tot" using \<open>tot < n\<close> by (auto simp: m_def)
        from less.hyps[OF this] run l False s2 s3 show ?thesis by simp
      qed
    qed
  qed
qed

lemma writei_keeps: "(\<And>a k. keeps f (copy a k)) \<Longrightarrow> keeps f (writei copy ip src off n)"
  unfolding writei_def by (auto intro!: keeps writei_loop_keeps)

lemma obj_out_keeps [keeps]: "keeps f (obj_out a bs)"
  unfolding obj_out_def by (rule keeps)

lemma obj_in_keeps [keeps]: "keeps f (obj_in ob a n)"
  unfolding obj_in_def by (rule keeps)

lemma mem_out_keeps [keeps]: "keeps f (mem_out a bs)"
  unfolding mem_out_def by (auto intro!: keeps keeps_kmodify)

lemma dirlookup_loop_keeps [keeps]: "keeps f (dirlookup_loop dp name offs)"
  by (induction offs) (auto intro!: keeps readi_keeps)

lemma dirlookup_keeps [keeps]: "keeps f (dirlookup dp name)"
  unfolding dirlookup_def by (auto intro!: keeps)

lemma dirlink_slot_keeps [keeps]: "keeps f (dirlink_slot dp lst offs)"
  by (induction offs arbitrary: lst) (auto intro!: keeps readi_keeps)

lemma dirlink_keeps [keeps]: "keeps f (dirlink pid dp name inum)"
  unfolding dirlink_def by (auto intro!: keeps writei_keeps)

lemma namex_loop_keeps [keeps]: "keeps f (namex_loop pid path parent name ip)"
proof (induction "length path" arbitrary: path name ip rule: less_induct)
  case less
  show ?case
    using less.hyps[OF skipelem_shorter[of path name]]
    by (auto intro!: keeps simp: namex_loop.simps[of pid path] split: option.split)
qed

lemma namex_keeps [keeps]: "keeps f (namex pid cwd path parent name)"
  unfolding namex_def by (auto intro!: keeps)

lemma namei_keeps [keeps]: "keeps f (namei pid cwd path)"
  unfolding namei_def by (auto intro!: keeps)

lemma nameiparent_keeps [keeps]: "keeps f (nameiparent pid cwd path name)"
  unfolding nameiparent_def by (rule keeps)

subsection \<open>User memory\<close>

lemma curproc_keeps [keeps]: "keeps f curproc"
  by (auto intro!: keepsI simp: curproc_def split: option.splits)

lemma get_proc_keeps [keeps]: "keeps f (get_proc p)"
  unfolding get_proc_def by (rule keeps)

lemma myself_keeps [keeps]: "keeps f myself"
  unfolding myself_def by (auto intro!: keeps)

lemma mypid_keeps [keeps]: "keeps f mypid"
  unfolding mypid_def by (auto intro!: keeps)

lemma get_file_keeps [keeps]: "keeps f (get_file x)"
  unfolding get_file_def by (rule keeps)

lemma get_vma_keeps [keeps]: "keeps f (get_vma x)"
  unfolding get_vma_def by (rule keeps)

lemma vma_list_from_keeps [keeps]: "keeps f (vma_list_from r)"
  by (auto intro!: keepsI simp: vma_list_from_def split: option.splits)

lemma tf_load_keeps [keeps]: "keeps f (tf_load p r)"
  unfolding tf_load_def by (rule keeps)

lemma tf_store_keeps [keeps]: "keeps f (tf_store p r v)"
  unfolding tf_store_def by (auto intro!: keeps_kmodify)

lemma lazyalloc_keeps [keeps]: "keeps f (lazyalloc pt va r)"
  unfolding lazyalloc_def lazyalloc_fill_def by (auto intro!: keeps readi_keeps)

lemma walkaddr_keeps [keeps]: "keeps f (walkaddr pt va)"
  unfolding walkaddr_def by (auto intro!: keeps)

lemma allocrange_loop_keeps:
  assumes "allocrange_loop pt pa lim s = Some r"
  shows "\<forall>v t. r = Inr (v, t) \<longrightarrow> f t = f s"
proof (rule allocrange_loop.raw_induct[OF _ assms, of "\<lambda>pt pa lim s r. \<forall>v t. r = Inr (v, t) \<longrightarrow> f t = f s"])
  fix loop pt pa lim s r
  assume IH: "\<And>pt pa lim s r. loop pt pa lim s = Some r \<Longrightarrow> \<forall>v t. r = Inr (v, t) \<longrightarrow> f t = f s"
    and run: "(if pa < lim then case walkaddr pt pa s of Inl e \<Rightarrow> Some (Inl e)
        | Inr (_, s') \<Rightarrow> loop pt (pa + PGSIZE) lim s' else Some (Inr ((), s))) = Some r"
  show "\<forall>v t. r = Inr (v, t) \<longrightarrow> f t = f s"
  proof (cases "pa < lim")
    case False
    with run show ?thesis by auto
  next
    case True
    show ?thesis
    proof (cases "walkaddr pt pa s")
      case (Inl e)
      with run True show ?thesis by auto
    next
      case (Inr x)
      obtain v s1 where x: "x = (v, s1)" by fastforce
      have "loop pt (pa + PGSIZE) lim s1 = Some r" using run True Inr x by simp
      from IH[OF this] keepsD[OF walkaddr_keeps Inr[unfolded x]] show ?thesis by simp
    qed
  qed
qed

lemma allocrange_keeps [keeps]: "keeps f (allocrange pt va sz)"
  using allocrange_loop_keeps by (fastforce intro!: keepsI simp: allocrange_def split: option.splits)

lemma copyout_keeps [keeps]: "keeps f (copyout pt dst src)"
proof (rule keepsI)
  fix s v t
  show "copyout pt dst src s = Inr (v, t) \<Longrightarrow> f t = f s"
  proof (induction pt dst src s rule: copyout.induct)
    case (1 pt dst src s)
    show ?case
    proof (cases "src = []")
      case True
      with "1.prems" show ?thesis by (simp add: copyout.simps)
    next
      case False
      with "1.prems" obtain pa s1 where w: "walkaddr pt (PGROUNDDOWN dst) s = Inr (pa, s1)"
        by (auto simp: copyout.simps[of pt dst src] split: sum.splits)
      have s1: "f s1 = f s" by (rule keepsD[OF walkaddr_keeps w])
      from "1.prems" False w "1.IH"[OF False w refl] s1 show ?thesis
        by (auto simp: copyout.simps[of pt dst src] Let_def split: if_splits)
    qed
  qed
qed

lemma copyin_acc_keeps [keeps]: "keeps f (copyin_acc pt src len acc)"
proof (rule keepsI)
  fix s v t
  show "copyin_acc pt src len acc s = Inr (v, t) \<Longrightarrow> f t = f s"
  proof (induction pt src len acc s rule: copyin_acc.induct)
    case (1 pt src len acc s)
    show ?case
    proof (cases "len = 0")
      case True
      with "1.prems" show ?thesis by (simp add: copyin_acc.simps)
    next
      case False
      with "1.prems" obtain pa s1 where w: "walkaddr pt (PGROUNDDOWN src) s = Inr (pa, s1)"
        by (auto simp: copyin_acc.simps[of pt src len] split: sum.splits)
      have s1: "f s1 = f s" by (rule keepsD[OF walkaddr_keeps w])
      from "1.prems" False w "1.IH"[OF False w refl] s1 show ?thesis
        by (auto simp: copyin_acc.simps[of pt src len] Let_def split: if_splits)
    qed
  qed
qed

lemma copyinstr_acc_keeps [keeps]: "keeps f (copyinstr_acc pt src len acc)"
proof (rule keepsI)
  fix s v t
  show "copyinstr_acc pt src len acc s = Inr (v, t) \<Longrightarrow> f t = f s"
  proof (induction pt src len acc s rule: copyinstr_acc.induct)
    case (1 pt src len acc s)
    show ?case
    proof (cases "len = 0")
      case True
      with "1.prems" show ?thesis by (simp add: copyinstr_acc.simps)
    next
      case False
      with "1.prems" obtain pa s1 where w: "walkaddr pt (PGROUNDDOWN src) s = Inr (pa, s1)"
        by (auto simp: copyinstr_acc.simps[of pt src len] split: sum.splits)
      have s1: "f s1 = f s" by (rule keepsD[OF walkaddr_keeps w])
      from "1.prems" False w "1.IH"[OF False w refl] s1 show ?thesis
        by (auto simp: copyinstr_acc.simps[of pt src len] Let_def split: if_splits)
    qed
  qed
qed

lemma copyin_keeps [keeps]: "keeps f (copyin pt src len)"
  unfolding copyin_def by (rule keeps)

lemma copyinstr_keeps [keeps]: "keeps f (copyinstr pt src len)"
  unfolding copyinstr_def by (rule keeps)

lemma either_copyout_keeps [keeps]: "keeps f (either_copyout u a bs)"
  unfolding either_copyout_def by (auto intro!: keeps)

lemma either_copyin_keeps [keeps]: "keeps f (either_copyin u a n)"
  unfolding either_copyin_def by (auto intro!: keeps)

lemma argraw_keeps [keeps]: "keeps f (argraw n)"
  unfolding argraw_def by (auto intro!: keeps)

lemma argint_keeps [keeps]: "keeps f (argint n)"
  unfolding argint_def by (auto intro!: keeps)

lemma argaddr_keeps [keeps]: "keeps f (argaddr n)"
  unfolding argaddr_def by (rule keeps)

lemma fetchaddr_keeps [keeps]: "keeps f (fetchaddr a)"
  unfolding fetchaddr_def by (auto intro!: keeps)

lemma fetchstr_keeps [keeps]: "keeps f (fetchstr a mx)"
  unfolding fetchstr_def by (auto intro!: keeps)

lemma argstr_keeps [keeps]: "keeps f (argstr n mx)"
  unfolding argstr_def by (auto intro!: keeps)

lemma argfd_keeps [keeps]: "keeps f (argfd n)"
  unfolding argfd_def by (auto intro!: keeps)

lemma vma_alloc_keeps [keeps]: "keeps f vma_alloc"
  unfolding vma_alloc_def by (rule keeps)

lemma knamei_keeps [keeps]: "keeps f (knamei path)"
  unfolding knamei_def by (auto intro!: keeps)

lemma knameiparent_keeps [keeps]: "keeps f (knameiparent path)"
  unfolding knameiparent_def by (auto intro!: keeps)

lemma isdirempty_loop_keeps [keeps]: "keeps f (isdirempty_loop dp offs)"
  by (induction offs) (auto intro!: keeps readi_keeps)

lemma isdirempty_keeps [keeps]: "keeps f (isdirempty dp)"
  unfolding isdirempty_def by (auto intro!: keeps)

lemma create_keeps [keeps]: "keeps f (create path type major minor)"
  unfolding create_def create_existing_def by (auto intro!: keeps)

lemma open_inode_keeps [keeps]: "keeps f (open_inode pid path omode)"
  unfolding open_inode_def by (auto intro!: keeps)

end

subsection \<open>Tables of the kernel\<close>

text \<open>
  An observation that does not depend on the file, pipe, area and console tables, nor on the
  parts of a process other than its scheduling state and its tickets.
\<close>

locale table_frame = low_frame +
  assumes f_ftable [simp]: "f (s\<lparr>k_ftable := ft\<rparr>) = f s"
    and f_vmas [simp]: "f (s\<lparr>k_vmas := vs\<rparr>) = f s"
    and f_pipes [simp]: "f (s\<lparr>k_pipes := ps\<rparr>) = f s"
    and f_cons [simp]: "f (s\<lparr>k_cons := co\<rparr>) = f s"
    and f_uart [simp]: "f (s\<lparr>k_uart := ua\<rparr>) = f s"
    and f_nextpid [simp]: "f (s\<lparr>k_nextpid := np\<rparr>) = f s"
    and f_initproc [simp]: "f (s\<lparr>k_initproc := ip\<rparr>) = f s"
    and f_seed [simp]: "f (s\<lparr>k_seed := sd\<rparr>) = f s"
    and f_ticks [simp]: "f (s\<lparr>k_ticks := tk\<rparr>) = f s"
    and f_proc: "p_state (g (k_proc s ! p)) = p_state (k_proc s ! p) \<Longrightarrow>
      p_tickets (g (k_proc s ! p)) = p_tickets (k_proc s ! p) \<Longrightarrow>
      f (s\<lparr>k_proc := (k_proc s)[p := g (k_proc s ! p)]\<rparr>) = f s"
begin

lemma upd_proc_keeps:
  "(\<And>x. p_state (g x) = p_state x) \<Longrightarrow> (\<And>x. p_tickets (g x) = p_tickets x) \<Longrightarrow> keeps f (upd_proc p g)"
  unfolding upd_proc_def by (auto intro!: keeps_kmodify f_proc)

lemma upd_file_keeps [keeps]: "keeps f (upd_file x g)"
  unfolding upd_file_def by (auto intro!: keeps_kmodify)

lemma upd_vma_keeps [keeps]: "keeps f (upd_vma r g)"
  by (cases r) (auto intro!: keeps_kmodify upd_proc_keeps)

lemma filealloc_keeps [keeps]: "keeps f filealloc"
  unfolding filealloc_def by (auto intro!: keeps)

lemma filedup_keeps [keeps]: "keeps f (filedup x)"
  unfolding filedup_def by (auto intro!: keeps)

lemma fdalloc_keeps [keeps]: "keeps f (fdalloc x)"
  unfolding fdalloc_def by (auto intro!: keeps upd_proc_keeps)

lemma set_fd_keeps [keeps]: "keeps f (set_fd fd v)"
  unfolding set_fd_def by (auto intro!: keeps upd_proc_keeps)

lemma filestat_keeps [keeps]: "keeps f (filestat pad x addr)"
  unfolding filestat_def by (auto intro!: keeps)

lemma vma_init_full_keeps [keeps]: "keeps f (vma_init_full r st len fl file off pm flg nx)"
  unfolding vma_init_full_def by (auto intro!: keeps)

lemma vma_init_keeps [keeps]: "keeps f (vma_init r st len file off pm flg nx)"
  unfolding vma_init_def by (rule keeps)

lemma vma_copy_keeps [keeps]: "keeps f (vma_copy a b)"
  unfolding vma_copy_def by (auto intro!: keeps)

lemma mmap_keeps [keeps]: "keeps f (mmap len prot flags x off)"
  unfolding mmap_def by (auto intro!: keeps)

lemma proc_pagetable_keeps [keeps]: "keeps f (proc_pagetable p)"
  unfolding proc_pagetable_def by (auto intro!: keeps)

lemma proc_freepagetable_keeps [keeps]: "keeps f (proc_freepagetable pt sz)"
  unfolding proc_freepagetable_def by (auto intro!: keeps)

lemma allocpid_keeps [keeps]: "keeps f allocpid"
  unfolding allocpid_def by (auto intro!: keeps keeps_kmodify)

lemma next_random_keeps [keeps]: "keeps f next_random"
  unfolding next_random_def by (auto intro!: keeps keeps_kmodify)

lemma sched_keeps [keeps]: "keeps f sched"
  unfolding sched_def by (auto intro!: keeps upd_proc_keeps)

lemma fork_ofile_keeps [keeps]: "keeps f (fork_ofile p np i)"
  unfolding fork_ofile_def by (auto intro!: keeps upd_proc_keeps)

lemma exec_load_keeps [keeps]: "keeps f (exec_load n ip ef off sz vma)"
  by (induction n arbitrary: off sz vma) (auto intro!: keeps readi_keeps)

lemma push_args_keeps [keeps]: "keeps f (push_args pt sb argv sp us)"
  by (induction argv arbitrary: sp us) (auto intro!: keeps)

lemma push_argv_keeps [keeps]: "keeps f (push_argv pt sb sp us)"
  unfolding push_argv_def by (auto intro!: keeps)

lemma exec_args_keeps [keeps]: "keeps f (exec_args n ua argv)"
  by (induction n arbitrary: argv) (auto intro!: keeps)

lemma set_killed_keeps [keeps]: "keeps f (set_killed p)"
  unfolding set_killed_def by (auto intro!: upd_proc_keeps)

lemma usertrapret_keeps [keeps]: "keeps f (usertrapret t)"
  unfolding usertrapret_def by (auto intro!: keeps)

end

subsection \<open>Open transactions\<close>

locale sched_frame = table_frame +
  assumes f_proc_any [simp]: "f (s\<lparr>k_proc := ps'\<rparr>) = f s"
    and f_tickets [simp]: "f (s\<lparr>k_tickets := tt\<rparr>) = f s"
    and f_cur [simp]: "f (s\<lparr>k_cur := cu\<rparr>) = f s"
    and f_ticks_last [simp]: "f (s\<lparr>k_ticks_last := tl'\<rparr>) = f s"
begin

lemma upd_proc_any_keeps [keeps]: "keeps f (upd_proc p g)"
  unfolding upd_proc_def by (auto intro!: keeps_kmodify)

lemma add_tickets_keeps [keeps]: "keeps f (add_tickets n)"
  unfolding add_tickets_def by (auto intro!: keeps_kmodify)

lemma wakeup_keeps [keeps]: "keeps f (wakeup ch)"
  unfolding wakeup_def by (auto intro!: keeps)

lemma yield_keeps [keeps]: "keeps f yield"
  unfolding yield_def by (auto intro!: keeps)

lemma sleep_keeps [keeps]: "keeps f (sleep ch)"
  unfolding sleep_def by (auto intro!: keeps)

lemma kill_keeps [keeps]: "keeps f (kill pid)"
proof -
  have "keeps f (kill_loop pid is)" for "is" by (induction "is") (auto intro!: keeps)
  then show ?thesis by (simp add: kill_def)
qed

lemma settickets_keeps [keeps]: "keeps f (settickets n)"
  unfolding settickets_def by (auto intro!: keeps)

lemma kpipeclose_keeps [keeps]: "keeps f (kpipeclose pi w)"
  unfolding kpipeclose_def by (auto intro!: keeps keeps_kmodify)

lemma freeproc_keeps [keeps]: "keeps f (freeproc p)"
  unfolding freeproc_def by (auto intro!: keeps)

lemma allocproc_keeps [keeps]: "keeps f allocproc"
  unfolding allocproc_def allocproc_found_def by (auto intro!: keeps)

lemma reparent_keeps [keeps]: "keeps f (reparent p)"
  unfolding reparent_def by (auto intro!: keeps)

lemma wait_loop_keeps [keeps]: "keeps f (wait_loop p addr is hk)"
  by (induction "is" arbitrary: hk) (auto intro!: keeps)

lemma wait_keeps [keeps]: "keeps f (wait addr)"
  unfolding wait_def by (auto intro!: keeps)

lemma pipealloc_keeps:
  "(\<And>x. keeps f (fileclose x)) \<Longrightarrow> keeps f pipealloc"
  unfolding pipealloc_def close_opt_def
  by (auto intro!: keeps keeps_kmodify split: option.split)

lemma clockintr_keeps [keeps]: "keeps f clockintr"
  unfolding clockintr_def by (auto intro!: keeps keeps_kmodify)

end

subsection \<open>Pipes and console\<close>

text \<open>A copy that carries an error along; an error is never turned back into a state.\<close>

definition carried :: "('s \<Rightarrow> 'b) \<Rightarrow> kerr + 's \<Rightarrow> kerr + 's \<Rightarrow> bool" where
  "carried f st st' \<longleftrightarrow> (\<forall>t. st' = Inr t \<longrightarrow> (\<exists>s. st = Inr s \<and> f t = f s))"

lemma carried_refl [simp]: "carried f st st"
  by (simp add: carried_def)

lemma carried_trans: "carried f a b \<Longrightarrow> carried f b c \<Longrightarrow> carried f a c"
  unfolding carried_def by metis

lemma pipewrite_carried:
  assumes "\<And>a st. carried f st (snd (cin a st))"
  shows "pipewrite_loop cin killed addr n i pi st = (r, wk, pi', st') \<Longrightarrow> carried f st st'"
proof (induction "nat (n - i)" arbitrary: i pi st rule: less_induct)
  case less
  obtain o' st1 where c: "cin (addr + of_int i) st = (o', st1)" by fastforce
  have c1: "carried f st st1" using assms[of st "addr + of_int i"] by (simp add: c)
  show ?case
  proof (cases "i < n \<and> pi_readopen pi \<and> \<not> killed \<and> pi_nwrite pi \<noteq> pi_nread pi + of_nat PIPESIZE \<and> o' \<noteq> None")
    case True
    then have "nat (n - (i + 1)) < nat (n - i)" by simp
    from less.hyps[OF this] less.prems True c c1 show ?thesis
      by (auto simp: pipewrite_loop.simps[of cin _ addr n i] intro: carried_trans)
  next
    case False
    with less.prems c c1 show ?thesis
      by (auto simp: pipewrite_loop.simps[of cin killed addr n i] split: if_splits)
  qed
qed

lemma piperead_loop_carried:
  assumes "\<And>a ch st. carried f st (snd (cout a ch st))"
  shows "piperead_loop cout addr n i pi st = (r, pi', st') \<Longrightarrow> carried f st st'"
proof (induction "nat (n - i)" arbitrary: i pi st rule: less_induct)
  case less
  let ?ch = "pi_data pi ! slot PIPESIZE (pi_nread pi)"
  obtain ok st1 where c: "cout (addr + of_int i) ?ch st = (ok, st1)" by fastforce
  have c1: "carried f st st1" using assms[of st "addr + of_int i" ?ch] by (simp add: c)
  show ?case
  proof (cases "i < n \<and> pi_nread pi \<noteq> pi_nwrite pi \<and> ok")
    case True
    then have "nat (n - (i + 1)) < nat (n - i)" by simp
    from less.hyps[OF this] less.prems True c c1 show ?thesis
      by (auto simp: piperead_loop.simps[of cout addr n i] intro: carried_trans)
  next
    case False
    with less.prems c c1 show ?thesis
      by (auto simp: piperead_loop.simps[of cout addr n i] split: if_splits)
  qed
qed

lemma piperead_carried:
  assumes "\<And>a ch st. carried f st (snd (cout a ch st))"
    and "piperead cout killed pi addr n st = (r, wk, pi', st')"
  shows "carried f st st'"
proof (cases "pi_nread pi = pi_nwrite pi \<and> pi_writeopen pi")
  case True
  with assms(2) show ?thesis by (auto simp: piperead_def split: if_splits)
next
  case False
  with assms(2) obtain k where "piperead_loop cout addr n 0 pi st = (k, pi', st')"
    by (auto simp: piperead_def split: prod.splits)
  from piperead_loop_carried[OF assms(1) this] show ?thesis .
qed

lemma consolewrite_carried:
  assumes "\<And>a st. carried f st (snd (cin a st))"
  shows "consolewrite_loop cin pan src n i w u st = (r, w', u', st') \<Longrightarrow> carried f st st'"
proof (induction "nat (n - i)" arbitrary: i w u st rule: less_induct)
  case less
  obtain o' st1 where c: "cin (src + of_int i) st = (o', st1)" by fastforce
  have c1: "carried f st st1" using assms[of st "src + of_int i"] by (simp add: c)
  show ?case
  proof (cases "i < n \<and> (\<exists>ch wk. o' = Some ch \<and> fst (uartputc pan ch u) = Put_done wk)")
    case True
    then have lt: "nat (n - (i + 1)) < nat (n - i)" by simp
    from True obtain ch wk u1 where "o' = Some ch" "uartputc pan ch u = (Put_done wk, u1)"
      by (metis prod.collapse)
    with less.hyps[OF lt] less.prems True c c1 show ?thesis
      by (auto simp: consolewrite_loop.simps[of cin pan src n i] intro: carried_trans)
  next
    case False
    with less.prems c c1 show ?thesis
      by (auto simp: consolewrite_loop.simps[of cin pan src n i]
          split: if_splits option.splits prod.splits putc_result.splits)
  qed
qed

lemma consoleread_carried:
  assumes "\<And>a ch st. carried f st (snd (cout a ch st))"
  shows "consoleread_loop cout killed target dst n c st = (r, c', st') \<Longrightarrow> carried f st st'"
proof (induction "nat n" arbitrary: dst n c st rule: less_induct)
  case less
  let ?ch = "cn_buf c ! slot INPUT_BUF (cn_r c)"
  obtain ok st1 where o': "cout dst ?ch st = (ok, st1)" by fastforce
  have c1: "carried f st st1" using assms[of st dst ?ch] by (simp add: o')
  show ?case
  proof (cases "0 < n \<and> cn_r c \<noteq> cn_w c \<and> ?ch \<noteq> 4 \<and> ok \<and> ?ch \<noteq> 10")
    case True
    then have "nat (n - 1) < nat n" by simp
    from less.hyps[OF this] less.prems True o' c1 show ?thesis
      by (auto simp: consoleread_loop.simps[of cout killed target dst n] Let_def intro: carried_trans)
  next
    case False
    with less.prems o' c1 show ?thesis
      by (auto simp: consoleread_loop.simps[of cout killed target dst n] Let_def split: if_splits bool.splits)
  qed
qed

lemma resume_carried:
  assumes "carried f (Inr s) st" "kseq (resume_with g st) m s = Inr (v, t)"
    "keeps f m" "\<And>s. f (g s) = f s"
  shows "f t = f s"
  using assms by (auto simp: resume_with_def carried_def keeps_def split: sum.splits)

context low_frame
begin

lemma byte_in_carried: "carried f st (snd (byte_in a st))"
  using keepsD[OF either_copyin_keeps[of True a 1]]
  by (auto simp: byte_in_def carried_def split: sum.splits prod.splits)

lemma byte_out_carried: "carried f st (snd (byte_out a ch st))"
  using keepsD[OF either_copyout_keeps[of True a "[ch]"]]
  by (auto simp: byte_out_def carried_def split: sum.splits prod.splits)

end

interpretation out: sched_frame fs_outstanding
  by unfold_locales simp_all

end
