(* ===== verification/Transactions.thy ===== *)
theory Transactions
  imports Frames
begin

text \<open>
  Every system call closes the file-system transactions it opens. \<open>opens d m\<close> says that a run of
  \<open>m\<close> that returns leaves \<open>d\<close> more transactions open than it found.
\<close>

named_theorems opens \<open>balance of begin_op and end_op\<close>

definition opens :: "int \<Rightarrow> (kst, 'a) kmon \<Rightarrow> bool" where
  "opens d m \<longleftrightarrow> (\<forall>s v t. m s = Inr (v, t) \<longrightarrow> fs_outstanding t = fs_outstanding s + d)"

lemma opensD: "opens d m \<Longrightarrow> m s = Inr (v, t) \<Longrightarrow> fs_outstanding t = fs_outstanding s + d"
  by (auto simp: opens_def)

lemma keeps_opens: "keeps fs_outstanding m \<longleftrightarrow> opens 0 m"
  by (simp add: keeps_def opens_def)

lemma opens_keeps: "opens 0 m \<Longrightarrow> keeps fs_outstanding m"
  by (simp add: keeps_opens)

lemma opens_kret [opens]: "opens 0 (kret x)"
  by (auto simp: opens_def)

lemma opens_fail [opens]: "opens d (kfail e)" "opens d (panic m)" "opens d (fault m)"
  by (auto simp: opens_def)

lemma opens_kbind [opens]:
  "keeps fs_outstanding m \<Longrightarrow> (\<And>x. opens d (g x)) \<Longrightarrow> opens d (kbind m g)"
  unfolding keeps_def opens_def by (metis kbind_Inr)

lemma opens_kseq: "keeps fs_outstanding m \<Longrightarrow> opens d n \<Longrightarrow> opens d (kseq m n)"
  unfolding kseq_def by (rule opens_kbind)

lemma opens_begin: "opens (d - 1) m \<Longrightarrow> opens d (kseq fs_begin_op m)"
  unfolding opens_def fs_begin_op_def by fastforce

lemma opens_end: "opens (d + 1) m \<Longrightarrow> opens d (kseq fs_end_op m)"
  unfolding opens_def fs_end_op_def by fastforce

lemma opens_end_op [opens]: "opens (-1) fs_end_op"
  by (simp add: opens_def fs_end_op_def)

lemma opens_end_with [opens]: "opens (-1) (end_with v)"
  unfolding end_with_def by (rule opens_end) (simp add: opens_kret)

lemma opens_if [opens]: "opens d m \<Longrightarrow> opens d n \<Longrightarrow> opens d (if c then m else n)"
  by simp

lemma opens_option [opens]:
  "opens d m \<Longrightarrow> (\<And>x. opens d (g x)) \<Longrightarrow> opens d (case o' of None \<Rightarrow> m | Some x \<Rightarrow> g x)"
  by (cases o') auto

lemma opens_prod [opens]: "(\<And>a b. opens d (g a b)) \<Longrightarrow> opens d (case p of (a, b) \<Rightarrow> g a b)"
  by (cases p) auto

lemma opens_sum [opens]:
  "(\<And>x. opens d (g x)) \<Longrightarrow> (\<And>x. opens d (h x)) \<Longrightarrow> opens d (case r of Inl x \<Rightarrow> g x | Inr x \<Rightarrow> h x)"
  by (cases r) auto

lemma opens_Let [opens]: "(\<And>x. opens d (g x)) \<Longrightarrow> opens d (Let a g)"
  by simp

text \<open>A body that keeps the count, inside \<^verbatim>\<open>begin_op\<close> and \<^verbatim>\<open>end_op\<close>.\<close>

lemmas trans_intros = opens_begin opens_end opens_kseq

subsection \<open>Files and memory areas\<close>

lemma close_inode_keeps [keeps]: "keeps fs_outstanding (close_inode ip)"
  unfolding close_inode_def keeps_opens by (intro opens_kbind opens_begin opens_kseq) (auto intro!: keeps opens)

lemma fileclose_keeps [keeps]: "keeps fs_outstanding (fileclose x)"
  unfolding fileclose_def by (auto intro!: keeps)

lemma filewrite_part_keeps [keeps]: "keeps fs_outstanding (filewrite_part x addr i n)"
  unfolding filewrite_part_def keeps_opens
  by (intro opens_begin opens_kseq opens_kbind opens_end) (auto intro!: keeps opens out.writei_keeps)

lemma filewrite_loop_keeps [keeps]: "keeps fs_outstanding (filewrite_loop x addr n i)"
proof (rule keepsI)
  fix s v t
  show "filewrite_loop x addr n i s = Inr (v, t) \<Longrightarrow> fs_outstanding t = fs_outstanding s"
  proof (induction x addr n i s rule: filewrite_loop.induct)
    case (1 x addr n i s)
    let ?n1 = "min (n - i) WRITE_MAX"
    show ?case
    proof (cases "i < n")
      case False
      with "1.prems" show ?thesis by (simp add: filewrite_loop.simps)
    next
      case True
      with "1.prems" obtain r s1 where p: "filewrite_part x addr i ?n1 s = Inr (r, s1)"
        by (auto simp: filewrite_loop.simps[of x addr n i] Let_def split: sum.splits)
      from keepsD[OF filewrite_part_keeps p] "1.prems" p True "1.IH"[OF True refl p refl] show ?thesis
        by (auto simp: filewrite_loop.simps[of x addr n i] Let_def split: if_splits)
    qed
  qed
qed

lemma wake_all_keeps [keeps]: "keeps fs_outstanding (wake_all pi chs)"
  unfolding wake_all_def by (auto intro!: keeps)

lemma pipe_result_keeps:
  assumes "carried fs_outstanding (Inr s) st" "pipe_result pi (r, wk, x, st) s = Inr (v, t)"
  shows "fs_outstanding t = fs_outstanding s"
proof -
  from assms(2) obtain s1 where st: "st = Inr s1"
    by (auto simp: pipe_result_def resume_with_def split: sum.splits)
  let ?s1 = "s1\<lparr>k_pipes := (k_pipes s1)(pi := x)\<rparr>"
  let ?m = "kseq (wake_all pi wk) (case r of Returns i \<Rightarrow> kret (Some i)
      | Blocks ch _ \<Rightarrow> kseq (sleep (pipe_chan pi ch)) (kret None))"
  have m: "?m ?s1 = Inr (v, t)" using assms(2) by (auto simp: pipe_result_def resume_with_def st)
  have "keeps fs_outstanding ?m" by (auto intro!: keeps)
  from keepsD[OF this m] have "fs_outstanding t = fs_outstanding ?s1" .
  with assms(1) st show ?thesis by (simp add: carried_def)
qed

lemma kpiperead_keeps [keeps]: "keeps fs_outstanding (kpiperead pi addr n)"
proof -
  have "keeps fs_outstanding (kbind (kget (\<lambda>s. piperead byte_out k (k_pipes s pi) addr n (Inr s))) (pipe_result pi))" for k
  proof (rule keepsI)
    fix s v t
    obtain r wk x st where p: "piperead byte_out k (k_pipes s pi) addr n (Inr s) = (r, wk, x, st)"
      by (metis prod_cases4)
    assume "kbind (kget (\<lambda>s. piperead byte_out k (k_pipes s pi) addr n (Inr s))) (pipe_result pi) s = Inr (v, t)"
    then have "pipe_result pi (r, wk, x, st) s = Inr (v, t)" by (simp add: p)
    from pipe_result_keeps[OF piperead_carried[OF out.byte_out_carried p] this]
    show "fs_outstanding t = fs_outstanding s" .
  qed
  then show ?thesis unfolding kpiperead_def by (intro keeps_kbind[OF out.myself_keeps])
qed

lemma kpipewrite_keeps [keeps]: "keeps fs_outstanding (kpipewrite pi addr n)"
proof -
  have "keeps fs_outstanding (kbind (kget (\<lambda>s. pipewrite byte_in k (k_pipes s pi) addr n (Inr s))) (pipe_result pi))" for k
  proof (rule keepsI)
    fix s v t
    obtain r wk x st where p: "pipewrite byte_in k (k_pipes s pi) addr n (Inr s) = (r, wk, x, st)"
      by (metis prod_cases4)
    assume "kbind (kget (\<lambda>s. pipewrite byte_in k (k_pipes s pi) addr n (Inr s))) (pipe_result pi) s = Inr (v, t)"
    then have "pipe_result pi (r, wk, x, st) s = Inr (v, t)" by (simp add: p)
    from pipe_result_keeps[OF pipewrite_carried[OF out.byte_in_carried p[unfolded pipewrite_def]] this]
    show "fs_outstanding t = fs_outstanding s" .
  qed
  then show ?thesis unfolding kpipewrite_def by (intro keeps_kbind[OF out.myself_keeps])
qed

lemma kconsoleread_keeps [keeps]: "keeps fs_outstanding (kconsoleread dst n)"
proof -
  have "keeps fs_outstanding (kbind (kget (\<lambda>s. consoleread byte_out k dst n (k_cons s) (Inr s)))
      (\<lambda>(r, c, st). kseq (resume_with (\<lambda>s. s\<lparr>k_cons := c\<rparr>) st)
         (case r of CReturns i \<Rightarrow> kret (Some i) | CBlocks _ _ \<Rightarrow> kseq (sleep Ch_cons) (kret None))))" for k
  proof (rule keepsI)
    fix s v t
    obtain r c st where p: "consoleread byte_out k dst n (k_cons s) (Inr s) = (r, c, st)"
      by (metis prod_cases3)
    assume "kbind (kget (\<lambda>s. consoleread byte_out k dst n (k_cons s) (Inr s)))
      (\<lambda>(r, c, st). kseq (resume_with (\<lambda>s. s\<lparr>k_cons := c\<rparr>) st)
         (case r of CReturns i \<Rightarrow> kret (Some i) | CBlocks _ _ \<Rightarrow> kseq (sleep Ch_cons) (kret None))) s = Inr (v, t)"
    then have "kseq (resume_with (\<lambda>s. s\<lparr>k_cons := c\<rparr>) st)
         (case r of CReturns i \<Rightarrow> kret (Some i) | CBlocks _ _ \<Rightarrow> kseq (sleep Ch_cons) (kret None)) s = Inr (v, t)"
      by (simp only: kbind_Inr kget_Inr p) auto
    from resume_carried[OF consoleread_carried[OF out.byte_out_carried p[unfolded consoleread_def]] this]
    show "fs_outstanding t = fs_outstanding s" by (auto intro!: keeps)
  qed
  then show ?thesis unfolding kconsoleread_def by (intro keeps_kbind[OF out.myself_keeps])
qed

lemma kconsolewrite_keeps [keeps]: "keeps fs_outstanding (kconsolewrite src n)"
proof (rule keepsI)
  fix s v t
  obtain r w u st where p: "consolewrite byte_in (k_panicked s) src n (k_uart s) (Inr s) = (r, w, u, st)"
    by (metis prod_cases4)
  assume "kconsolewrite src n s = Inr (v, t)"
  then have "kseq (resume_with (\<lambda>s. s\<lparr>k_uart := u\<rparr>) st)
     (kseq (kwhen w (wakeup Ch_uart))
        (case r of CReturns i \<Rightarrow> kret (Some i) | CBlocks _ _ \<Rightarrow> kseq (sleep Ch_uart) (kret None))) s = Inr (v, t)"
    unfolding kconsolewrite_def by (simp only: kbind_Inr kget_Inr p) auto
  from resume_carried[OF consolewrite_carried[OF out.byte_in_carried p[unfolded consolewrite_def]] this]
  show "fs_outstanding t = fs_outstanding s" by (auto intro!: keeps)
qed

lemma fileread_keeps [keeps]: "keeps fs_outstanding (fileread x addr n)"
  unfolding fileread_def by (auto intro!: keeps out.readi_keeps)

lemma filewrite_keeps [keeps]: "keeps fs_outstanding (filewrite x addr n)"
  unfolding filewrite_def by (auto intro!: keeps)

lemma writeback_op_keeps [keeps]: "keeps fs_outstanding (writeback_op ip start pos n)"
  unfolding writeback_op_def keeps_opens
  by (intro opens_kbind opens_begin opens_kseq) (auto intro!: keeps opens out.writei_keeps)

lemma writeback_keeps [keeps]: "keeps fs_outstanding (writeback v st we)"
  unfolding writeback_def by (auto intro!: keeps)

lemma vma_free_page_keeps [keeps]: "keeps fs_outstanding (vma_free_page pt r addr len pos)"
  unfolding vma_free_page_def by (auto intro!: keeps)

lemma vma_free_mem_keeps [keeps]: "keeps fs_outstanding (vma_free_mem pt r addr len)"
proof -
  have "vma_free_loop pt r addr len pos s = Inr (v, t) \<Longrightarrow> fs_outstanding t = fs_outstanding s" for pos s v t
  proof (induction pt r addr len pos s rule: vma_free_loop.induct)
    case (1 pt r addr len pos s)
    show ?case
    proof (cases "pos < addr + len")
      case False
      with "1.prems" show ?thesis by (simp add: vma_free_loop.simps)
    next
      case True
      with "1.prems" obtain x s1 where p: "vma_free_page pt r addr len pos s = Inr (x, s1)"
        by (auto simp: vma_free_loop.simps[of pt r addr len pos] split: sum.splits)
      from keepsD[OF vma_free_page_keeps p] "1.prems" p True "1.IH"[OF True p refl] show ?thesis
        by (simp add: vma_free_loop.simps[of pt r addr len pos])
    qed
  qed
  then show ?thesis by (auto intro!: keepsI simp: vma_free_mem_def)
qed

lemma vma_free_keeps [keeps]: "keeps fs_outstanding (vma_free pt r)"
  unfolding vma_free_def by (auto intro!: keeps)

lemma vma_free_all_keeps [keeps]: "keeps fs_outstanding (vma_free_all fuel pt r)"
  by (induction fuel pt r rule: vma_free_all.induct) (auto intro!: keeps)

lemma sbrk_keeps [keeps]: "keeps fs_outstanding (sbrk n)"
  unfolding sbrk_def by (auto intro!: keeps)

lemma munmap_keeps [keeps]: "keeps fs_outstanding (munmap addr len)"
  unfolding munmap_def by (auto intro!: keeps)

subsection \<open>Processes\<close>

lemma fork_vmas_keeps [keeps]: "keeps fs_outstanding (fork_vmas p np rs it2)"
  by (induction rs arbitrary: it2) (auto intro!: keeps)

lemma fork_keeps [keeps]: "keeps fs_outstanding fork"
  unfolding fork_def fork_child_def by (auto intro!: keeps keeps_kmodify)

lemma kexit_keeps [keeps]: "keeps fs_outstanding (kexit status)"
  unfolding kexit_def exit_fd_def exit_zombie_def
  apply (rule opens_keeps)
  apply (rule opens_kbind, rule keeps, rule opens_kbind, rule keeps, rule opens_if, rule opens_fail)
  apply (rule opens_kseq, (auto intro!: keeps)[1], rule opens_kbind, rule keeps)
  apply (rule opens_kseq, rule keeps, rule opens_begin, rule opens_kseq, (auto intro!: keeps)[1], rule opens_end)
  apply (auto simp: keeps_opens[symmetric] intro!: keeps)
  done

lemma exec_bad_opens:
  "opens (-1) (exec_bad p old pt v (Some ip))" "opens 0 (exec_bad p old pt v None)"
proof -
  have "opens (-1) (kbind mypid (\<lambda>pid. kseq (iunlockput pid ip) fs_end_op))"
    by (intro opens_kbind opens_kseq) (auto intro!: keeps opens)
  moreover have "opens (-1) (kseq m (kret (-1)))" if "opens (-1) m" for m :: "(kst, unit) kmon"
    using that by (auto simp: opens_def)
  ultimately have "opens (-1) (kseq (kbind mypid (\<lambda>pid. kseq (iunlockput pid ip) fs_end_op)) (kret (-1)))"
    by blast
  then show "opens (-1) (exec_bad p old pt v (Some ip))"
    unfolding exec_bad_def option.case by (rule opens_kseq[OF _ opens_kseq, rotated 2]) (auto intro!: keeps)
  show "opens 0 (exec_bad p old pt v None)"
    unfolding exec_bad_def by (auto simp: keeps_opens[symmetric] intro!: keeps)
qed

lemma exec_stack_keeps [keeps]: "keeps fs_outstanding (exec_stack p path argv old pt entry sz v)"
  unfolding exec_stack_def exec_commit_def
  by (auto intro!: keeps opens_keeps[OF exec_bad_opens(2)])

lemma exec_keeps [keeps]: "keeps fs_outstanding (exec path argv)"
proof -
  have e: "opens (-1) (kseq fs_end_op m)" if "keeps fs_outstanding m" for m :: "(kst, int) kmon"
    using that by (intro opens_end) (simp add: keeps_opens)
  show ?thesis unfolding exec_def keeps_opens
    by (intro opens_kbind opens_Let opens_begin)
       (auto intro!: keeps opens opens_kseq e exec_bad_opens out.readi_keeps)
qed

subsection \<open>System calls\<close>

lemma sys_dup_keeps [keeps]: "keeps fs_outstanding sys_dup"
  unfolding sys_dup_def by (auto intro!: keeps)

lemma sys_read_keeps [keeps]: "keeps fs_outstanding sys_read"
  unfolding sys_read_def by (auto intro!: keeps)

lemma sys_write_keeps [keeps]: "keeps fs_outstanding sys_write"
  unfolding sys_write_def by (auto intro!: keeps)

lemma sys_close_keeps [keeps]: "keeps fs_outstanding sys_close"
  unfolding sys_close_def by (auto intro!: keeps)

lemma sys_fstat_keeps [keeps]: "keeps fs_outstanding (sys_fstat pad)"
  unfolding sys_fstat_def by (auto intro!: keeps)

lemma link_bad_opens [opens]: "opens (-1) (link_bad pid ip)"
  unfolding link_bad_def by (intro opens_kseq) (auto intro!: keeps opens)

lemma sys_link_keeps [keeps]: "keeps fs_outstanding sys_link"
  unfolding sys_link_def keeps_opens
  by (intro opens_kbind opens_option opens_begin) (auto intro!: keeps opens opens_kseq)

lemma unlink_bad_opens [opens]: "opens (-1) (unlink_bad pid dp)"
  unfolding unlink_bad_def by (intro opens_kseq) (auto intro!: keeps opens)

lemma unlink_entry_opens [opens]: "opens (-1) (unlink_entry pid dp ip off)"
  unfolding unlink_entry_def by (intro opens_kseq) (auto intro!: keeps opens opens_kseq out.writei_keeps)

lemma sys_unlink_keeps [keeps]: "keeps fs_outstanding sys_unlink"
  unfolding sys_unlink_def keeps_opens
  by (intro opens_kbind opens_option opens_begin) (auto intro!: keeps opens opens_kseq)

lemma open_fail_opens [opens]: "opens (-1) (open_fail pid ip)"
  unfolding open_fail_def by (intro opens_kseq) (auto intro!: keeps opens)

lemma sys_open_keeps [keeps]: "keeps fs_outstanding sys_open"
  unfolding sys_open_def keeps_opens
  by (intro opens_kbind opens_option opens_begin) (auto intro!: keeps opens opens_kseq)

lemma make_node_opens [opens]: "opens (-1) (make_node type major minor path)"
  unfolding make_node_def by (auto intro!: keeps opens opens_kseq)

lemma sys_mkdir_keeps [keeps]: "keeps fs_outstanding sys_mkdir"
  unfolding sys_mkdir_def keeps_opens by (intro opens_begin) (auto intro!: keeps opens)

lemma sys_mknod_keeps [keeps]: "keeps fs_outstanding sys_mknod"
  unfolding sys_mknod_def keeps_opens by (intro opens_begin) (auto intro!: keeps opens)

lemma sys_chdir_keeps [keeps]: "keeps fs_outstanding sys_chdir"
proof -
  have e: "opens (-1) (kseq fs_end_op m)" if "keeps fs_outstanding m" for m :: "(kst, u64) kmon"
    using that by (intro opens_end) (simp add: keeps_opens)
  show ?thesis unfolding sys_chdir_def keeps_opens
    by (intro opens_kbind opens_begin) (auto intro!: keeps opens opens_kseq e)
qed

lemma sys_exec_keeps [keeps]: "keeps fs_outstanding sys_exec"
  unfolding sys_exec_def by (auto intro!: keeps)

lemma sys_pipe_keeps [keeps]: "keeps fs_outstanding sys_pipe"
  unfolding sys_pipe_def pipe_fail_def by (auto intro!: keeps out.pipealloc_keeps)

lemma sysproc_keeps [keeps]:
  "keeps fs_outstanding sys_exit" "keeps fs_outstanding sys_getpid" "keeps fs_outstanding sys_fork"
  "keeps fs_outstanding sys_wait" "keeps fs_outstanding sys_sbrk" "keeps fs_outstanding sys_sleep"
  "keeps fs_outstanding sys_kill" "keeps fs_outstanding sys_uptime" "keeps fs_outstanding sys_settickets"
  "keeps fs_outstanding sys_getpinfo" "keeps fs_outstanding sys_mmap" "keeps fs_outstanding sys_munmap"
  unfolding sys_exit_def sys_getpid_def sys_fork_def sys_wait_def sys_sbrk_def sys_sleep_def
    sleep_round_def sys_kill_def sys_uptime_def sys_settickets_def sys_getpinfo_def sys_mmap_def sys_munmap_def
  by (auto intro!: keeps)

lemma returns_keeps [keeps]: "keeps f m \<Longrightarrow> keeps f (returns m)"
  unfolding returns_def by (auto intro!: keeps)

text \<open>
  C17: Every system call closes the transactions it opens: whatever path it takes through its error
  handling, the number of outstanding transactions after a system call that returns (or goes to
  sleep, or exits) is the number before. So no path leaves the log unable to commit.
\<close>

theorem syscall_closes_transactions:
  assumes "syscall pad s = Inr (u, s')"
  shows "fs_outstanding s' = fs_outstanding s"
proof -
  have "keeps fs_outstanding call" if "syscalls pad num = Some call" for call num
    using that unfolding syscalls_def by (auto split: if_splits intro!: keeps)
  then have "keeps fs_outstanding (case syscalls pad num of
      Some call \<Rightarrow> kbind call (\<lambda>r. case r of None \<Rightarrow> kret () | Some v \<Rightarrow> tf_store p TF_a0 v)
    | None \<Rightarrow> tf_store p TF_a0 (-1))" for num p
    by (cases "syscalls pad num") (auto intro!: keeps)
  then have "keeps fs_outstanding (syscall pad)"
    unfolding syscall_def by (intro keeps_kbind[OF out.curproc_keeps] keeps_kbind[OF out.tf_load_keeps])
  then show ?thesis using assms by (rule keepsD)
qed

text \<open>
  A process without memory calls \<^verbatim>\<open>mkdir\<close> with a null path: the call opens a transaction, fails to
  fetch the path and closes the transaction again.
\<close>

lemma kst0_regs:
  "load64 (km_mem (kst0 num)) (0x80001000 + tf_off TF_a7) = ucast num"
  "load64 (km_mem (kst0 num)) (0x80001000 + tf_off TF_a0) = 0"
  by (simp_all add: kst0_def tf_layout load64_def load_bytes_def upt_conv_Cons)

lemma kst0_walkaddr:
  assumes "k_proc t = [proc0]" "k_cur t = Some 0"
  shows "walkaddr pt 0 t = Inr (0, t)"
proof -
  have "find_vma (NVMA + 1) 0 (Some (Head 0)) t = Some None"
    using assms(1) by (simp add: eval_nat_numeral Let_def proc0_def vma_zero_def)
  then show ?thesis using assms(2) by (simp add: walkaddr_def curproc_def MAXVA_val kmon_defs)
qed

lemma kst0_mkdir: "\<exists>t. syscall [] (kst0 20) = Inr ((), t)"
proof -
  let ?s = "(kst0 20)\<lparr>fs_outstanding := 1\<rparr>"
  have p: "k_proc (kst0 n) = [proc0]" "k_cur (kst0 n) = Some 0" "fs_outstanding (kst0 n) = 0" for n
    by (simp_all add: kst0_def)
  have mem: "km_mem ?s = km_mem (kst0 20)" by simp
  have tf: "p_trapframe proc0 = 0x80001000" by (simp add: proc0_def)
  have w: "walkaddr pt 0 ?s = Inr (0, ?s)" for pt by (rule kst0_walkaddr) (simp_all add: p)
  have c: "copyinstr pt 0 MAXPATH ?s = Inr ((-1, []), ?s)" for pt
    using w[of pt] by (simp add: copyinstr_def copyinstr_acc.simps PGROUNDDOWN_def)
  have a: "argstr 0 MAXPATH ?s = Inr (None, ?s)"
    using kst0_regs(2)[of 20] c
    by (simp add: argstr_def argaddr_def argraw_def fetchstr_def myself_def curproc_def get_proc_def
        tf_load_def p tf kmon_defs)
  have "sys_mkdir (kst0 20) = Inr (-1, kst0 20)"
    using a by (simp add: sys_mkdir_def fs_begin_op_def make_node_def end_with_def fs_end_op_def p kmon_defs)
  then show ?thesis
    using kst0_regs(1)[of 20]
    by (simp add: syscall_def syscalls_def curproc_def tf_load_def tf_store_def returns_def p tf kmon_defs)
qed

theorem syscall_closes_transactions_witness:
  "\<exists>t. syscall [] (kst0 20) = Inr ((), t) \<and> fs_outstanding t = fs_outstanding (kst0 20)"
  using kst0_mkdir syscall_closes_transactions[of "[]" "kst0 20" "()"] by blast

end
