(* ===== verification/Tickets.thy ===== *)
theory Tickets
  imports Frames
begin

text \<open>
  The accounting of lottery tickets: the global \<^verbatim>\<open>total_tickets\<close> is the sum of the tickets of
  the processes that are runnable or running, in every state the kernel reaches through system
  calls, traps and scheduling rounds. The sum is taken in 32-bit arithmetic, as the code does.
\<close>

subsection \<open>The data of the scheduler\<close>

definition tk :: "kst \<Rightarrow> nat option \<times> u32 \<times> (procstate \<times> u32) list" where
  "tk s = (k_cur s, k_tickets s, map (\<lambda>x. (p_state x, p_tickets x)) (k_proc s))"

locale quiet_frame = table_frame +
  assumes f_outstanding [simp]: "f (s\<lparr>fs_outstanding := n\<rparr>) = f s"
begin

lemma begin_end_quiet [keeps]: "keeps f fs_begin_op" "keeps f fs_end_op"
  unfolding fs_begin_op_def fs_end_op_def by (auto intro!: keeps_kmodify)

lemma close_inode_quiet [keeps]: "keeps f (close_inode ip)"
  unfolding close_inode_def by (auto intro!: keeps)

lemma filewrite_part_quiet [keeps]: "keeps f (filewrite_part x addr i n)"
  unfolding filewrite_part_def by (auto intro!: keeps writei_keeps)

lemma filewrite_loop_quiet [keeps]: "keeps f (filewrite_loop x addr n i)"
proof (rule keepsI)
  fix s v t
  show "filewrite_loop x addr n i s = Inr (v, t) \<Longrightarrow> f t = f s"
  proof (induction x addr n i s rule: filewrite_loop.induct)
    case (1 x addr n i s)
    let ?n1 = "min (n - i) WRITE_MAX"
    show ?case
    proof (cases "i < n")
      case False
      with "1.prems" show ?thesis by (simp add: filewrite_loop.simps)
    next
      case True
      with "1.prems" obtain r s1 where p: "filewrite_part x addr i ?n1 s = Inr (r, s1)"
        by (auto simp: filewrite_loop.simps[of x addr n i] Let_def split: sum.splits)
      from keepsD[OF filewrite_part_quiet p] "1.prems" p True "1.IH"[OF True refl p refl] show ?thesis
        by (auto simp: filewrite_loop.simps[of x addr n i] Let_def split: if_splits)
    qed
  qed
qed

lemma writeback_quiet [keeps]: "keeps f (writeback v st we)"
  unfolding writeback_def writeback_op_def by (auto intro!: keeps writei_keeps)

lemma vma_free_page_quiet [keeps]: "keeps f (vma_free_page pt r addr len pos)"
  unfolding vma_free_page_def by (auto intro!: keeps)

lemma vma_free_mem_quiet [keeps]: "keeps f (vma_free_mem pt r addr len)"
proof -
  have "vma_free_loop pt r addr len pos s = Inr (v, t) \<Longrightarrow> f t = f s" for pos s v t
  proof (induction pt r addr len pos s rule: vma_free_loop.induct)
    case (1 pt r addr len pos s)
    show ?case
    proof (cases "pos < addr + len")
      case False
      with "1.prems" show ?thesis by (simp add: vma_free_loop.simps)
    next
      case True
      with "1.prems" obtain x s1 where p: "vma_free_page pt r addr len pos s = Inr (x, s1)"
        by (auto simp: vma_free_loop.simps[of pt r addr len pos] split: sum.splits)
      from keepsD[OF vma_free_page_quiet p] "1.prems" p True "1.IH"[OF True p refl] show ?thesis
        by (simp add: vma_free_loop.simps[of pt r addr len pos])
    qed
  qed
  then show ?thesis by (auto intro!: keepsI simp: vma_free_mem_def)
qed

lemma sbrk_quiet [keeps]: "keeps f (sbrk n)"
  unfolding sbrk_def by (auto intro!: keeps upd_proc_keeps)

lemma end_with_quiet [keeps]: "keeps f (end_with v)"
  unfolding end_with_def by (auto intro!: keeps)

lemma sys_link_quiet [keeps]: "keeps f sys_link"
  unfolding sys_link_def link_bad_def by (auto intro!: keeps)

lemma sys_unlink_quiet [keeps]: "keeps f sys_unlink"
  unfolding sys_unlink_def unlink_entry_def unlink_bad_def by (auto intro!: keeps writei_keeps)

lemma make_node_quiet [keeps]: "keeps f (make_node type major minor path)"
  unfolding make_node_def by (auto intro!: keeps)

lemma sys_mkdir_quiet [keeps]: "keeps f sys_mkdir"
  unfolding sys_mkdir_def by (auto intro!: keeps)

lemma sys_mknod_quiet [keeps]: "keeps f sys_mknod"
  unfolding sys_mknod_def by (auto intro!: keeps)

lemma sys_chdir_quiet [keeps]: "keeps f sys_chdir"
  unfolding sys_chdir_def by (auto intro!: keeps upd_proc_keeps)

lemma sys_dup_quiet [keeps]: "keeps f sys_dup"
  unfolding sys_dup_def by (auto intro!: keeps)

lemma sys_fstat_quiet [keeps]: "keeps f (sys_fstat pad)"
  unfolding sys_fstat_def by (auto intro!: keeps)

lemma sysproc_quiet [keeps]:
  "keeps f sys_getpid" "keeps f sys_sbrk" "keeps f sys_uptime" "keeps f sys_getpinfo" "keeps f sys_mmap"
  unfolding sys_getpid_def sys_sbrk_def sys_uptime_def sys_getpinfo_def sys_mmap_def
  by (auto intro!: keeps)

end

interpretation tk: quiet_frame tk
proof unfold_locales
  fix g :: "proc \<Rightarrow> proc" and s :: kst and p
  assume "p_state (g (k_proc s ! p)) = p_state (k_proc s ! p)" "p_tickets (g (k_proc s ! p)) = p_tickets (k_proc s ! p)"
  then show "tk (s\<lparr>k_proc := (k_proc s)[p := g (k_proc s ! p)]\<rparr>) = tk s"
    by (cases "p < length (k_proc s)") (simp_all add: tk_def map_update list_update_same_conv list_update_beyond)
qed (simp_all add: tk_def)

subsection \<open>Invariant and triples\<close>

definition weight :: "procstate \<times> u32 \<Rightarrow> u32" where
  "weight = (\<lambda>(st, n). if st = RUNNING \<or> st = RUNNABLE then n else 0)"

definition accounted :: "nat option \<times> u32 \<times> (procstate \<times> u32) list \<Rightarrow> bool" where
  "accounted = (\<lambda>(cur, tot, ps). length ps = NPROC \<and> (\<forall>p. cur = Some p \<longrightarrow> p < NPROC) \<and>
     tot = sum_list (map weight ps))"

abbreviation tk_inv :: "kst \<Rightarrow> bool" where "tk_inv s \<equiv> accounted (tk s)"

definition pres :: "(kst, 'a) kmon \<Rightarrow> bool" where
  "pres m \<longleftrightarrow> (\<forall>s v t. tk_inv s \<longrightarrow> m s = Inr (v, t) \<longrightarrow> tk_inv t)"

named_theorems pres \<open>routines that preserve the accounting\<close>

lemma presI: "(\<And>s v t. tk_inv s \<Longrightarrow> m s = Inr (v, t) \<Longrightarrow> tk_inv t) \<Longrightarrow> pres m"
  by (simp add: pres_def)

lemma presD: "pres m \<Longrightarrow> tk_inv s \<Longrightarrow> m s = Inr (v, t) \<Longrightarrow> tk_inv t"
  by (auto simp: pres_def)

lemma keeps_pres: "keeps tk m \<Longrightarrow> pres m"
  by (auto simp: keeps_def pres_def)

lemma pres_kbind [pres]: "pres m \<Longrightarrow> (\<And>x. pres (g x)) \<Longrightarrow> pres (kbind m g)"
  unfolding pres_def by (metis kbind_Inr)

lemma pres_kseq [pres]: "pres m \<Longrightarrow> pres n \<Longrightarrow> pres (kseq m n)"
  unfolding kseq_def by (rule pres_kbind)

lemma pres_kwhen [pres]: "pres m \<Longrightarrow> pres (kwhen c m)"
  by (auto simp: pres_def split: if_splits)

lemma pres_if [pres]: "pres m \<Longrightarrow> pres n \<Longrightarrow> pres (if c then m else n)"
  by simp

lemma pres_option [pres]:
  "pres m \<Longrightarrow> (\<And>x. pres (g x)) \<Longrightarrow> pres (case o' of None \<Rightarrow> m | Some x \<Rightarrow> g x)"
  by (cases o') auto

lemma pres_prod [pres]: "(\<And>a b. pres (g a b)) \<Longrightarrow> pres (case p of (a, b) \<Rightarrow> g a b)"
  by (cases p) auto

lemma pres_sum [pres]:
  "(\<And>x. pres (g x)) \<Longrightarrow> (\<And>x. pres (h x)) \<Longrightarrow> pres (case r of Inl x \<Rightarrow> g x | Inr x \<Rightarrow> h x)"
  by (cases r) auto

lemma pres_Let [pres]: "(\<And>x. pres (g x)) \<Longrightarrow> pres (Let a g)"
  by simp

lemma pres_kfor [pres]: "(\<And>x. pres (g x)) \<Longrightarrow> pres (kfor xs g)"
  by (induction xs) (simp_all add: pres_kseq keeps_pres keeps_kret)

lemma pres_wait_scan [pres]:
  "(\<And>p. pres (g p)) \<Longrightarrow> (\<And>b. pres (h b)) \<Longrightarrow> pres (case r of Reaped p \<Rightarrow> g p | Scanned b \<Rightarrow> h b)"
  by (cases r) auto

lemma pres_presult [pres]:
  "(\<And>i. pres (g i)) \<Longrightarrow> (\<And>c i. pres (h c i)) \<Longrightarrow> pres (case r of Returns i \<Rightarrow> g i | Blocks c i \<Rightarrow> h c i)"
  by (cases r) auto

lemma pres_cresult [pres]:
  "(\<And>i. pres (g i)) \<Longrightarrow> (\<And>c i. pres (h c i)) \<Longrightarrow> pres (case r of CReturns i \<Rightarrow> g i | CBlocks c i \<Rightarrow> h c i)"
  by (cases r) auto

lemma pres_ftype [pres]:
  "pres a \<Longrightarrow> pres b \<Longrightarrow> pres c \<Longrightarrow> pres d \<Longrightarrow>
   pres (case ty of FD_NONE \<Rightarrow> a | FD_PIPE \<Rightarrow> b | FD_INODE \<Rightarrow> c | FD_DEVICE \<Rightarrow> d)"
  by (cases ty) auto

subsection \<open>One process changes state\<close>

text \<open>
  Setting the scheduling state or the tickets of process \<open>p\<close>, with the matching correction of
  the total.
\<close>

definition put_tk :: "nat \<Rightarrow> procstate \<times> u32 \<Rightarrow> nat option \<times> u32 \<times> (procstate \<times> u32) list
    \<Rightarrow> nat option \<times> u32 \<times> (procstate \<times> u32) list" where
  "put_tk p y = (\<lambda>(cur, tot, ps). (cur, tot - weight (ps ! p) + weight y, ps[p := y]))"

lemma accounted_put: "accounted a \<Longrightarrow> p < NPROC \<Longrightarrow> accounted (put_tk p y a)"
  by (cases a) (simp add: accounted_def put_tk_def sum_list_map_update)

lemma tk_nth:
  "p < length (k_proc s) \<Longrightarrow> snd (snd (tk s)) ! p = (p_state (k_proc s ! p), p_tickets (k_proc s ! p))"
  by (simp add: tk_def)

lemma tk_inv_length: "tk_inv s \<Longrightarrow> length (k_proc s) = NPROC"
  by (auto simp: accounted_def tk_def)

lemma tk_inv_cur: "tk_inv s \<Longrightarrow> k_cur s = Some p \<Longrightarrow> p < NPROC"
  by (auto simp: accounted_def tk_def)

lemma tk_put:
  assumes "p < length (k_proc s)"
  shows "tk (s\<lparr>k_proc := (k_proc s)[p := y], k_tickets := k_tickets s - weight (p_state (k_proc s ! p), p_tickets (k_proc s ! p))
      + weight (p_state y, p_tickets y)\<rparr>) = put_tk p (p_state y, p_tickets y) (tk s)"
  using assms by (simp add: tk_def put_tk_def map_update)

text \<open>The same when the update and the correction are made in one place of the code.\<close>

lemma inv_put:
  assumes "tk_inv s" "p < NPROC"
    and "k_cur t = k_cur s" "k_proc t = (k_proc s)[p := y]"
    and "k_tickets t = k_tickets s - weight (p_state (k_proc s ! p), p_tickets (k_proc s ! p))
           + weight (p_state y, p_tickets y)"
  shows "tk_inv t"
proof -
  have "p < length (k_proc s)" using assms(1,2) tk_inv_length by simp
  then have "tk t = put_tk p (p_state y, p_tickets y) (tk s)"
    using assms(3-5) by (simp add: tk_def put_tk_def map_update)
  then show ?thesis using accounted_put[OF assms(1,2)] by simp
qed

lemma weight_simps [simp]:
  "weight (RUNNING, n) = n" "weight (RUNNABLE, n) = n" "weight (SLEEPING, n) = 0"
  "weight (UNUSED, n) = 0" "weight (USED, n) = 0" "weight (ZOMBIE, n) = 0"
  by (simp_all add: weight_def)

lemma weight_counted: "weight (p_state x, p_tickets x) = (if p_state x = RUNNING \<or> p_state x = RUNNABLE then p_tickets x else 0)"
  by (simp add: weight_def)

subsection \<open>Scheduling primitives\<close>

lemma wakeup_pres [pres]: "pres (wakeup ch)"
proof -
  have "tk_inv t" if "i < NPROC" "tk_inv s" and
    run: "kbind (kget k_cur) (\<lambda>me. kwhen (me \<noteq> Some i) (kbind (get_proc i) (\<lambda>x.
       kwhen (p_state x = SLEEPING \<and> p_chan x = ch)
         (kseq (upd_proc i (\<lambda>x. x\<lparr>p_state := RUNNABLE\<rparr>)) (add_tickets (p_tickets x)))))) s = Inr (u, t)"
    for i s u t
  proof (cases "k_cur s \<noteq> Some i \<and> p_state (k_proc s ! i) = SLEEPING \<and> p_chan (k_proc s ! i) = ch")
    case True
    with run have t: "t = s\<lparr>k_proc := (k_proc s)[i := (k_proc s ! i)\<lparr>p_state := RUNNABLE\<rparr>],
        k_tickets := k_tickets s + p_tickets (k_proc s ! i)\<rparr>"
      by (auto simp: get_proc_def upd_proc_def add_tickets_def)
    from True show ?thesis unfolding t
      by (intro inv_put[OF that(2,1), where y = "(k_proc s ! i)\<lparr>p_state := RUNNABLE\<rparr>"]) simp_all
  next
    case False
    with run have "t = s" by (auto simp: get_proc_def split: if_splits)
    with that show ?thesis by simp
  qed
  then show ?thesis unfolding wakeup_def
    by (intro presI) (rule kfor_invariant[where I = tk_inv], auto)
qed

lemma sleep_pres [pres]: "pres (sleep ch)"
proof (rule presI)
  fix s v t
  assume inv: "tk_inv s" and run: "sleep ch s = Inr (v, t)"
  then obtain p where p: "k_cur s = Some p" by (auto simp: sleep_def curproc_def split: option.splits)
  let ?x = "k_proc s ! p"
  have lt: "p < NPROC" and len: "length (k_proc s) = NPROC"
    using inv p tk_inv_cur tk_inv_length by auto
  let ?y = "?x\<lparr>p_chan := ch, p_state := SLEEPING\<rparr>"
  obtain s1 where run1: "sched s1 = Inr (v, t)" and s1: "k_cur s1 = k_cur s" "k_proc s1 = (k_proc s)[p := ?y]"
      "k_tickets s1 = k_tickets s - weight (p_state ?x, p_tickets ?x) + weight (p_state ?y, p_tickets ?y)"
  proof (cases "p_state ?x = RUNNING \<or> p_state ?x = RUNNABLE")
    case True
    with run p lt len have "sched (s\<lparr>k_tickets := k_tickets s - p_tickets ?x, k_proc := (k_proc s)[p := ?y]\<rparr>) = Inr (v, t)"
      by (auto simp: sleep_def curproc_def upd_proc_def get_proc_def add_tickets_def)
    then show ?thesis by (rule that) (use True in \<open>auto simp: weight_counted\<close>)
  next
    case False
    with run p lt len have "sched (s\<lparr>k_proc := (k_proc s)[p := ?y]\<rparr>) = Inr (v, t)"
      by (auto simp: sleep_def curproc_def upd_proc_def get_proc_def add_tickets_def)
    then show ?thesis by (rule that) (use False in \<open>auto simp: weight_counted\<close>)
  qed
  from inv_put[OF inv lt s1] keepsD[OF tk.sched_keeps run1] show "tk_inv t" by simp
qed

lemma yield_pres [pres]: "pres yield"
proof (rule presI)
  fix s v t
  assume inv: "tk_inv s" and run: "yield s = Inr (v, t)"
  then obtain p where p: "k_cur s = Some p" by (auto simp: yield_def curproc_def split: option.splits)
  let ?x = "k_proc s ! p"
  have lt: "p < NPROC" and len: "length (k_proc s) = NPROC"
    using inv p tk_inv_cur tk_inv_length by auto
  let ?y = "?x\<lparr>p_state := RUNNABLE\<rparr>"
  obtain s1 where run1: "sched s1 = Inr (v, t)" and s1: "k_cur s1 = k_cur s" "k_proc s1 = (k_proc s)[p := ?y]"
      "k_tickets s1 = k_tickets s - weight (p_state ?x, p_tickets ?x) + weight (p_state ?y, p_tickets ?y)"
  proof (cases "p_state ?x = RUNNING \<or> p_state ?x = RUNNABLE")
    case True
    with run p lt len have "sched (s\<lparr>k_proc := (k_proc s)[p := ?y]\<rparr>) = Inr (v, t)"
      by (auto simp: yield_def curproc_def upd_proc_def get_proc_def add_tickets_def)
    then show ?thesis by (rule that) (use True in \<open>auto simp: weight_counted\<close>)
  next
    case False
    with run p lt len have "sched (s\<lparr>k_tickets := k_tickets s + p_tickets ?x, k_proc := (k_proc s)[p := ?y]\<rparr>) = Inr (v, t)"
      by (auto simp: yield_def curproc_def upd_proc_def get_proc_def add_tickets_def)
    then show ?thesis by (rule that) (use False in \<open>auto simp: weight_counted\<close>)
  qed
  from inv_put[OF inv lt s1] keepsD[OF tk.sched_keeps run1] show "tk_inv t" by simp
qed

lemma kill_pres [pres]: "pres (kill pid)"
proof -
  have "tk_inv s \<Longrightarrow> set is \<subseteq> {..<NPROC} \<Longrightarrow> kill_loop pid is s = Inr (v, t) \<Longrightarrow> tk_inv t" for "is" s v t
  proof (induction "is" arbitrary: s)
    case Nil
    then show ?case by simp
  next
    case (Cons i "is")
    let ?x = "k_proc s ! i"
    have lt: "i < NPROC" using Cons.prems(2) by simp
    show ?case
    proof (cases "p_pid ?x = pid")
      case False
      with Cons show ?thesis by (simp add: get_proc_def)
    next
      case True
      define y where "y = ?x\<lparr>p_killed := True, p_state := (if p_state ?x = SLEEPING then RUNNABLE else p_state ?x)\<rparr>"
      from Cons.prems True lt tk_inv_length[OF Cons.prems(1)]
      have t: "k_cur t = k_cur s" "k_proc t = (k_proc s)[i := y]"
        "k_tickets t = k_tickets s + (if p_state ?x = SLEEPING then p_tickets ?x else 0)"
        by (auto simp: get_proc_def upd_proc_def add_tickets_def y_def split: if_splits)
      show ?thesis
        by (rule inv_put[OF Cons.prems(1) lt t(1,2)]) (simp add: t(3) y_def)
    qed
  qed
  note loop = this
  show ?thesis
    by (rule presI) (rule loop[of _ "[0..<NPROC]"], auto simp: kill_def)
qed

text \<open>\<^verbatim>\<open>settickets\<close> corrects the total by the difference, which is right for a caller that runs.\<close>

definition cur_running :: "kst \<Rightarrow> bool" where
  "cur_running s \<longleftrightarrow> (\<exists>p. fst (tk s) = Some p \<and> p < length (snd (snd (tk s))) \<and> fst (snd (snd (tk s)) ! p) = RUNNING)"

lemma settickets_inv:
  assumes "tk_inv s" "cur_running s" "settickets n s = Inr (v, t)"
  shows "tk_inv t"
proof (cases "sint n < MINTICKETS")
  case True
  with assms show ?thesis by (simp add: settickets_def)
next
  case False
  from assms(2) obtain p where p: "k_cur s = Some p" and lt: "p < length (k_proc s)"
    and st: "p_state (k_proc s ! p) = RUNNING"
    by (auto simp: cur_running_def tk_def)
  let ?x = "k_proc s ! p"
  from assms(3) False p have t: "t = s\<lparr>k_proc := (k_proc s)[p := ?x\<lparr>p_tickets := n\<rparr>],
      k_tickets := k_tickets s + (n - p_tickets ?x)\<rparr>"
    by (auto simp: settickets_def curproc_def upd_proc_def get_proc_def add_tickets_def)
  show ?thesis unfolding t using lt tk_inv_length[OF assms(1)] st
    by (intro inv_put[OF assms(1), where p = p and y = "?x\<lparr>p_tickets := n\<rparr>"]) simp_all
qed

subsection \<open>Triples on the scheduling data\<close>

definition tri :: "(nat option \<times> u32 \<times> (procstate \<times> u32) list \<Rightarrow> bool) \<Rightarrow> (kst, 'a) kmon
    \<Rightarrow> ('a \<Rightarrow> nat option \<times> u32 \<times> (procstate \<times> u32) list \<Rightarrow> bool) \<Rightarrow> bool" where
  "tri A m B \<longleftrightarrow> (\<forall>s v t. A (tk s) \<longrightarrow> m s = Inr (v, t) \<longrightarrow> B v (tk t))"

lemma triI: "(\<And>s v t. A (tk s) \<Longrightarrow> m s = Inr (v, t) \<Longrightarrow> B v (tk t)) \<Longrightarrow> tri A m B"
  by (simp add: tri_def)

lemma triD: "tri A m B \<Longrightarrow> A (tk s) \<Longrightarrow> m s = Inr (v, t) \<Longrightarrow> B v (tk t)"
  by (simp add: tri_def)

lemma tri_pres: "tri accounted m (\<lambda>_. accounted) \<longleftrightarrow> pres m"
  by (simp add: tri_def pres_def)

lemma tri_kbind: "tri A m B \<Longrightarrow> (\<And>x. tri (B x) (g x) C) \<Longrightarrow> tri A (kbind m g) C"
  unfolding tri_def by (metis kbind_Inr)

lemma tri_kseq: "tri A m (\<lambda>_. B) \<Longrightarrow> tri B n C \<Longrightarrow> tri A (kseq m n) C"
  unfolding kseq_def by (rule tri_kbind)

lemma tri_keeps_kbind: "keeps tk m \<Longrightarrow> (\<And>x. tri A (g x) C) \<Longrightarrow> tri A (kbind m g) C"
  unfolding tri_def keeps_def by (metis kbind_Inr)

lemma tri_keeps_kseq: "keeps tk m \<Longrightarrow> tri A n C \<Longrightarrow> tri A (kseq m n) C"
  unfolding kseq_def by (rule tri_keeps_kbind)

lemma tri_weaken: "tri B m C \<Longrightarrow> (\<And>d. A d \<Longrightarrow> B d) \<Longrightarrow> tri A m C"
  unfolding tri_def by blast

lemma tri_post: "tri A m B \<Longrightarrow> (\<And>v d. B v d \<Longrightarrow> C v d) \<Longrightarrow> tri A m C"
  unfolding tri_def by blast

text \<open>The accounting holds and process \<open>p\<close> has the given state and tickets.\<close>

definition known :: "nat \<Rightarrow> procstate \<times> u32 \<Rightarrow> nat option \<times> u32 \<times> (procstate \<times> u32) list \<Rightarrow> bool" where
  "known p y d \<longleftrightarrow> accounted d \<and> p < NPROC \<and> snd (snd d) ! p = y"

lemma known_accounted: "known p y d \<Longrightarrow> accounted d"
  by (simp add: known_def)

lemma known_put: "accounted d \<Longrightarrow> p < NPROC \<Longrightarrow> known p y (put_tk p y d)"
  using accounted_put[of d p y] by (cases d) (simp add: known_def put_tk_def accounted_def)

lemma tri_get:
  assumes "p < NPROC" "\<And>x. tri (known p (p_state x, p_tickets x)) (g x) C"
  shows "tri accounted (kbind (get_proc p) g) C"
proof (rule triI)
  fix s v t
  assume inv: "tk_inv s" and run: "kbind (get_proc p) g s = Inr (v, t)"
  have "known p (p_state (k_proc s ! p), p_tickets (k_proc s ! p)) (tk s)"
    using inv assms(1) tk_inv_length[OF inv] tk_nth[of p s] by (simp add: known_def)
  from triD[OF assms(2) this, of v t] run show "C v (tk t)" by (simp add: get_proc_def)
qed

text \<open>Setting the state of a process that counts neither before nor after.\<close>

lemma tri_upd_uncounted:
  assumes "weight y = 0" "weight z = 0" "\<And>x. (p_state x, p_tickets x) = y \<Longrightarrow> (p_state (g x), p_tickets (g x)) = z"
  shows "tri (known p y) (upd_proc p g) (\<lambda>_. known p z)"
proof (rule triI)
  fix s v t
  assume k: "known p y (tk s)" and run: "upd_proc p g s = Inr (v, t)"
  have lt: "p < length (k_proc s)" using k tk_inv_length[of s] by (simp add: known_def)
  have y: "(p_state (k_proc s ! p), p_tickets (k_proc s ! p)) = y"
    using k tk_nth[OF lt] by (simp add: known_def)
  from run lt assms(3)[OF y] y assms(1,2) have "tk t = put_tk p z (tk s)"
    by (auto simp: upd_proc_def tk_def put_tk_def map_update)
  then show "known p z (tk t)" using k by (simp add: known_put known_def[of p y])
qed

text \<open>A counted process leaves: its tickets are subtracted and its state changed.\<close>

lemma tri_leave:
  assumes "\<And>x. weight (p_state (g x), p_tickets (g x)) = 0"
  shows "tri (known p (p_state x, p_tickets x))
    (kseq (kwhen (p_state x = RUNNING \<or> p_state x = RUNNABLE) (add_tickets (- p_tickets x))) (upd_proc p g))
    (\<lambda>_. accounted)"
proof (rule triI)
  fix s :: kst and v t
  let ?y = "k_proc s ! p"
  assume k: "known p (p_state x, p_tickets x) (tk s)"
    and run: "kseq (kwhen (p_state x = RUNNING \<or> p_state x = RUNNABLE) (add_tickets (- p_tickets x))) (upd_proc p g) s = Inr (v, t)"
  have lt: "p < length (k_proc s)" using k tk_inv_length[of s] by (simp add: known_def)
  have y: "p_state ?y = p_state x" "p_tickets ?y = p_tickets x"
    using k tk_nth[OF lt] by (simp_all add: known_def)
  let ?w = "if p_state x = RUNNING \<or> p_state x = RUNNABLE then p_tickets x else 0"
  have "t = s\<lparr>k_proc := (k_proc s)[p := g ?y], k_tickets := k_tickets s - ?w\<rparr>"
    using run by (cases "p_state x = RUNNING \<or> p_state x = RUNNABLE") (auto simp: upd_proc_def add_tickets_def)
  moreover have "weight (p_state ?y, p_tickets ?y) = ?w" by (simp only: weight_counted y)
  ultimately have t: "k_cur t = k_cur s" "k_proc t = (k_proc s)[p := g ?y]"
    "k_tickets t = k_tickets s - weight (p_state ?y, p_tickets ?y) + weight (p_state (g ?y), p_tickets (g ?y))"
    using assms by simp_all
  show "tk_inv t" using k by (intro inv_put[OF _ _ t]) (simp_all add: known_def)
qed

text \<open>
  An uncounted process becomes runnable: first its tickets are added, then its state is set.
\<close>

definition due :: "nat \<Rightarrow> procstate \<times> u32 \<Rightarrow> nat option \<times> u32 \<times> (procstate \<times> u32) list \<Rightarrow> bool" where
  "due p y d \<longleftrightarrow> (case d of (cur, tot, ps) \<Rightarrow> known p y (cur, tot - snd y, ps))"

lemma tri_add: "tri (known p y) (add_tickets (snd y)) (\<lambda>_. due p y)"
  by (rule triI) (auto simp: due_def add_tickets_def tk_def)

lemma tri_paid:
  assumes "weight (st, n) = 0" "\<And>x. p_state (g x) = RUNNABLE" "\<And>x. p_tickets (g x) = p_tickets x"
  shows "tri (due p (st, n)) (upd_proc p g) (\<lambda>_. accounted)"
proof (rule triI)
  fix s :: kst and v t
  let ?y = "k_proc s ! p" and ?s = "s\<lparr>k_tickets := k_tickets s - n\<rparr>"
  assume "due p (st, n) (tk s)" and run: "upd_proc p g s = Inr (v, t)"
  then have k: "known p (st, n) (tk ?s)" by (simp add: due_def tk_def)
  have lt: "p < length (k_proc ?s)" using k tk_inv_length[of ?s] by (simp add: known_def)
  have y: "p_state ?y = st" "p_tickets ?y = n" using k tk_nth[OF lt] by (simp_all add: known_def)
  have t: "k_cur t = k_cur ?s" "k_proc t = (k_proc ?s)[p := g (k_proc ?s ! p)]"
    "k_tickets t = k_tickets ?s - weight (p_state (k_proc ?s ! p), p_tickets (k_proc ?s ! p))
       + weight (p_state (g (k_proc ?s ! p)), p_tickets (g (k_proc ?s ! p)))"
    using run by (simp_all add: upd_proc_def assms y)
  show "tk_inv t" using k by (intro inv_put[OF _ _ t]) (simp_all add: known_def)
qed

lemmas tk_keeps = keeps keeps_kmodify tk.upd_proc_keeps tk.readi_keeps

subsection \<open>Creation and end of processes\<close>

lemma freeproc_pres:
  assumes "p < NPROC"
  shows "pres (freeproc p)"
  unfolding freeproc_def tri_pres[symmetric]
  by (rule tri_get[OF assms] tri_leave tri_keeps_kseq tk_keeps | simp)+

lemma tri_if: "tri A m C \<Longrightarrow> tri A n C \<Longrightarrow> tri A (if b then m else n) C"
  by simp

abbreviation fresh :: "nat option \<Rightarrow> nat option \<times> u32 \<times> (procstate \<times> u32) list \<Rightarrow> bool" where
  "fresh r d \<equiv> accounted d \<and> (\<forall>p. r = Some p \<longrightarrow> (\<exists>n. known p (USED, n) d))"

lemma allocproc_found_tri:
  assumes "p < NPROC"
  shows "tri (known p (UNUSED, n)) (allocproc_found p) fresh"
proof -
  have ok: "tri (known p (USED, n)) (kret (Some p)) fresh" and no: "tri accounted (kret None) fresh"
    by (auto simp: tri_def known_def)
  have fail: "tri (known p (USED, n)) (kseq (freeproc p) (kret None)) fresh"
    using freeproc_pres[OF assms] no unfolding tri_pres[symmetric]
    by (intro tri_weaken[OF tri_kseq known_accounted])
  have upd: "tri (known p (UNUSED, n)) (upd_proc p (\<lambda>x. x\<lparr>p_pid := pid, p_state := USED\<rparr>)) (\<lambda>_. known p (USED, n))" for pid
    by (rule tri_upd_uncounted) simp_all
  show ?thesis unfolding allocproc_found_def
    by (rule tri_keeps_kbind[OF tk.allocpid_keeps], rule tri_kseq[OF upd])
       (rule ok fail tri_if tri_keeps_kbind tri_keeps_kseq tk_keeps | simp)+
qed

lemma allocproc_tri: "tri accounted allocproc fresh"
proof (rule triI)
  fix s r t
  assume inv: "tk_inv s" and run: "allocproc s = Inr (r, t)"
  show "fresh r (tk t)"
  proof (cases "find_slot (\<lambda>x. p_state x = UNUSED) (k_proc s)")
    case None
    with run inv show ?thesis by (auto simp: allocproc_def)
  next
    case (Some p)
    have lt: "p < NPROC" and st: "p_state (k_proc s ! p) = UNUSED"
      using find_slot_SomeD[OF Some] tk_inv_length[OF inv] by auto
    have "known p (UNUSED, p_tickets (k_proc s ! p)) (tk s)"
      using inv lt st tk_inv_length[OF inv] tk_nth[of p s] by (simp add: known_def)
    moreover have "allocproc_found p s = Inr (r, t)" using run Some by (simp add: allocproc_def kbind_def kget_def)
    ultimately show ?thesis by (rule triD[OF allocproc_found_tri[OF lt]])
  qed
qed

lemma tri_fresh:
  assumes "\<And>n. p < NPROC \<Longrightarrow> tri (known p (USED, n)) m C"
  shows "tri (fresh (Some p)) m C"
proof (rule triI)
  fix s v t
  assume "fresh (Some p) (tk s)" and run: "m s = Inr (v, t)"
  then obtain n where k: "known p (USED, n) (tk s)" by auto
  then have "p < NPROC" by (simp add: known_def)
  from triD[OF assms[OF this] k run] show "C v (tk t)" .
qed

lemma tri_case_fresh:
  assumes "tri accounted m0 (\<lambda>_. accounted)"
    and "\<And>np n. np < NPROC \<Longrightarrow> tri (known np (USED, n)) (g np) (\<lambda>_. accounted)"
  shows "tri (fresh r) (case r of None \<Rightarrow> m0 | Some np \<Rightarrow> g np) (\<lambda>_. accounted)"
proof (cases r)
  case None
  with assms(1) show ?thesis by (simp add: tri_def)
next
  case (Some np)
  then show ?thesis unfolding Some option.case by (intro tri_fresh assms(2))
qed

lemma fileclose_pres [pres]: "pres (fileclose x)"
  unfolding fileclose_def kpipeclose_def
  by (rule pres | rule keeps_pres, rule tk_keeps | rule tk_keeps | simp)+

lemma vma_free_pres [pres]: "pres (vma_free pt r)"
  unfolding vma_free_def by (rule pres | rule keeps_pres, rule tk_keeps | rule tk_keeps | simp)+

lemma vma_free_all_pres [pres]: "pres (vma_free_all fuel pt r)"
proof (induction fuel pt r rule: vma_free_all.induct)
  case (3 fuel pt v)
  then show ?case
    unfolding vma_free_all.simps by (intro pres_kbind pres_kseq vma_free_pres keeps_pres[OF tk.get_vma_keeps])
qed (auto intro!: keeps_pres keeps)

lemma fork_vmas_pres [pres]: "pres (fork_vmas p np rs it2)"
proof (induction rs arbitrary: it2)
  case Nil
  then show ?case by (auto intro!: keeps_pres keeps)
next
  case (Cons r rs)
  show ?case unfolding fork_vmas.simps
    by (rule Cons.IH | rule pres | rule keeps_pres, rule tk_keeps | rule tk_keeps | simp)+
qed

lemma fork_child_tri:
  assumes "np < NPROC"
  shows "tri (known np (USED, n)) (fork_child p np) (\<lambda>_. accounted)"
proof -
  have copied: "tri (known np (USED, n)) (upd_proc np (\<lambda>y. y\<lparr>p_sz := sz, p_tickets := k, p_ticks := 0\<rparr>))
      (\<lambda>_. known np (USED, k))" for sz k
    by (rule tri_upd_uncounted) simp_all
  have added: "tri (known np (USED, k)) (kseq (add_tickets k) m) C" if "tri (due np (USED, k)) m C" for k C and m :: "(kst, int) kmon"
    using tri_kseq[OF tri_add[of np "(USED, k)"] that] by simp
  have runnable: "tri (due np (USED, k)) (upd_proc np (\<lambda>y. y\<lparr>p_state := RUNNABLE\<rparr>)) (\<lambda>_. accounted)" for k
    by (rule tri_paid) simp_all
  have rest: "pres (kseq (vma_copy (Head np) (Head p)) (kbind (vma_list_from l) (\<lambda>rs.
      kbind (fork_vmas p np rs (Head np)) (\<lambda>ok. if ok then kret pid else kseq (freeproc np) (kret (-1))))))" for l pid
    by (rule freeproc_pres[OF assms] pres | rule keeps_pres, rule tk_keeps | rule tk_keeps | simp)+
  show ?thesis unfolding fork_child_def
    by (rule tri_keeps_kbind[OF tk.get_proc_keeps], rule tri_kseq[OF copied])
       (rule rest[folded tri_pres] tri_kseq[OF runnable] added tri_keeps_kbind tri_keeps_kseq tk_keeps | simp)+
qed

lemma fork_pres [pres]: "pres fork"
  unfolding fork_def tri_pres[symmetric]
  by (rule tri_keeps_kbind[OF tk.curproc_keeps], rule tri_kbind[OF allocproc_tri], rule tri_case_fresh)
     (simp add: tri_def, erule fork_child_tri)

lemma tri_curproc:
  assumes "\<And>p. p < NPROC \<Longrightarrow> tri accounted (g p) C"
  shows "tri accounted (kbind curproc g) C"
proof (rule triI)
  fix s v t
  assume inv: "tk_inv s" and run: "kbind curproc g s = Inr (v, t)"
  then obtain p where p: "k_cur s = Some p" "g p s = Inr (v, t)"
    by (auto simp: curproc_def split: option.splits)
  from triD[OF assms[OF tk_inv_cur[OF inv p(1)]] inv p(2)] show "C v (tk t)" .
qed

lemma exit_zombie_pres: "p < NPROC \<Longrightarrow> pres (exit_zombie p)"
  unfolding exit_zombie_def tri_pres[symmetric] by (rule tri_get) (simp, rule tri_leave, simp)

lemma reparent_pres [pres]: "pres (reparent p)"
  unfolding reparent_def by (rule pres | rule keeps_pres, rule tk_keeps | rule tk_keeps | simp)+

lemma kexit_pres [pres]: "pres (kexit status)"
proof -
  have fd: "pres (exit_fd p fd)" for p fd
    unfolding exit_fd_def by (rule pres | rule keeps_pres, rule tk_keeps | rule tk_keeps | simp)+
  show ?thesis unfolding kexit_def tri_pres[symmetric]
    by (rule tri_curproc)
       (simp only: tri_pres, (rule exit_zombie_pres fd pres | assumption | rule keeps_pres, rule tk_keeps | rule tk_keeps | simp)+)
qed

lemma userinit_pres [pres]: "pres userinit"
proof -
  let ?T = "of_int MINTICKETS :: u32"
  have named: "tri (known p (USED, n)) (upd_proc p (\<lambda>x. x\<lparr>p_name := f x, p_cwd := c, p_tickets := ?T\<rparr>))
      (\<lambda>_. known p (USED, ?T))" for p n f c
    by (rule tri_upd_uncounted) simp_all
  have added: "tri (known p (USED, ?T)) (kseq (add_tickets ?T) m) C" if "tri (due p (USED, ?T)) m C"
    for p C and m :: "(kst, unit) kmon"
    using tri_kseq[OF tri_add[of p "(USED, ?T)"] that] by simp
  have runnable: "tri (due p (USED, ?T)) (upd_proc p (\<lambda>y. y\<lparr>p_state := RUNNABLE, p_vma_start := f y\<rparr>)) (\<lambda>_. accounted)"
    for p f
    by (rule tri_paid) simp_all
  have last_step: "tri accounted (case v of None \<Rightarrow> fault e | Some v \<Rightarrow> vma_init (Area v) a b c d e' f g) (\<lambda>_. accounted)"
    for v e a b c d e' f g
    unfolding tri_pres by (rule pres | rule keeps_pres, rule tk_keeps)+
  have no: "tri accounted (fault e) (\<lambda>_. accounted)" for e by (simp add: tri_def)
  show ?thesis unfolding userinit_def tri_pres[symmetric]
    by (rule tri_kbind[OF allocproc_tri], rule tri_keeps_kseq, rule keeps_kmodify, simp, rule tri_case_fresh[OF no])
       (rule last_step tri_kseq[OF named] tri_kseq[OF runnable] added tri_keeps_kbind tri_keeps_kseq tk_keeps | simp)+
qed

lemma wait_pres [pres]: "pres (wait addr)"
proof -
  have "set is \<subseteq> {..<NPROC} \<Longrightarrow> pres (wait_loop p addr is hk)" for p "is" hk
  proof (induction "is" arbitrary: hk)
    case Nil
    then show ?case by (auto intro!: keeps_pres keeps)
  next
    case (Cons i "is")
    then have IH: "pres (wait_loop p addr is hk)" for hk by simp
    have fp: "pres (freeproc i)" using Cons.prems by (intro freeproc_pres) simp
    show ?case unfolding wait_loop.simps
      by (rule IH fp pres | rule keeps_pres, rule tk_keeps | rule tk_keeps | simp)+
  qed
  note scan = this
  have loop: "pres (wait_loop p addr [0..<NPROC] False)" for p by (rule scan) auto
  show ?thesis unfolding wait_def
    by (rule loop pres | rule keeps_pres, rule tk_keeps | rule tk_keeps | simp)+
qed

subsection \<open>Files\<close>

text \<open>A routine that copies bytes, resumes with the state the copies left and may then wake or sleep.\<close>

lemma resume_pres:
  assumes "carried tk (Inr s) st" "kseq (resume_with g st) m s = Inr (v, t)" "pres m"
    "\<And>s. tk (g s) = tk s" "tk_inv s"
  shows "tk_inv t"
proof -
  from assms(1,2) obtain s1 where "tk s1 = tk s" and run: "m (g s1) = Inr (v, t)"
    by (auto simp: resume_with_def carried_def split: sum.splits)
  with assms(4,5) have "tk_inv (g s1)" by simp
  then show ?thesis using run by (rule presD[OF assms(3)])
qed

lemma pipe_result_pres:
  assumes "carried tk (Inr s) st" "pipe_result pi (r, wk, x, st) s = Inr (v, t)" "tk_inv s"
  shows "tk_inv t"
proof (rule resume_pres[OF assms(1)])
  show "kseq (resume_with (\<lambda>s. s\<lparr>k_pipes := (k_pipes s)(pi := x)\<rparr>) st) (kseq (wake_all pi wk)
    (case r of Returns i \<Rightarrow> kret (Some i) | Blocks ch _ \<Rightarrow> kseq (sleep (pipe_chan pi ch)) (kret None))) s = Inr (v, t)"
    using assms(2) by (simp add: pipe_result_def)
  show "pres (kseq (wake_all pi wk) (case r of Returns i \<Rightarrow> kret (Some i)
    | Blocks ch _ \<Rightarrow> kseq (sleep (pipe_chan pi ch)) (kret None)))"
    unfolding wake_all_def by (rule pres | rule keeps_pres, rule tk_keeps)+
qed (use assms(3) in \<open>simp_all add: tk_def\<close>)

lemma kpiperead_pres [pres]: "pres (kpiperead pi addr n)"
proof (rule presI)
  fix s v t
  assume inv: "tk_inv s" and run: "kpiperead pi addr n s = Inr (v, t)"
  then obtain k where "pipe_result pi (piperead byte_out k (k_pipes s pi) addr n (Inr s)) s = Inr (v, t)"
    by (auto simp: kpiperead_def myself_def curproc_def get_proc_def split: option.splits)
  moreover obtain r wk x st where p: "piperead byte_out k (k_pipes s pi) addr n (Inr s) = (r, wk, x, st)"
    by (metis prod_cases4)
  ultimately show "tk_inv t"
    using pipe_result_pres[OF piperead_carried[OF tk.byte_out_carried p] _ inv] by simp
qed

lemma kpipewrite_pres [pres]: "pres (kpipewrite pi addr n)"
proof (rule presI)
  fix s v t
  assume inv: "tk_inv s" and run: "kpipewrite pi addr n s = Inr (v, t)"
  then obtain k where "pipe_result pi (pipewrite byte_in k (k_pipes s pi) addr n (Inr s)) s = Inr (v, t)"
    by (auto simp: kpipewrite_def myself_def curproc_def get_proc_def split: option.splits)
  moreover obtain r wk x st where p: "pipewrite byte_in k (k_pipes s pi) addr n (Inr s) = (r, wk, x, st)"
    by (metis prod_cases4)
  ultimately show "tk_inv t"
    using pipe_result_pres[OF pipewrite_carried[OF tk.byte_in_carried p[unfolded pipewrite_def]] _ inv] by simp
qed

lemma kconsoleread_pres [pres]: "pres (kconsoleread dst n)"
proof (rule presI)
  fix s v t
  assume inv: "tk_inv s" and run: "kconsoleread dst n s = Inr (v, t)"
  then obtain k r c st where p: "consoleread byte_out k dst n (k_cons s) (Inr s) = (r, c, st)"
    and m: "kseq (resume_with (\<lambda>s. s\<lparr>k_cons := c\<rparr>) st)
      (case r of CReturns i \<Rightarrow> kret (Some i) | CBlocks _ _ \<Rightarrow> kseq (sleep Ch_cons) (kret None)) s = Inr (v, t)"
    by (auto simp: kconsoleread_def myself_def curproc_def get_proc_def split: option.splits prod.splits)
  have "pres (case r of CReturns i \<Rightarrow> kret (Some i) | CBlocks _ _ \<Rightarrow> kseq (sleep Ch_cons) (kret None))"
    by (rule pres | rule keeps_pres, rule tk_keeps)+
  then show "tk_inv t"
    using resume_pres[OF consoleread_carried[OF tk.byte_out_carried p[unfolded consoleread_def]] m] inv by (simp add: tk_def)
qed

lemma kconsolewrite_pres [pres]: "pres (kconsolewrite src n)"
proof (rule presI)
  fix s v t
  assume inv: "tk_inv s" and run: "kconsolewrite src n s = Inr (v, t)"
  then obtain r w u st where p: "consolewrite byte_in (k_panicked s) src n (k_uart s) (Inr s) = (r, w, u, st)"
    and m: "kseq (resume_with (\<lambda>s. s\<lparr>k_uart := u\<rparr>) st) (kseq (kwhen w (wakeup Ch_uart))
      (case r of CReturns i \<Rightarrow> kret (Some i) | CBlocks _ _ \<Rightarrow> kseq (sleep Ch_uart) (kret None))) s = Inr (v, t)"
    by (auto simp: kconsolewrite_def split: prod.splits)
  have "pres (kseq (kwhen w (wakeup Ch_uart))
      (case r of CReturns i \<Rightarrow> kret (Some i) | CBlocks _ _ \<Rightarrow> kseq (sleep Ch_uart) (kret None)))"
    by (rule pres | rule keeps_pres, rule tk_keeps)+
  then show "tk_inv t"
    using resume_pres[OF consolewrite_carried[OF tk.byte_in_carried p[unfolded consolewrite_def]] m] inv by (simp add: tk_def)
qed

lemma fileread_pres [pres]: "pres (fileread x addr n)"
  unfolding fileread_def by (rule pres | rule keeps_pres, rule tk_keeps | rule tk_keeps | simp)+

lemma filewrite_pres [pres]: "pres (filewrite x addr n)"
  unfolding filewrite_def by (rule pres | rule keeps_pres, rule tk_keeps | rule tk_keeps | simp)+

lemma pipealloc_pres [pres]: "pres pipealloc"
  unfolding pipealloc_def close_opt_def by (rule pres | rule keeps_pres, rule tk_keeps | rule tk_keeps | simp)+

subsection \<open>System calls and traps\<close>

lemma exec_pres [pres]: "pres (exec path argv)"
  unfolding exec_def exec_stack_def exec_commit_def exec_bad_def
  by (rule pres | rule keeps_pres, rule tk_keeps | rule tk_keeps | simp)+

lemma sysfile_pres [pres]:
  "pres sys_read" "pres sys_write" "pres sys_close" "pres sys_open" "pres sys_exec" "pres sys_pipe"
  unfolding sys_read_def sys_write_def sys_close_def sys_open_def open_fail_def sys_exec_def sys_pipe_def pipe_fail_def
  by (rule pres | rule keeps_pres, rule tk_keeps | rule tk_keeps | simp)+

lemma munmap_pres [pres]: "pres (munmap addr len)"
  unfolding munmap_def by (rule pres | rule keeps_pres, rule tk_keeps | rule tk_keeps | simp)+

lemma sleep_round_pres [pres]: "pres (sleep_round n ticks0)"
  unfolding sleep_round_def by (rule pres | rule keeps_pres, rule tk_keeps | simp)+

lemma sysproc_pres [pres]:
  "pres sys_exit" "pres sys_fork" "pres sys_wait" "pres sys_sleep" "pres sys_kill" "pres sys_munmap"
  unfolding sys_exit_def sys_fork_def sys_wait_def sys_sleep_def sys_kill_def sys_munmap_def
  by (rule pres | rule keeps_pres, rule tk_keeps | simp)+

lemma returns_pres [pres]: "pres m \<Longrightarrow> pres (returns m)"
  unfolding returns_def by (rule pres | assumption | rule keeps_pres, rule tk_keeps)+

lemma syscalls_pres: "syscalls pad num = Some call \<Longrightarrow> num \<noteq> 23 \<Longrightarrow> pres call"
  unfolding syscalls_def
  by (auto split: if_splits intro!: returns_pres sysproc_pres sysfile_pres pres_kseq
      keeps_pres[OF tk.sys_fstat_quiet] keeps_pres[OF tk.sys_chdir_quiet] keeps_pres[OF tk.sys_dup_quiet]
      keeps_pres[OF tk.sysproc_quiet(1)] keeps_pres[OF tk.sysproc_quiet(2)] keeps_pres[OF tk.sysproc_quiet(3)]
      keeps_pres[OF tk.sysproc_quiet(4)] keeps_pres[OF tk.sysproc_quiet(5)] keeps_pres[OF tk.sys_mknod_quiet]
      keeps_pres[OF tk.sys_unlink_quiet] keeps_pres[OF tk.sys_link_quiet] keeps_pres[OF tk.sys_mkdir_quiet]
      keeps_pres[OF keeps_kret])

text \<open>The accounting holds and the current process runs: the state in which user code traps.\<close>

definition in_user :: "nat option \<times> u32 \<times> (procstate \<times> u32) list \<Rightarrow> bool" where
  "in_user d \<longleftrightarrow> accounted d \<and> (\<exists>p. fst d = Some p \<and> fst (snd (snd d) ! p) = RUNNING)"

lemma in_user_running: "in_user (tk s) \<Longrightarrow> tk_inv s \<and> cur_running s"
  by (auto simp: in_user_def cur_running_def accounted_def)

lemma in_user_accounted: "in_user d \<Longrightarrow> accounted d"
  by (simp add: in_user_def)

lemma sys_settickets_tri: "tri in_user sys_settickets (\<lambda>_. accounted)"
proof -
  have "tri in_user (settickets n) (\<lambda>_. accounted)" for n
    using settickets_inv in_user_running unfolding tri_def by blast
  then have "tri in_user (kbind (settickets n) (\<lambda>r. kret (of_int r))) (\<lambda>_. accounted)" for n
    by (rule tri_kbind) (simp add: tri_def)
  then show ?thesis unfolding sys_settickets_def by (rule tri_keeps_kbind[OF tk.argint_keeps])
qed

lemma syscall_tri: "tri in_user (syscall pad) (\<lambda>_. accounted)"
proof -
  have call: "tri in_user call (\<lambda>_. accounted)" if "syscalls pad num = Some call" for call num
  proof (cases "num = 23")
    case True
    with that have "call = returns sys_settickets" by (simp add: syscalls_def)
    moreover have "tri in_user (kbind sys_settickets (\<lambda>v. kret (Some v))) (\<lambda>_. accounted)"
      by (rule tri_kbind[OF sys_settickets_tri]) (simp add: tri_def)
    ultimately show ?thesis by (simp add: returns_def)
  next
    case False
    from syscalls_pres[OF that this] have "tri accounted call (\<lambda>_. accounted)" by (simp add: tri_pres)
    then show ?thesis by (rule tri_weaken) (rule in_user_accounted)
  qed
  have store: "tri accounted (tf_store p r w) (\<lambda>_. accounted)" for p r w
    unfolding tri_pres by (rule keeps_pres, rule tk.tf_store_keeps)
  have "tri in_user (case syscalls pad num of
      Some call \<Rightarrow> kbind call (\<lambda>r. case r of None \<Rightarrow> kret () | Some v \<Rightarrow> tf_store p TF_a0 v)
    | None \<Rightarrow> tf_store p TF_a0 (-1)) (\<lambda>_. accounted)" for num p
  proof (cases "syscalls pad num")
    case None
    then show ?thesis using tri_weaken[OF store in_user_accounted] by simp
  next
    case (Some c)
    have "tri accounted (case r of None \<Rightarrow> kret () | Some v \<Rightarrow> tf_store p TF_a0 v) (\<lambda>_. accounted)" for r
      using store by (cases r) (auto simp: tri_def)
    from tri_kbind[OF call[OF Some] this] Some show ?thesis by simp
  qed
  then show ?thesis unfolding syscall_def
    by (rule tri_keeps_kbind[OF tk.curproc_keeps tri_keeps_kbind[OF tk.tf_load_keeps]])
qed

lemma kconsoleintr_inv: "tk_inv s \<Longrightarrow> tk_inv (kconsoleintr c s)"
proof -
  assume inv: "tk_inv s"
  obtain out c' woken where ci: "consoleintr (procdump s) (of_int c) (k_cons s) = (out, c', woken)"
    by (metis prod_cases3)
  let ?s1 = "s\<lparr>k_cons := c', k_uart := (k_uart s)\<lparr>ua_thr := ua_thr (k_uart s) @ map (Pair False) out\<rparr>\<rparr>"
  have inv1: "tk_inv ?s1" using inv by (simp add: tk_def)
  show ?thesis
  proof (cases "wakeup Ch_cons ?s1")
    case (Inl e)
    with ci inv1 show ?thesis by (simp add: kconsoleintr_def Let_def)
  next
    case (Inr w)
    then obtain s2 where w: "wakeup Ch_cons ?s1 = Inr ((), s2)" by (cases w) auto
    from presD[OF wakeup_pres inv1 w] w ci inv1 show ?thesis by (simp add: kconsoleintr_def Let_def)
  qed
qed

lemma uartintr_input_inv:
  assumes step: "\<And>c s. I s \<Longrightarrow> I (f c s)"
  shows "uartintr_input f u s = (u', s') \<Longrightarrow> I s \<Longrightarrow> I s'"
proof (induction "length (ua_rx u)" arbitrary: u s rule: less_induct)
  case less
  obtain c u1 where g: "uartgetc u = (c, u1)" by fastforce
  show ?case
  proof (cases "c = -1")
    case True
    with less.prems g show ?thesis by (simp add: uartintr_input.simps[of f u s])
  next
    case False
    with less.prems g have "uartintr_input f u1 (f c s) = (u', s')" by (simp add: uartintr_input.simps[of f u s])
    with less.hyps[of u1] uartgetc_rx[OF g False] step[OF less.prems(2)] show ?thesis by simp
  qed
qed

lemma kuartintr_pres [pres]: "pres kuartintr"
proof (rule presI)
  fix s v t
  assume inv: "tk_inv s" and run: "kuartintr s = Inr (v, t)"
  obtain u s1 where i: "uartintr_input kconsoleintr (k_uart s) (s\<lparr>k_uart := (k_uart s)\<lparr>ua_thr := []\<rparr>\<rparr>) = (u, s1)"
    by fastforce
  obtain u' woken where o': "uartstart (u\<lparr>ua_thr := ua_thr u @ ua_thr (k_uart s1)\<rparr>) False = (u', woken)" by fastforce
  have "tk_inv s1" using uartintr_input_inv[of tk_inv, OF kconsoleintr_inv i] inv by (simp add: tk_def)
  then have "tk_inv (s1\<lparr>k_uart := u'\<rparr>)" by (simp add: tk_def)
  moreover have "kwhen woken (wakeup Ch_uart) (s1\<lparr>k_uart := u'\<rparr>) = Inr (v, t)"
    using run by (simp add: kuartintr_def i o')
  ultimately show "tk_inv t" by (rule presD[OF pres_kwhen[OF wakeup_pres]])
qed

lemma devintr_pres [pres]: "pres (devintr scause irq cpu disk_done)"
  unfolding devintr_def clockintr_def by (rule pres | rule keeps_pres, rule tk_keeps | simp)+

lemma trap_finish_pres [pres]: "pres (trap_finish r p dev)"
  unfolding trap_finish_def by (rule pres | rule keeps_pres, rule tk_keeps | simp)+

lemma usertrap_tri: "tri in_user (usertrap pad r) (\<lambda>_. accounted)"
proof -
  have pres_in: "pres m \<Longrightarrow> tri in_user m (\<lambda>_. accounted)" for m :: "(kst, retregs option) kmon"
    unfolding tri_pres[symmetric] by (rule tri_weaken) (assumption, rule in_user_accounted)
  have killed: "pres (kseq (kexit (-1)) (kret None))"
    and after: "pres (kbind (get_proc p) (\<lambda>x. if p_state x \<noteq> RUNNING then kret None else trap_finish r p 0))"
    and fault: "pres (kbind (get_proc p) (\<lambda>x. kbind (walkaddr (p_pagetable x) (tr_stval r)) (\<lambda>pa.
        kseq (kwhen (pa \<le> 0) (set_killed p)) (trap_finish r p 0))))"
    and device: "pres (kbind (devintr (tr_scause r) (tr_irq r) (tr_cpu r) (tr_disk_done r)) (\<lambda>dev.
        kseq (kwhen (dev = 0) (set_killed p)) (trap_finish r p dev)))" for p
    by (rule pres | rule keeps_pres, rule tk_keeps | rule tk_keeps | simp)+
  show ?thesis unfolding usertrap_def
    by (rule tri_if pres_in[OF killed] pres_in[OF fault] pres_in[OF device] tri_kseq[OF syscall_tri]
          after[folded tri_pres] tri_keeps_kbind tri_keeps_kseq keeps pres_in[OF keeps_pres[OF keeps_panic]])+
qed

lemma kerneltrap_pres [pres]: "pres (kerneltrap r)"
  unfolding kerneltrap_def by (rule pres | rule keeps_pres, rule tk_keeps | simp)+

subsection \<open>Scheduling rounds\<close>

lemma lottery_runnable:
  "lottery target xs i cum sel = Some p \<Longrightarrow>
     sel = Some p \<or> (i \<le> p \<and> p < i + length xs \<and> p_state (xs ! (p - i)) = RUNNABLE)"
proof (induction xs arbitrary: i cum sel)
  case Nil
  then show ?case by simp
next
  case (Cons x xs)
  have tail: "\<exists>k. p = i + Suc k \<and> k < length xs \<and> p_state (xs ! k) = RUNNABLE"
    if "Suc i \<le> p" "p < Suc i + length xs" "p_state (xs ! (p - Suc i)) = RUNNABLE"
    using that by (intro exI[of _ "p - Suc i"]) simp
  show ?case
  proof (cases "p_state x = RUNNABLE")
    case False
    with Cons.prems have "lottery target xs (Suc i) cum sel = Some p" by simp
    from Cons.IH[OF this] tail show ?thesis by auto
  next
    case True
    show ?thesis
    proof (cases "sint (cum + p_tickets x) \<ge> target")
      case c: True
      with Cons.prems True have "p = i" by simp
      with True show ?thesis by simp
    next
      case False
      with Cons.prems True have "lottery target xs (Suc i) (cum + p_tickets x) (Some i) = Some p" by simp
      from Cons.IH[OF this] tail True show ?thesis by auto
    qed
  qed
qed

lemma scheduler_pick_run:
  "scheduler_pick s =
     (if k_tickets s = 0 then Inr (None, s)
      else Inr (lottery (sint (lcg_parkmiller (k_seed s) mod k_tickets s + 1)) (k_proc s) 0 0 None,
                s\<lparr>k_seed := lcg_parkmiller (k_seed s)\<rparr>))"
  by (cases "k_tickets s = 0") (simp_all add: scheduler_pick_def next_random_def kmon_defs)

lemma scheduler_round_pres [pres]: "pres scheduler_round"
proof (rule presI)
  fix s v t
  assume inv: "tk_inv s" and run: "scheduler_round s = Inr (v, t)"
  obtain sel s1 where pick: "scheduler_pick s = Inr (sel, s1)" and s1: "tk s1 = tk s" "k_proc s1 = k_proc s"
    and sel: "\<forall>p. sel = Some p \<longrightarrow> p < length (k_proc s) \<and> p_state (k_proc s ! p) = RUNNABLE"
  proof (cases "k_tickets s = 0")
    case True
    then show ?thesis by (intro that[of None s]) (simp_all add: scheduler_pick_run)
  next
    case False
    let ?r = "lcg_parkmiller (k_seed s)"
    let ?sel = "lottery (sint (?r mod k_tickets s + 1)) (k_proc s) 0 0 None"
    show ?thesis
    proof (rule that[of ?sel "s\<lparr>k_seed := ?r\<rparr>"])
      show "\<forall>p. ?sel = Some p \<longrightarrow> p < length (k_proc s) \<and> p_state (k_proc s ! p) = RUNNABLE"
        using lottery_runnable[of _ "k_proc s" 0 0 None] by auto
    qed (simp_all add: False scheduler_pick_run tk_def)
  qed
  show "tk_inv t"
  proof (cases sel)
    case None
    with run pick inv s1 show ?thesis by (simp add: scheduler_round_def kmon_defs)
  next
    case (Some p)
    let ?y = "(k_proc s1 ! p)\<lparr>p_state := RUNNING\<rparr>"
    from sel Some s1 have lt: "p < length (k_proc s1)" and st: "p_state (k_proc s1 ! p) = RUNNABLE" by auto
    have inv1: "tk_inv s1" using inv s1 by simp
    have t: "t = s1\<lparr>k_proc := (k_proc s1)[p := ?y], k_cur := Some p\<rparr>"
      using run pick Some by (simp add: scheduler_round_def scheduler_run_def upd_proc_def kmon_defs)
    have "tk_inv (s1\<lparr>k_proc := (k_proc s1)[p := ?y]\<rparr>)"
      using lt st tk_inv_length[OF inv1] by (intro inv_put[OF inv1, where p = p and y = ?y]) simp_all
    then show ?thesis using t lt tk_inv_length[OF inv1] by (simp add: tk_def accounted_def)
  qed
qed

lemma scheduler_return_pres [pres]: "pres scheduler_return"
  by (rule presI) (auto simp: scheduler_return_def tk_def accounted_def)

subsection \<open>The kernel as a transition system\<close>

text \<open>
  What a process does when it is scheduled again after it slept inside a system call: it repeats
  the test of the loop it was in, with what is left of its transfer.
\<close>

inductive resumes :: "(kst, unit) kmon \<Rightarrow> bool" where
  "resumes (kbind (wait addr) (\<lambda>_. kret ()))"
| "resumes (kbind (sleep_round n ticks0) (\<lambda>_. kret ()))"
| "resumes (kbind (kpiperead pi a n) (\<lambda>_. kret ()))"
| "resumes (kbind (kpipewrite pi a n) (\<lambda>_. kret ()))"
| "resumes (kbind (kconsoleread a n) (\<lambda>_. kret ()))"
| "resumes (kbind (kconsolewrite a n) (\<lambda>_. kret ()))"

text \<open>
  One step of the kernel on one CPU: the first process is made; the running process traps from
  user space, or an interrupt arrives in the kernel; a woken process goes on with its system call;
  the scheduler switches to a process, or gets the CPU back.
\<close>

inductive kstep :: "kst \<Rightarrow> kst \<Rightarrow> bool" where
  boot: "k_cur s = None \<Longrightarrow> userinit s = Inr (u, t) \<Longrightarrow> kstep s t"
| user: "k_cur s = Some p \<Longrightarrow> p_state (k_proc s ! p) = RUNNING \<Longrightarrow> usertrap pad r s = Inr (v, t) \<Longrightarrow> kstep s t"
| kernel: "kerneltrap r s = Inr (w, t) \<Longrightarrow> kstep s t"
| resume: "k_cur s = Some p \<Longrightarrow> p_state (k_proc s ! p) = RUNNING \<Longrightarrow> resumes m \<Longrightarrow>
    kseq sleep_resume m s = Inr (u, t) \<Longrightarrow> kstep s t"
| pick: "k_cur s = None \<Longrightarrow> scheduler_round s = Inr (u, t) \<Longrightarrow> kstep s t"
| give_back: "k_cur s = Some p \<Longrightarrow> p_state (k_proc s ! p) \<noteq> RUNNING \<Longrightarrow> scheduler_return s = Inr (u, t) \<Longrightarrow> kstep s t"

lemma resumes_pres: "resumes m \<Longrightarrow> pres m"
  by (induction rule: resumes.induct) (rule pres | rule keeps_pres, rule tk_keeps)+

lemma kstep_inv: "kstep s t \<Longrightarrow> tk_inv s \<Longrightarrow> tk_inv t"
proof (induction rule: kstep.induct)
  case (user s p pad r v t)
  then have "in_user (tk s)"
    using tk_inv_cur[of s p] tk_inv_length[of s] tk_nth[of p s] by (simp add: in_user_def) (simp add: tk_def)
  from triD[OF usertrap_tri this user(3)] show ?case .
next
  case (resume s p m u t)
  have "pres (kseq sleep_resume m)"
    unfolding sleep_resume_def using resumes_pres[OF resume(3)]
    by (intro pres_kseq) (auto intro!: keeps_pres tk_keeps)
  from presD[OF this resume(5) resume(4)] show ?case .
qed (blast intro: presD[OF userinit_pres] presD[OF kerneltrap_pres] presD[OF scheduler_round_pres]
      presD[OF scheduler_return_pres])+

definition ticket_sum :: "proc list \<Rightarrow> u32" where
  "ticket_sum ps = sum_list (map (\<lambda>x. if p_state x = RUNNING \<or> p_state x = RUNNABLE then p_tickets x else 0) ps)"

lemma tk_inv_iff:
  "tk_inv s \<longleftrightarrow> length (k_proc s) = NPROC \<and> (\<forall>p. k_cur s = Some p \<longrightarrow> p < NPROC) \<and> k_tickets s = ticket_sum (k_proc s)"
  by (simp add: accounted_def tk_def ticket_sum_def weight_counted comp_def)

text \<open>
  C18: In every state the kernel reaches through system calls, page faults, interrupts and scheduling
  rounds, \<^verbatim>\<open>total_tickets\<close> is the sum (modulo 2 to the 32) of the tickets of the processes that are
  running or runnable. So a lottery draws over exactly the processes that can win.
\<close>

theorem tickets_accounting:
  assumes "length (k_proc s) = NPROC" "\<forall>p. k_cur s = Some p \<longrightarrow> p < NPROC"
    and "k_tickets s = ticket_sum (k_proc s)" and "kstep\<^sup>*\<^sup>* s t"
  shows "k_tickets t = ticket_sum (k_proc t)"
proof -
  have "tk_inv s" using assms(1-3) by (simp add: tk_inv_iff)
  with assms(4) have "tk_inv t" by (induction rule: rtranclp_induct) (blast intro: kstep_inv)+
  then show ?thesis by (simp add: tk_inv_iff)
qed

text \<open>A scheduling round on a machine with one runnable process.\<close>

definition kst_idle :: kst where
  "kst_idle = (kst0 0)\<lparr>k_proc := proc0\<lparr>p_state := RUNNABLE\<rparr> # replicate 63 (proc0\<lparr>p_state := UNUSED\<rparr>), k_cur := None\<rparr>"

lemma ticket_sum_Cons:
  "ticket_sum (x # xs) = (if p_state x = RUNNING \<or> p_state x = RUNNABLE then p_tickets x else 0) + ticket_sum xs"
  by (simp add: ticket_sum_def)

lemma ticket_sum_replicate: "p_state x = UNUSED \<Longrightarrow> ticket_sum (replicate n x) = 0"
  by (induction n) (simp_all add: ticket_sum_def)

lemma kst_idle_facts:
  "k_cur kst_idle = None" "length (k_proc kst_idle) = 64" "k_tickets kst_idle = 1"
  "ticket_sum (k_proc kst_idle) = 1"
  by (simp_all add: kst_idle_def kst0_def ticket_sum_Cons ticket_sum_replicate) (simp_all add: proc0_def)

lemma kst_idle_round: "\<exists>t. scheduler_round kst_idle = Inr ((), t) \<and> k_cur t = Some 0"
  by (simp add: scheduler_round_def kbind_def scheduler_pick_run kst_idle_facts)
     (simp add: kst_idle_def kst0_def proc0_def scheduler_run_def upd_proc_def kmon_defs)

theorem tickets_accounting_witness:
  "\<exists>t. kstep\<^sup>*\<^sup>* kst_idle t \<and> k_cur t = Some 0 \<and> k_tickets t = ticket_sum (k_proc t)"
proof -
  from kst_idle_round obtain t where t: "scheduler_round kst_idle = Inr ((), t)" "k_cur t = Some 0" by blast
  have "kstep\<^sup>*\<^sup>* kst_idle t" by (rule r_into_rtranclp, rule kstep.pick[OF kst_idle_facts(1) t(1)])
  with tickets_accounting[of kst_idle t] t(2) show ?thesis by (auto simp: kst_idle_facts)
qed

end
