(* ===== verification/Lottery.thy ===== *)
theory Lottery
  imports Tickets
begin

text \<open>
  What the draw of \<^verbatim>\<open>scheduler\<close> promises: the random numbers are the Lehmer sequence with
  multiplier 48271, every runnable process wins for as many targets as it has tickets, and a round
  finds a process whenever one is runnable, as long as the total does not wrap around.
\<close>

subsection \<open>Random numbers\<close>

text \<open>
  The subtraction of Schrage's method, on natural numbers: with \<open>N = G * Q + R\<close> and
  \<open>x = Q * q + r\<close>, \<open>G * x\<close> is congruent to \<open>G * r - R * q\<close>.
\<close>

lemma schrage:
  fixes N G Q R q r :: nat
  assumes "N = G * Q + R" "b = R * q" "a = G * r"
  shows "b \<le> a \<Longrightarrow> (a - b) mod N = G * (Q * q + r) mod N"
    and "a \<le> b \<Longrightarrow> b \<le> N \<Longrightarrow> (a + (N - b)) mod N = G * (Q * q + r) mod N"
proof -
  have sum: "G * (Q * q + r) + b = N * q + a" by (simp add: assms algebra_simps)
  {
    assume "b \<le> a"
    then have "G * (Q * q + r) = N * q + (a - b)" using sum by simp
    then show "(a - b) mod N = G * (Q * q + r) mod N" by simp
  next
    assume "a \<le> b" "b \<le> N"
    then have "G * (Q * q + r) + N = N * q + (a + (N - b))" using sum by simp
    then show "(a + (N - b)) mod N = G * (Q * q + r) mod N"
      by (metis mod_add_self2 mod_mult_self4)
  }
qed

lemma lcg_no_zero:
  fixes q r :: nat
  assumes "48271 * r = 3399 * q" "44488 * q + r < 2147483647"
  shows "q = 0 \<and> r = 0"
proof -
  have "48271 dvd 3399 * q" using assms(1) by (metis dvd_triv_left)
  moreover have "coprime (48271 :: nat) 3399" by (simp add: coprime_iff_gcd_eq_1 gcd_non_0_nat)
  ultimately have "48271 dvd q" by (simp add: coprime_dvd_mult_right_iff)
  then obtain k where k: "q = 48271 * k" by (elim dvdE)
  with assms(1) have "r = 3399 * k" by simp
  with k assms(2) have "k = 0" by simp
  with k \<open>r = 3399 * k\<close> show ?thesis by simp
qed

text \<open>
  C21: From a seed between 1 and 2147483646 the overflow-free arithmetic of \<^verbatim>\<open>lcg_parkmiller\<close>
  computes 48271 times the seed modulo 2147483647, and the result is again such a seed: the
  sequence never falls into 0, where it would stay.
\<close>

theorem lcg_parkmiller_correct:
  assumes "0 < unat state" "unat state < 2147483647"
  shows "unat (lcg_parkmiller state) = 48271 * unat state mod 2147483647 \<and>
         0 < unat (lcg_parkmiller state) \<and> unat (lcg_parkmiller state) < 2147483647"
proof -
  define q r where "q = unat state div 44488" and "r = unat state mod 44488"
  have x: "unat state = 44488 * q + r" by (simp add: q_def r_def)
  have q: "q \<le> 48271" using assms(2) unfolding q_def by simp
  have r: "r \<le> 44487" by (simp add: r_def less_Suc_eq_le[symmetric])
  define a b where "a = 48271 * r" and "b = 3399 * q"
  have ab: "a \<le> 2147431977" "b \<le> 164073129" using q r by (simp_all add: a_def b_def)
  have wa: "unat (state mod 44488 * 48271) = a"
    using ab by (simp add: unat_word_ariths unat_mod r_def a_def)
  have wb: "unat (state div 44488 * 3399) = b"
    using ab by (simp add: unat_word_ariths unat_div q_def b_def)
  have def: "lcg_parkmiller state = (if state mod 44488 * 48271 > state div 44488 * 3399
      then state mod 44488 * 48271 - state div 44488 * 3399
      else state mod 44488 * 48271 + (0x7fffffff - state div 44488 * 3399))"
    by (simp add: lcg_parkmiller_def Let_def)
  note S = schrage[of 2147483647 48271 44488 3399 b q a r, OF _ b_def a_def, folded x]
  show ?thesis
  proof (cases "b < a")
    case True
    then have "unat (lcg_parkmiller state) = a - b"
      using wa wb by (simp add: def word_less_nat_alt unat_sub_if')
    then show ?thesis using S(1) True ab by simp
  next
    case False
    have "a \<noteq> b"
      using lcg_no_zero[of r q] assms x unfolding a_def b_def by auto
    then have lt: "a < b" using False by simp
    have n: "unat (0x7fffffff - state div 44488 * 3399 :: u32) = 2147483647 - b"
      using ab wb by (simp add: unat_sub_if')
    have "unat (lcg_parkmiller state) = a + (2147483647 - b)"
      using wa wb lt n ab by (simp add: def word_less_nat_alt unat_word_ariths)
    then show ?thesis using S(2) lt ab by simp
  qed
qed

theorem lcg_parkmiller_correct_witness:
  "unat (lcg_parkmiller 1) = 48271 \<and> unat (lcg_parkmiller 1) < 2147483647"
  using lcg_parkmiller_correct[of 1] by simp

subsection \<open>The draw\<close>

definition runnable_tickets :: "proc list \<Rightarrow> int" where
  "runnable_tickets ps = sum_list (map (\<lambda>x. if p_state x = RUNNABLE then sint (p_tickets x) else 0) ps)"

lemma runnable_tickets_simps [simp]:
  "runnable_tickets [] = 0"
  "runnable_tickets (x # xs) = (if p_state x = RUNNABLE then sint (p_tickets x) else 0) + runnable_tickets xs"
  by (simp_all add: runnable_tickets_def)

lemma runnable_tickets_nonneg:
  "\<forall>x \<in> set ps. 0 \<le> sint (p_tickets x) \<Longrightarrow> 0 \<le> runnable_tickets ps"
  by (induction ps) auto

lemma runnable_tickets_none: "\<forall>x \<in> set ps. p_state x \<noteq> RUNNABLE \<Longrightarrow> runnable_tickets ps = 0"
  by (induction ps) auto

lemma lottery_none_runnable:
  "\<forall>x \<in> set xs. p_state x \<noteq> RUNNABLE \<Longrightarrow> lottery target xs i cum sel = sel"
  by (induction xs arbitrary: i) auto

lemma lottery_some_runnable:
  "\<exists>x \<in> set xs. p_state x = RUNNABLE \<Longrightarrow> \<exists>p \<ge> i. lottery target xs i cum sel = Some p"
proof (induction xs arbitrary: i cum sel)
  case Nil
  then show ?case by simp
next
  case (Cons x xs)
  show ?case
  proof (cases "p_state x = RUNNABLE")
    case False
    with Cons.prems Cons.IH[of "Suc i" cum sel] show ?thesis by (auto dest: Suc_leD)
  next
    case True
    show ?thesis
    proof (cases "\<exists>y \<in> set xs. p_state y = RUNNABLE")
      case some: True
      with Cons.IH[of "Suc i" "cum + p_tickets x" "Some i"] True show ?thesis by (auto dest: Suc_leD)
    next
      case False
      with True lottery_none_runnable[of xs target "Suc i" "cum + p_tickets x" "Some i"] show ?thesis by auto
    qed
  qed
qed

lemma sint_sum_exact:
  fixes w :: u32
  assumes "0 \<le> c" "0 \<le> sint w" "c + sint w < 2 ^ 31"
  shows "sint (word_of_int c + w) = c + sint w"
proof -
  have "word_of_int c + w = word_of_int (c + sint w)" by simp
  with assms show ?thesis by (simp only: sint_sbintrunc') (simp add: signed_take_bit_int_eq_self)
qed

text \<open>
  The targets for which process \<open>p\<close> wins, in the scan of the processes from number \<open>i\<close> on, when
  those before it hold \<open>c\<close> tickets.
\<close>

definition winning :: "int \<Rightarrow> proc list \<Rightarrow> nat \<Rightarrow> int \<Rightarrow> nat option \<Rightarrow> nat \<Rightarrow> int set" where
  "winning T xs i c sel p = {t \<in> {c <.. T}. lottery t xs i (word_of_int c) sel = Some p}"

lemma winning_Cons:
  assumes "p_state x = RUNNABLE" "0 \<le> c" "0 \<le> sint (p_tickets x)" "c + sint (p_tickets x) \<le> T" "T < 2 ^ 31"
  shows "winning T (x # xs) i c sel p =
    (if p = i then {c <.. c + sint (p_tickets x)} else {}) \<union> winning T xs (Suc i) (c + sint (p_tickets x)) (Some i) p"
proof -
  have s: "sint (word_of_int c + p_tickets x :: u32) = c + sint (p_tickets x)"
    using assms by (intro sint_sum_exact) auto
  have w: "word_of_int c + p_tickets x = (word_of_int (c + sint (p_tickets x)) :: u32)"
    by simp
  show ?thesis using assms by (auto simp: winning_def s w[symmetric])
qed

lemma card_winning:
  assumes "\<forall>x \<in> set xs. 0 \<le> sint (p_tickets x)" "0 \<le> c" "c + runnable_tickets xs \<le> T" "T < 2 ^ 31"
    and "\<forall>q. sel = Some q \<longrightarrow> q < i" "k < length xs" "p_state (xs ! k) = RUNNABLE"
  shows "int (card (winning T xs i c sel (i + k))) = sint (p_tickets (xs ! k)) +
    (if \<exists>y \<in> set (drop (Suc k) xs). p_state y = RUNNABLE then 0 else T - c - runnable_tickets xs)"
  using assms
proof (induction xs arbitrary: i c sel k)
  case Nil
  then show ?case by simp
next
  case (Cons x xs)
  have nn: "0 \<le> runnable_tickets xs" using Cons.prems(1) by (intro runnable_tickets_nonneg) simp
  show ?case
  proof (cases "p_state x = RUNNABLE")
    case False
    then obtain k' where k: "k = Suc k'" using Cons.prems(7) by (cases k) auto
    have "winning T (x # xs) i c sel (i + k) = winning T xs (Suc i) c sel (Suc i + k')"
      using False by (simp add: winning_def k)
    moreover have "int (card (winning T xs (Suc i) c sel (Suc i + k'))) = sint (p_tickets (xs ! k')) +
        (if \<exists>y \<in> set (drop (Suc k') xs). p_state y = RUNNABLE then 0 else T - c - runnable_tickets xs)"
      using Cons.prems False k by (intro Cons.IH) (auto dest: less_SucI)
    ultimately show ?thesis using False k by simp
  next
    case True
    let ?c = "c + sint (p_tickets x)"
    have c: "0 \<le> sint (p_tickets x)" "?c \<le> T" using Cons.prems True nn by auto
    note W = winning_Cons[OF True Cons.prems(2) c(1,2) Cons.prems(4), of xs i sel "i + k"]
    show ?thesis
    proof (cases k)
      case (Suc k')
      have "int (card (winning T xs (Suc i) ?c (Some i) (Suc i + k'))) = sint (p_tickets (xs ! k')) +
          (if \<exists>y \<in> set (drop (Suc k') xs). p_state y = RUNNABLE then 0 else T - ?c - runnable_tickets xs)"
        using Cons.prems c Suc True by (intro Cons.IH) auto
      with W Suc True show ?thesis by simp
    next
      case 0
      have split: "winning T (x # xs) i c sel (i + k) = {c <.. ?c} \<union> winning T xs (Suc i) ?c (Some i) i"
        using W 0 by simp
      show ?thesis
      proof (cases "\<exists>y \<in> set xs. p_state y = RUNNABLE")
        case some: True
        have "lottery t xs (Suc i) cum sel \<noteq> Some i" for t cum sel
          using lottery_some_runnable[OF some, of "Suc i" t cum sel] by auto
        then have "winning T xs (Suc i) ?c (Some i) i = {}" by (simp add: winning_def)
        with split 0 True some c show ?thesis by simp
      next
        case none: False
        then have "winning T xs (Suc i) ?c (Some i) i = {?c <.. T}"
          by (auto simp: winning_def lottery_none_runnable)
        with split c have "winning T (x # xs) i c sel (i + k) = {c <.. T}" by auto
        with 0 none True runnable_tickets_none[of xs] c Cons.prems(2) show ?thesis by simp
      qed
    qed
  qed
qed


text \<open>Three tickets against five, with one more ticket held by a process that runs elsewhere.\<close>

definition lottery_table :: "proc list" where
  "lottery_table = [proc0\<lparr>p_state := RUNNABLE, p_tickets := 3\<rparr>, proc0, proc0\<lparr>p_state := RUNNABLE, p_tickets := 5\<rparr>]"


subsection \<open>No idle round\<close>

lemma unat_sum_list_u32:
  fixes f :: "'a \<Rightarrow> u32"
  shows "sum_list (map (\<lambda>x. unat (f x)) xs) < 2 ^ 32 \<Longrightarrow> unat (sum_list (map f xs)) = sum_list (map (\<lambda>x. unat (f x)) xs)"
  by (induction xs) (simp_all add: unat_word_ariths)

definition ticket_total :: "proc list \<Rightarrow> nat" where
  "ticket_total ps = sum_list (map (\<lambda>x. unat (if p_state x = RUNNING \<or> p_state x = RUNNABLE then p_tickets x else 0)) ps)"

text \<open>
  C20: No round is idle while a process can run: when the tickets are accounted for and their sum does
  not overflow 32 bits, a table with a runnable process that holds a ticket makes the draw of
  \<^verbatim>\<open>scheduler\<close> select a process, and the process selected is runnable.
\<close>

theorem scheduler_selects:
  assumes "k_tickets s = ticket_sum (k_proc s)" "ticket_total (k_proc s) < 2 ^ 32"
    and "x \<in> set (k_proc s)" "p_state x = RUNNABLE" "p_tickets x \<noteq> 0"
  shows "\<exists>p t. scheduler_pick s = Inr (Some p, t) \<and> p < length (k_proc s) \<and> p_state (k_proc s ! p) = RUNNABLE"
proof -
  let ?f = "\<lambda>x. if p_state x = RUNNING \<or> p_state x = RUNNABLE then p_tickets x else 0"
  have "unat (k_tickets s) = ticket_total (k_proc s)"
    using assms(1,2) unat_sum_list_u32[of ?f] by (simp add: ticket_sum_def ticket_total_def)
  moreover have "unat (?f x) \<le> ticket_total (k_proc s)"
    unfolding ticket_total_def using assms(3) by (intro member_le_sum_list) auto
  moreover have "0 < unat (?f x)" using assms(4,5) by (simp add: unat_gt_0)
  ultimately have "k_tickets s \<noteq> 0" by auto
  moreover obtain p where "lottery (sint (lcg_parkmiller (k_seed s) mod k_tickets s + 1)) (k_proc s) 0 0 None = Some p"
    using lottery_some_runnable assms(3,4) by blast
  ultimately show ?thesis using lottery_runnable[of _ "k_proc s" 0 0 None p] by (auto simp: scheduler_pick_run)
qed

theorem scheduler_selects_witness:
  "\<exists>p t. scheduler_pick kst_idle = Inr (Some p, t) \<and> p < length (k_proc kst_idle)"
proof -
  have x: "proc0\<lparr>p_state := RUNNABLE\<rparr> \<in> set (k_proc kst_idle)" by (simp add: kst_idle_def)
  have "ticket_total (k_proc kst_idle) = 1"
    by (simp add: kst_idle_def kst0_def ticket_total_def sum_list_replicate) (simp add: proc0_def)
  then show ?thesis
    using scheduler_selects[of kst_idle, OF _ _ x] by (auto simp: kst_idle_facts) (auto simp: proc0_def)
qed

text \<open>
  Without the bound the total wraps around: three runnable processes whose tickets add up to 2 to
  the 32 leave \<^verbatim>\<open>total_tickets\<close> at 0, and every round skips the draw.
\<close>

definition kst_starved :: kst where
  "kst_starved = (kst0 0)\<lparr>k_proc := [proc0\<lparr>p_state := RUNNABLE, p_tickets := 0x7fffffff\<rparr>,
     proc0\<lparr>p_state := RUNNABLE, p_tickets := 0x7fffffff\<rparr>, proc0\<lparr>p_state := RUNNABLE, p_tickets := 2\<rparr>],
     k_tickets := 0, k_cur := None\<rparr>"

lemma scheduler_starves:
  "k_tickets kst_starved = ticket_sum (k_proc kst_starved) \<and> scheduler_round kst_starved = Inr ((), kst_starved)"
  by (simp add: kst_starved_def ticket_sum_def scheduler_round_def kbind_def scheduler_pick_run kret_def)

end
