(* ===== verification/Sh.thy ===== *)
theory Sh
  imports Prelude
begin

text \<open>
  The command parser of the shell, \<^verbatim>\<open>src/user/sh.c\<close>. The parser works on one buffer: \<^verbatim>\<open>*ps\<close> is a
  position in it, a word of the command is a pair of positions, and \<^verbatim>\<open>nulterminate\<close> finally writes a 0
  byte at the end of every word. The buffer is the list of the bytes before the terminating 0, and
  \<^verbatim>\<open>es\<close> its length. \<^verbatim>\<open>malloc\<close> is taken to succeed, as the code does.
\<close>

subsection \<open>Commands\<close>

text \<open>The structures \<^verbatim>\<open>execcmd\<close> to \<^verbatim>\<open>backcmd\<close>, over the representation of words.\<close>

datatype 'w cmd =
    EXEC "'w list"
  | REDIR "'w cmd" (rfile: 'w) (rmode: int) (rfd: int)
  | PIPE "'w cmd" "'w cmd"
  | LIST "'w cmd" "'w cmd"
  | BACK "'w cmd"

type_synonym wordpos = "nat \<times> nat"

datatype parsed = Parsed "wordpos cmd" nat | Syntax string | NoFuel

definition p_bind :: "parsed \<Rightarrow> (wordpos cmd \<Rightarrow> nat \<Rightarrow> parsed) \<Rightarrow> parsed" where
  "p_bind m f = (case m of Parsed c i \<Rightarrow> f c i | Syntax e \<Rightarrow> Syntax e | NoFuel \<Rightarrow> NoFuel)"

lemma p_bind_simps [simp]:
  "p_bind (Parsed c i) f = f c i" "p_bind (Syntax e) f = Syntax e" "p_bind NoFuel f = NoFuel"
  by (simp_all add: p_bind_def)

abbreviation (input) MAXARGS :: nat where "MAXARGS \<equiv> 10"
abbreviation (input) O_RDONLY :: int where "O_RDONLY \<equiv> 0"
abbreviation (input) O_WRONLY :: int where "O_WRONLY \<equiv> 0x001"
abbreviation (input) O_CREATE :: int where "O_CREATE \<equiv> 0x200"
abbreviation (input) O_TRUNC :: int where "O_TRUNC \<equiv> 0x400"

subsection \<open>Tokens\<close>

definition whitespace :: "u8 list" where "whitespace = [32, 9, 13, 10, 11]"
definition symbols :: "u8 list" where "symbols = [60, 124, 62, 38, 59, 40, 41]"

abbreviation is_ws :: "u8 \<Rightarrow> bool" where "is_ws c \<equiv> c \<in> set whitespace"
abbreviation is_sym :: "u8 \<Rightarrow> bool" where "is_sym c \<equiv> c \<in> set symbols"

text \<open>\<^verbatim>\<open>*s\<close>, which is 0 at \<^verbatim>\<open>es\<close>, and the loops \<^verbatim>\<open>while(s < es && ...) s++\<close>.\<close>

definition byte_at :: "u8 list \<Rightarrow> nat \<Rightarrow> u8" where
  "byte_at b i = (if i < length b then b ! i else 0)"

definition skip_ws :: "u8 list \<Rightarrow> nat \<Rightarrow> nat" where
  "skip_ws b i = i + length (takeWhile is_ws (drop i b))"

definition skip_word :: "u8 list \<Rightarrow> nat \<Rightarrow> nat" where
  "skip_word b i = i + length (takeWhile (\<lambda>c. \<not> is_ws c \<and> \<not> is_sym c) (drop i b))"

text \<open>The token, its first and last position and the position after the white space that follows.\<close>

definition gettoken :: "u8 list \<Rightarrow> nat \<Rightarrow> u8 \<times> wordpos \<times> nat" where
  "gettoken b i =
     (let s = skip_ws b i; c = byte_at b s;
          (ret, e) =
            (if c = 0 then (0, s)
             else if c \<in> {124, 40, 41, 59, 38, 60} then (c, s + 1)
             else if c = 62 then (if byte_at b (s + 1) = 62 then (43, s + 2) else (62, s + 1))
             else (97, skip_word b s))
      in (ret, (s, e), skip_ws b e))"

definition peek :: "u8 list \<Rightarrow> nat \<Rightarrow> u8 list \<Rightarrow> nat \<times> bool" where
  "peek b i toks = (let s = skip_ws b i in (s, byte_at b s \<noteq> 0 \<and> byte_at b s \<in> set toks))"

lemma skip_ws_ge: "i \<le> skip_ws b i"
  by (simp add: skip_ws_def)

lemma skip_word_ge: "i \<le> skip_word b i"
  by (simp add: skip_word_def)

lemma skip_ws_le: "i \<le> length b \<Longrightarrow> skip_ws b i \<le> length b"
  using length_takeWhile_le[of is_ws "drop i b"] by (simp add: skip_ws_def)

lemma skip_word_le: "i \<le> length b \<Longrightarrow> skip_word b i \<le> length b"
  using length_takeWhile_le[of "\<lambda>c. \<not> is_ws c \<and> \<not> is_sym c" "drop i b"] by (simp add: skip_word_def)

lemma byte_at_pos: "byte_at b i \<noteq> 0 \<Longrightarrow> i < length b"
  by (simp add: byte_at_def split: if_splits)

lemma skip_ws_stops: "byte_at b (skip_ws b i) \<noteq> 0 \<Longrightarrow> \<not> is_ws (byte_at b (skip_ws b i))"
proof -
  assume "byte_at b (skip_ws b i) \<noteq> 0"
  then have lt: "skip_ws b i < length b" by (rule byte_at_pos)
  let ?n = "length (takeWhile is_ws (drop i b))"
  have "?n < length (drop i b)" using lt by (simp add: skip_ws_def)
  then have "\<not> is_ws (drop i b ! ?n)" by (rule nth_length_takeWhile)
  moreover have "drop i b ! ?n = b ! (skip_ws b i)" using lt by (simp add: skip_ws_def)
  ultimately show ?thesis using lt by (simp add: byte_at_def)
qed

text \<open>A token that is not the end of the input takes at least one byte.\<close>

lemma gettoken_bounds:
  assumes "gettoken b i = (t, (q, e), j)" "i \<le> length b"
  shows "i \<le> q" "q \<le> e" "e \<le> j" "j \<le> length b" "t \<noteq> 0 \<Longrightarrow> q < e"
proof -
  let ?s = "skip_ws b i" and ?c = "byte_at b (skip_ws b i)"
  have s: "i \<le> ?s" "?s \<le> length b" using skip_ws_ge skip_ws_le[OF assms(2)] by auto
  have word: "?s < skip_word b ?s" if "?c \<noteq> 0" "\<not> is_sym ?c"
  proof -
    have "?s < length b" using that(1) by (rule byte_at_pos)
    moreover have "\<not> is_ws (b ! ?s)" "\<not> is_sym (b ! ?s)"
      using skip_ws_stops[OF that(1)] that(2) \<open>?s < length b\<close> by (auto simp: byte_at_def)
    ultimately show ?thesis by (simp add: skip_word_def Cons_nth_drop_Suc[symmetric])
  qed
  have "q = ?s" "j = skip_ws b e" and e: "(t = 0 \<and> e = ?s) \<or> (t \<noteq> 0 \<and> ?s < e \<and> e \<le> length b)"
    using assms(1) s word skip_word_le[OF s(2)] byte_at_pos[of b ?s] byte_at_pos[of b "Suc ?s"]
    by (auto simp: gettoken_def Let_def symbols_def split: if_splits)
  then show "i \<le> q" "q \<le> e" "e \<le> j" "j \<le> length b" "t \<noteq> 0 \<Longrightarrow> q < e"
    using s skip_ws_ge[of e b] skip_ws_le[of e b] by auto
qed

lemma peek_bounds: "peek b i toks = (j, r) \<Longrightarrow> i \<le> length b \<Longrightarrow> i \<le> j \<and> j \<le> length b"
  using skip_ws_ge[of i b] skip_ws_le[of i b] by (auto simp: peek_def Let_def)

lemma peek_token: "peek b i toks = (j, True) \<Longrightarrow> fst (gettoken b j) \<noteq> 0"
proof -
  assume p: "peek b i toks = (j, True)"
  then have c: "byte_at b j \<noteq> 0" "j = skip_ws b i" by (auto simp: peek_def Let_def)
  then have "j < length b" "\<not> is_ws (b ! j)"
    using skip_ws_stops[of b i] byte_at_pos[OF c(1)] by (auto simp: byte_at_def)
  then have "takeWhile is_ws (drop j b) = []" by (simp add: Cons_nth_drop_Suc[symmetric])
  then have "skip_ws b j = j" by (simp add: skip_ws_def[of b j])
  with c(1) show ?thesis by (simp add: gettoken_def Let_def)
qed

subsection \<open>The parser\<close>

text \<open>After a successful \<^verbatim>\<open>peek\<close> the token is taken, and the position moves on.\<close>

lemma peek_gettoken:
  assumes "peek b i toks = (j, True)" "gettoken b j = (t, (q, e), k)"
  shows "i < length b" "i \<le> j" "j < k" "k \<le> length b"
proof -
  have j: "byte_at b j \<noteq> 0" "j = skip_ws b i" using assms(1) by (auto simp: peek_def Let_def)
  have lt: "j < length b" by (rule byte_at_pos[OF j(1)])
  show "i < length b" "i \<le> j" using lt j(2) skip_ws_ge[of i b] by auto
  have "t \<noteq> 0" using peek_token[OF assms(1)] assms(2) by simp
  then show "j < k" "k \<le> length b" using gettoken_bounds[OF assms(2)] lt by auto
qed

lemma peek_progress:
  assumes "(j, True) = peek b i toks" "(t, w, k) = gettoken b j"
  shows "length b - k < length b - i"
  using peek_gettoken[OF assms(1)[symmetric], of t "fst w" "snd w" k] assms(2) by simp

lemma peek_progress2:
  assumes "(j, True) = peek b i toks" "(t, w, k) = gettoken b j" "(t2, w2, l) = gettoken b k"
  shows "length b - l < length b - i"
proof -
  have "k \<le> length b" "i < k" "i < length b"
    using peek_gettoken[OF assms(1)[symmetric], of t "fst w" "snd w" k] assms(2) by simp_all
  moreover have "k \<le> l" using gettoken_bounds[of b k t2 "fst w2" "snd w2" l] assms(3) calculation by simp
  ultimately show ?thesis by simp
qed

text \<open>\<^verbatim>\<open>while(peek(ps, es, "&")) { gettoken(ps, es, 0, 0); cmd = backcmd(cmd); }\<close>\<close>

function parse_backs :: "u8 list \<Rightarrow> wordpos cmd \<Rightarrow> nat \<Rightarrow> wordpos cmd \<times> nat" where
  "parse_backs b c i =
     (let (j, more) = peek b i [38]
      in if \<not> more then (c, j)
         else let (t, w, k) = gettoken b j in parse_backs b (BACK c) k)"
  by pat_completeness auto
termination
  by (relation "measure (\<lambda>(b, c, i). length b - i)") (auto intro: peek_progress)

declare parse_backs.simps [simp del]

text \<open>The loop of \<^verbatim>\<open>parseredirs\<close>; an error is the message of \<^verbatim>\<open>panic\<close>.\<close>

function parseredirs :: "u8 list \<Rightarrow> wordpos cmd \<Rightarrow> nat \<Rightarrow> parsed" where
  "parseredirs b c i =
     (let (j, more) = peek b i [60, 62]
      in if \<not> more then Parsed c j
         else let (tok, w, k) = gettoken b j; (tok2, w2, l) = gettoken b k
              in if tok2 \<noteq> 97 then Syntax ''missing file for redirection''
                 else parseredirs b
                   (if tok = 60 then REDIR c w2 O_RDONLY 0
                    else if tok = 62 then REDIR c w2 (O_WRONLY + O_CREATE + O_TRUNC) 1
                    else if tok = 43 then REDIR c w2 (O_WRONLY + O_CREATE) 1
                    else c) l)"
  by pat_completeness auto
termination
  by (relation "measure (\<lambda>(b, c, i). length b - i)") (auto intro: peek_progress2)

declare parseredirs.simps [simp del]

text \<open>
  In \<^verbatim>\<open>parseexec\<close> the variable \<^verbatim>\<open>cmd\<close> points to the \<^verbatim>\<open>execcmd\<close> inside the redirections of
  \<^verbatim>\<open>ret\<close>, so that a later word lands in the command they already enclose.
\<close>

fun add_arg :: "'w \<Rightarrow> 'w cmd \<Rightarrow> 'w cmd" where
  "add_arg w (EXEC ws) = EXEC (ws @ [w])"
| "add_arg w (REDIR c f m fd) = REDIR (add_arg w c) f m fd"
| "add_arg w c = c"

text \<open>The loop over the words; \<open>n\<close> bounds the number of iterations, and \<open>argc\<close> never reaches it.\<close>

fun parse_args :: "nat \<Rightarrow> u8 list \<Rightarrow> nat \<Rightarrow> wordpos cmd \<Rightarrow> nat \<Rightarrow> parsed" where
  "parse_args 0 b argc ret i = NoFuel"
| "parse_args (Suc n) b argc ret i =
     (let (j, stop) = peek b i [124, 41, 38, 59]
      in if stop then Parsed ret j
         else let (tok, w, k) = gettoken b j
              in if tok = 0 then Parsed ret k
                 else if tok \<noteq> 97 then Syntax ''syntax''
                 else if argc + 1 \<ge> MAXARGS then Syntax ''too many args''
                 else p_bind (parseredirs b (add_arg w ret) k) (parse_args n b (argc + 1)))"

fun parseline :: "nat \<Rightarrow> u8 list \<Rightarrow> nat \<Rightarrow> parsed"
  and parsepipe :: "nat \<Rightarrow> u8 list \<Rightarrow> nat \<Rightarrow> parsed"
  and parseexec :: "nat \<Rightarrow> u8 list \<Rightarrow> nat \<Rightarrow> parsed"
  and parseblock :: "nat \<Rightarrow> u8 list \<Rightarrow> nat \<Rightarrow> parsed" where
  "parseline 0 b i = NoFuel"
| "parseline (Suc n) b i =
     p_bind (parsepipe n b i) (\<lambda>c i.
       let (c, i) = parse_backs b c i; (j, more) = peek b i [59]
       in if more
          then let (t, w, k) = gettoken b j in p_bind (parseline n b k) (\<lambda>r i. Parsed (LIST c r) i)
          else Parsed c j)"
| "parsepipe 0 b i = NoFuel"
| "parsepipe (Suc n) b i =
     p_bind (parseexec n b i) (\<lambda>c i.
       let (j, more) = peek b i [124]
       in if more
          then let (t, w, k) = gettoken b j in p_bind (parsepipe n b k) (\<lambda>r i. Parsed (PIPE c r) i)
          else Parsed c j)"
| "parseexec 0 b i = NoFuel"
| "parseexec (Suc n) b i =
     (let (j, blk) = peek b i [40]
      in if blk then parseblock n b j
         else p_bind (parseredirs b (EXEC []) j) (parse_args MAXARGS b 0))"
| "parseblock 0 b i = NoFuel"
| "parseblock (Suc n) b i =
     (let (j, ok) = peek b i [40]
      in if \<not> ok then Syntax ''parseblock''
         else let (t, w, k) = gettoken b j
              in p_bind (parseline n b k) (\<lambda>c i.
                   let (j, ok) = peek b i [41]
                   in if \<not> ok then Syntax ''syntax - missing )''
                      else let (t, w, k) = gettoken b j in parseredirs b c k))"

text \<open>
  \<^verbatim>\<open>nulterminate\<close> on the bytes of the buffer, the terminating 0 included. The fuel is enough for every
  input, as shown below.
\<close>

fun nulterminate :: "wordpos cmd \<Rightarrow> u8 list \<Rightarrow> u8 list" where
  "nulterminate (EXEC ws) m = foldl (\<lambda>m (q, e). m[e := 0]) m ws"
| "nulterminate (REDIR c f md fd) m = (nulterminate c m)[snd f := 0]"
| "nulterminate (PIPE l r) m = nulterminate r (nulterminate l m)"
| "nulterminate (LIST l r) m = nulterminate r (nulterminate l m)"
| "nulterminate (BACK c) m = nulterminate c m"

definition parse_fuel :: "u8 list \<Rightarrow> nat" where
  "parse_fuel b = 4 * length b + 4"

definition parsecmd :: "u8 list \<Rightarrow> (string + wordpos cmd \<times> u8 list) option" where
  "parsecmd b =
     (case parseline (parse_fuel b) b 0 of
        NoFuel \<Rightarrow> None
      | Syntax e \<Rightarrow> Some (Inl e)
      | Parsed c i \<Rightarrow>
          let (j, _) = peek b i []
          in if j \<noteq> length b then Some (Inl ''syntax'')
             else Some (Inr (c, nulterminate c (b @ [0]))))"
subsection \<open>The parser terminates, and its words are words\<close>

text \<open>A word: a non-empty stretch of ordinary bytes that ends at white space, a symbol or the end.\<close>

definition word_ok :: "u8 list \<Rightarrow> wordpos \<Rightarrow> bool" where
  "word_ok b w \<longleftrightarrow> fst w < snd w \<and> snd w \<le> length b \<and>
     (\<forall>x. fst w \<le> x \<and> x < snd w \<longrightarrow> \<not> is_ws (b ! x) \<and> \<not> is_sym (b ! x)) \<and>
     (snd w < length b \<longrightarrow> is_ws (b ! snd w) \<or> is_sym (b ! snd w))"

definition fine :: "u8 list \<Rightarrow> nat \<Rightarrow> parsed \<Rightarrow> bool" where
  "fine b i r \<longleftrightarrow> (case r of NoFuel \<Rightarrow> False | Syntax e \<Rightarrow> True
     | Parsed c j \<Rightarrow> i \<le> j \<and> j \<le> length b \<and> (\<forall>w \<in> set_cmd c. word_ok b w))"

lemma fine_simps [simp]:
  "fine b i (Syntax e)" "\<not> fine b i NoFuel"
  "fine b i (Parsed c j) \<longleftrightarrow> i \<le> j \<and> j \<le> length b \<and> (\<forall>w \<in> set_cmd c. word_ok b w)"
  by (simp_all add: fine_def)

lemma fine_bind:
  assumes "fine b i m"
    and "\<And>c j. i \<le> j \<Longrightarrow> j \<le> length b \<Longrightarrow> \<forall>w \<in> set_cmd c. word_ok b w \<Longrightarrow> fine b i (f c j)"
  shows "fine b i (p_bind m f)"
  using assms by (cases m) auto

lemma fine_later: "fine b j r \<Longrightarrow> i \<le> j \<Longrightarrow> fine b i r"
  by (cases r) auto

lemma skip_word_span:
  assumes "i \<le> x" "x < skip_word b i"
  shows "\<not> is_ws (b ! x) \<and> \<not> is_sym (b ! x)"
proof -
  let ?P = "\<lambda>c. \<not> is_ws c \<and> \<not> is_sym c"
  have lt: "x - i < length (takeWhile ?P (drop i b))" using assms by (simp add: skip_word_def)
  have "takeWhile ?P (drop i b) ! (x - i) = b ! x"
    using lt assms(1) length_takeWhile_le[of ?P "drop i b"] by (simp add: takeWhile_nth)
  moreover have "takeWhile ?P (drop i b) ! (x - i) \<in> set (takeWhile ?P (drop i b))" using lt by (rule nth_mem)
  ultimately show ?thesis by (auto dest: set_takeWhileD)
qed

lemma skip_word_stop:
  assumes "skip_word b i < length b"
  shows "is_ws (b ! skip_word b i) \<or> is_sym (b ! skip_word b i)"
proof -
  let ?P = "\<lambda>c. \<not> is_ws c \<and> \<not> is_sym c" let ?n = "length (takeWhile ?P (drop i b))"
  have "?n < length (drop i b)" using assms by (simp add: skip_word_def)
  from nth_length_takeWhile[OF this] assms show ?thesis by (auto simp: skip_word_def)
qed

lemma gettoken_word:
  assumes "gettoken b i = (97, w, k)" "i \<le> length b"
  shows "word_ok b w"
proof -
  obtain q e where w: "w = (q, e)" by fastforce
  have qe: "q < e" "e \<le> length b" using gettoken_bounds[OF assms(1)[unfolded w] assms(2)] by auto
  have "e = skip_word b q"
    using assms(1) unfolding w gettoken_def Let_def by (auto split: if_splits)
  with qe skip_word_span[of q _ b] skip_word_stop[of b q] show ?thesis by (auto simp: word_ok_def w)
qed

lemma parse_backs_fine:
  "\<lbrakk>parse_backs b c i = (c', j); i \<le> length b; \<forall>w \<in> set_cmd c. word_ok b w\<rbrakk> \<Longrightarrow>
     i \<le> j \<and> j \<le> length b \<and> (\<forall>w \<in> set_cmd c'. word_ok b w)"
proof (induction b c i rule: parse_backs.induct)
  case (1 b c i)
  obtain k more where p: "peek b i [38] = (k, more)" by fastforce
  show ?case
  proof (cases more)
    case False
    with "1.prems" p peek_bounds[OF p] show ?thesis by (auto simp: parse_backs.simps[of b c i])
  next
    case True
    obtain t q e l where g: "gettoken b k = (t, (q, e), l)" by (metis prod.collapse)
    have "peek b i [38] = (k, True)" using p True by simp
    note pg = peek_gettoken[OF this g]
    have "parse_backs b (BACK c) l = (c', j)"
      using "1.prems"(1) p g True by (simp add: parse_backs.simps[of b c i])
    with "1.IH"[OF p[symmetric] refl _ g[symmetric] refl refl] True "1.prems"(3) pg show ?thesis by auto
  qed
qed

lemma parseredirs_fine:
  "i \<le> length b \<Longrightarrow> \<forall>w \<in> set_cmd c. word_ok b w \<Longrightarrow> fine b i (parseredirs b c i)"
proof (induction b c i rule: parseredirs.induct)
  case (1 b c i)
  obtain k more where p: "peek b i [60, 62] = (k, more)" by fastforce
  show ?case
  proof (cases more)
    case False
    with "1.prems" p peek_bounds[OF p] show ?thesis by (simp add: parseredirs.simps[of b c i])
  next
    case True
    obtain t q e l where g: "gettoken b k = (t, (q, e), l)" by (metis prod.collapse)
    obtain t2 w2 m where g2: "gettoken b l = (t2, w2, m)" by (metis prod.collapse)
    have "peek b i [60, 62] = (k, True)" using p True by simp
    note pg = peek_gettoken[OF this g]
    have m: "l \<le> m" "m \<le> length b"
      using gettoken_bounds[of b l t2 "fst w2" "snd w2" m] g2 pg by auto
    show ?thesis
    proof (cases "t2 = 97")
      case False
      with p g g2 True show ?thesis by (simp add: parseredirs.simps[of b c i])
    next
      case word: True
      let ?c = "if t = 60 then REDIR c w2 O_RDONLY 0 else if t = 62 then REDIR c w2 (O_WRONLY + O_CREATE + O_TRUNC) 1
        else if t = 43 then REDIR c w2 (O_WRONLY + O_CREATE) 1 else c"
      have eq: "parseredirs b c i = parseredirs b ?c m"
        using p g g2 True word by (simp add: parseredirs.simps[of b c i])
      have "word_ok b w2" using gettoken_word[of b l w2 m] g2 word pg by simp
      then have ws: "\<forall>w \<in> set_cmd ?c. word_ok b w" using "1.prems"(2) by simp
      have "fine b m (parseredirs b ?c m)"
        using "1.IH"[OF p[symmetric] refl _ g[symmetric] refl refl g2[symmetric] refl refl] True word m ws by simp
      with eq pg m show ?thesis by (auto intro: fine_later)
    qed
  qed
qed

lemma set_cmd_add_arg: "set_cmd (add_arg w c) \<subseteq> insert w (set_cmd c)"
  by (induction w c rule: add_arg.induct) auto

lemma parse_args_fine:
  "i \<le> length b \<Longrightarrow> \<forall>w \<in> set_cmd c. word_ok b w \<Longrightarrow> n = MAXARGS - argc \<Longrightarrow> argc < MAXARGS \<Longrightarrow>
     fine b i (parse_args n b argc c i)"
proof (induction n arbitrary: argc c i)
  case 0
  then show ?case by simp
next
  case (Suc n)
  obtain j stop where p: "peek b i [124, 41, 38, 59] = (j, stop)" by fastforce
  have j: "i \<le> j" "j \<le> length b" using peek_bounds[OF p Suc.prems(1)] by auto
  obtain t q e k where g: "gettoken b j = (t, (q, e), k)" by (metis prod.collapse)
  have k: "j \<le> k" "k \<le> length b" using gettoken_bounds[OF g j(2)] by auto
  show ?case
  proof (cases "stop \<or> t \<noteq> 97 \<or> argc + 1 \<ge> MAXARGS")
    case True
    then show ?thesis using p g j k Suc.prems(2) by (auto simp: Let_def)
  next
    case False
    have w: "word_ok b (q, e)" using gettoken_word[OF _ j(2)] g False by simp
    have "\<forall>w \<in> set_cmd (add_arg (q, e) c). word_ok b w"
      using set_cmd_add_arg[of "(q, e)" c] w Suc.prems(2) by auto
    note f = fine_later[OF parseredirs_fine[OF k(2) this], of i]
    have "fine b i (p_bind (parseredirs b (add_arg (q, e) c) k) (parse_args n b (argc + 1)))"
    proof (rule fine_bind)
      fix c' l
      assume "i \<le> l" "l \<le> length b" "\<forall>w \<in> set_cmd c'. word_ok b w"
      moreover have "n = MAXARGS - (argc + 1)" "argc + 1 < MAXARGS" using Suc.prems(3) False by simp_all
      ultimately show "fine b i (parse_args n b (argc + 1) c' l)" using Suc.IH[of l c' "argc + 1"] by (auto intro: fine_later)
    qed (use f j k in simp)
    then show ?thesis using p g False by (simp add: Let_def)
  qed
qed

lemma parseline_step:
  assumes "i \<le> length b" "fine b i (parsepipe n b i)"
    and "\<And>m. i < m \<Longrightarrow> m \<le> length b \<Longrightarrow> fine b m (parseline n b m)"
  shows "fine b i (parseline (Suc n) b i)"
  unfolding parseline.simps
proof (rule fine_bind)
  show "fine b i (parsepipe n b i)" by (rule assms(2))
  fix c k
  assume c: "i \<le> k" "k \<le> length b" "\<forall>w \<in> set_cmd c. word_ok b w"
  obtain c' l where pb: "parse_backs b c k = (c', l)" by fastforce
  note l = parse_backs_fine[OF pb c(2,3)]
  obtain j more where p: "peek b l [59] = (j, more)" by fastforce
  have j: "l \<le> j" "j \<le> length b" using peek_bounds[OF p] l by auto
  obtain t q e m where g: "gettoken b j = (t, (q, e), m)" by (metis prod.collapse)
  have "fine b i (p_bind (parseline n b m) (\<lambda>r i. Parsed (LIST c' r) i))" if more
  proof (rule fine_bind)
    have "peek b l [59] = (j, True)" using p that by simp
    from peek_gettoken[OF this g] have "l < m" "m \<le> length b" by auto
    with assms(3)[of m] l c show "fine b i (parseline n b m)" by (auto intro: fine_later)
  qed (use l in auto)
  then show "fine b i (let (c, i) = parse_backs b c k; (j, more) = peek b i [59]
     in if more then let (t, w, k) = gettoken b j in p_bind (parseline n b k) (\<lambda>r i. Parsed (LIST c r) i)
        else Parsed c j)"
    using pb p g c l j by (simp add: Let_def)
qed

lemma parsepipe_step:
  assumes "i \<le> length b" "fine b i (parseexec n b i)"
    and "\<And>m. i < m \<Longrightarrow> m \<le> length b \<Longrightarrow> fine b m (parsepipe n b m)"
  shows "fine b i (parsepipe (Suc n) b i)"
  unfolding parsepipe.simps
proof (rule fine_bind)
  show "fine b i (parseexec n b i)" by (rule assms(2))
  fix c l
  assume c: "i \<le> l" "l \<le> length b" "\<forall>w \<in> set_cmd c. word_ok b w"
  obtain j more where p: "peek b l [124] = (j, more)" by fastforce
  have j: "l \<le> j" "j \<le> length b" using peek_bounds[OF p] c by auto
  obtain t q e m where g: "gettoken b j = (t, (q, e), m)" by (metis prod.collapse)
  have "fine b i (p_bind (parsepipe n b m) (\<lambda>r i. Parsed (PIPE c r) i))" if more
  proof (rule fine_bind)
    have "peek b l [124] = (j, True)" using p that by simp
    from peek_gettoken[OF this g] have "l < m" "m \<le> length b" by auto
    with assms(3)[of m] c show "fine b i (parsepipe n b m)" by (auto intro: fine_later)
  qed (use c in auto)
  then show "fine b i (let (j, more) = peek b l [124]
     in if more then let (t, w, k) = gettoken b j in p_bind (parsepipe n b k) (\<lambda>r i. Parsed (PIPE c r) i)
        else Parsed c j)"
    using p g c j by (simp add: Let_def)
qed

lemma parseexec_step:
  assumes "i \<le> length b" "\<And>j. i \<le> j \<Longrightarrow> j \<le> length b \<Longrightarrow> fine b j (parseblock n b j)"
  shows "fine b i (parseexec (Suc n) b i)"
proof -
  obtain j blk where p: "peek b i [40] = (j, blk)" by fastforce
  have j: "i \<le> j" "j \<le> length b" using peek_bounds[OF p assms(1)] by auto
  have "fine b i (parseblock n b j)" using fine_later[OF assms(2)[OF j] j(1)] .
  moreover have "fine b i (p_bind (parseredirs b (EXEC []) j) (parse_args MAXARGS b 0))"
    using fine_later[OF parseredirs_fine[OF j(2)], of "EXEC []" i] j
    by (intro fine_bind) (auto intro: fine_later[OF parse_args_fine])
  ultimately show ?thesis using p by (simp add: Let_def)
qed

lemma parseblock_step:
  assumes "i \<le> length b" "\<And>k. i < k \<Longrightarrow> k \<le> length b \<Longrightarrow> fine b k (parseline n b k)"
  shows "fine b i (parseblock (Suc n) b i)"
proof -
  obtain j ok where p: "peek b i [40] = (j, ok)" by fastforce
  obtain t q e k where g: "gettoken b j = (t, (q, e), k)" by (metis prod.collapse)
  have "fine b i (p_bind (parseline n b k) (\<lambda>c i. let (j, ok) = peek b i [41]
      in if \<not> ok then Syntax ''syntax - missing )'' else let (t, w, k) = gettoken b j in parseredirs b c k))" if ok
  proof (rule fine_bind)
    have "peek b i [40] = (j, True)" using p that by simp
    from peek_gettoken[OF this g] have k: "i < k" "k \<le> length b" by auto
    then show "fine b i (parseline n b k)" using fine_later[OF assms(2)] by simp
    fix c l
    assume c: "i \<le> l" "l \<le> length b" "\<forall>w \<in> set_cmd c. word_ok b w"
    obtain j' ok' where p': "peek b l [41] = (j', ok')" by fastforce
    obtain t' q' e' k' where g': "gettoken b j' = (t', (q', e'), k')" by (metis prod.collapse)
    have "fine b i (parseredirs b c k')" if ok'
    proof -
      have "peek b l [41] = (j', True)" using p' that by simp
      from peek_gettoken[OF this g'] c show ?thesis by (intro fine_later[OF parseredirs_fine]) auto
    qed
    then show "fine b i (let (j, ok) = peek b l [41]
      in if \<not> ok then Syntax ''syntax - missing )'' else let (t, w, k) = gettoken b j in parseredirs b c k)"
      using p' g' by (simp add: Let_def)
  qed
  then show ?thesis using p g by (simp add: Let_def)
qed

text \<open>With four levels of fuel for every byte that is left, no nonterminal runs out.\<close>

lemma parser_fine:
  "i \<le> length b \<Longrightarrow>
   (4 * (length b - i) + 4 \<le> n \<longrightarrow> fine b i (parseline n b i)) \<and>
   (4 * (length b - i) + 3 \<le> n \<longrightarrow> fine b i (parsepipe n b i)) \<and>
   (4 * (length b - i) + 2 \<le> n \<longrightarrow> fine b i (parseexec n b i)) \<and>
   (4 * (length b - i) + 1 \<le> n \<longrightarrow> fine b i (parseblock n b i))"
proof (induction n arbitrary: i)
  case 0
  then show ?case by simp
next
  case (Suc n)
  have "fine b i (parseline (Suc n) b i)" if "4 * (length b - i) + 4 \<le> Suc n"
    using Suc that by (intro parseline_step) auto
  moreover have "fine b i (parsepipe (Suc n) b i)" if "4 * (length b - i) + 3 \<le> Suc n"
    using Suc that by (intro parsepipe_step) auto
  moreover have "fine b i (parseexec (Suc n) b i)" if "4 * (length b - i) + 2 \<le> Suc n"
    using Suc that by (intro parseexec_step) auto
  moreover have "fine b i (parseblock (Suc n) b i)" if "4 * (length b - i) + 1 \<le> Suc n"
    using Suc that by (intro parseblock_step) auto
  ultimately show ?case by blast
qed

lemma parseline_fine: "fine b 0 (parseline (parse_fuel b) b 0)"
  using parser_fine[of 0 b "parse_fuel b"] by (simp add: parse_fuel_def)

text \<open>
  C23: The parser of the shell always returns: every input is a command or a syntax error, and the
  recursion needs at most four levels for each byte of the input.
\<close>

theorem parsecmd_terminates: "\<exists>r. parsecmd b = Some r"
  using parseline_fine[of b] by (auto simp: parsecmd_def Let_def split: parsed.splits prod.splits)

subsection \<open>Terminated words\<close>

definition cstr_at :: "u8 list \<Rightarrow> nat \<Rightarrow> u8 list" where
  "cstr_at m q = takeWhile (\<lambda>c. c \<noteq> 0) (drop q m)"

definition span_of :: "u8 list \<Rightarrow> wordpos \<Rightarrow> u8 list" where
  "span_of b w = take (snd w - fst w) (drop (fst w) b)"

lemma nulterminate_length [simp]: "length (nulterminate c m) = length m"
proof (induction c arbitrary: m)
  case (EXEC ws)
  then show ?case by (induction ws arbitrary: m) (auto split: prod.splits)
qed auto

lemma nulterminate_nth:
  "x < length m \<Longrightarrow> nulterminate c m ! x = (if x \<in> snd ` set_cmd c then 0 else m ! x)"
proof (induction c arbitrary: m)
  case (EXEC ws)
  then show ?case by (induction ws arbitrary: m) (auto simp: nth_list_update split: prod.splits)
next
  case (REDIR c f md fd)
  then show ?case by (cases "snd f = x") auto
qed auto

text \<open>No word contains the end of another word, so every word keeps its bytes and is terminated.\<close>

lemma nulterminate_word:
  assumes words: "\<forall>w \<in> set_cmd c. word_ok b w" and zero: "0 \<notin> set b" and w: "w \<in> set_cmd c"
  shows "cstr_at (nulterminate c (b @ [0])) (fst w) = span_of b w"
proof -
  let ?m = "nulterminate c (b @ [0])" and ?q = "fst w" and ?e = "snd w"
  have ok: "?q < ?e" "?e \<le> length b" "\<And>x. ?q \<le> x \<Longrightarrow> x < ?e \<Longrightarrow> \<not> is_ws (b ! x) \<and> \<not> is_sym (b ! x)"
    using words w by (auto simp: word_ok_def)
  have inside: "?m ! x = b ! x" if "?q \<le> x" "x < ?e" for x
  proof -
    have "x \<notin> snd ` set_cmd c" using words ok(2) ok(3)[of x] that by (auto simp: word_ok_def)
    then show ?thesis using that ok(2) nulterminate_nth[of x "b @ [0]" c] by (simp add: nth_append)
  qed
  have stop: "?m ! ?e = 0" using w ok(2) nulterminate_nth[of ?e "b @ [0]" c] by simp
  have "drop ?q ?m = span_of b w @ 0 # drop (Suc ?e) ?m"
  proof (rule nth_equalityI)
    show "length (drop ?q ?m) = length (span_of b w @ 0 # drop (Suc ?e) ?m)"
      using ok(1,2) by (simp add: span_of_def)
    fix x
    assume x: "x < length (drop ?q ?m)"
    have l: "length (span_of b w) = ?e - ?q" using ok(2) by (simp add: span_of_def)
    consider "x < ?e - ?q" | "x = ?e - ?q" | "?e - ?q < x" by linarith
    then show "drop ?q ?m ! x = (span_of b w @ 0 # drop (Suc ?e) ?m) ! x"
    proof cases
      case 1
      then show ?thesis using inside[of "?q + x"] x ok(2) l by (simp add: nth_append span_of_def)
    next
      case 2
      then show ?thesis using stop x ok(1) l by (simp add: nth_append)
    next
      case 3
      define d where "d = x - Suc (?e - ?q)"
      have d: "x - (?e - ?q) = Suc d" "?q + x = Suc ?e + d" using 3 ok(1) by (simp_all add: d_def)
      have "(span_of b w @ 0 # drop (Suc ?e) ?m) ! x = drop (Suc ?e) ?m ! d" using 3 by (simp add: nth_append l d(1))
      also have "\<dots> = ?m ! (?q + x)" unfolding d(2) using x ok(2) d by (intro nth_drop) simp
      finally show ?thesis using x by simp
    qed
  qed
  moreover have "\<forall>c \<in> set (span_of b w). c \<noteq> 0"
    using zero by (auto simp: span_of_def dest!: in_set_takeD in_set_dropD)
  ultimately show ?thesis by (simp add: cstr_at_def takeWhile_append2)
qed

subsection \<open>The commands are well formed\<close>

text \<open>
  What the rest of the shell relies on: an \<^verbatim>\<open>execcmd\<close> has room for its words and the terminating null
  pointers in arrays of \<^verbatim>\<open>MAXARGS\<close>, and a redirection is one of the three that \<^verbatim>\<open>parseredirs\<close> makes.
\<close>

fun typed :: "'w cmd \<Rightarrow> bool" where
  "typed (EXEC ws) \<longleftrightarrow> length ws < MAXARGS"
| "typed (REDIR c f m fd) \<longleftrightarrow> typed c \<and>
     (m, fd) \<in> {(O_RDONLY, 0), (O_WRONLY + O_CREATE + O_TRUNC, 1), (O_WRONLY + O_CREATE, 1)}"
| "typed (PIPE l r) \<longleftrightarrow> typed l \<and> typed r"
| "typed (LIST l r) \<longleftrightarrow> typed l \<and> typed r"
| "typed (BACK c) \<longleftrightarrow> typed c"

text \<open>The number of words of the \<^verbatim>\<open>execcmd\<close> inside redirections.\<close>

fun exec_args :: "'w cmd \<Rightarrow> nat option" where
  "exec_args (EXEC ws) = Some (length ws)"
| "exec_args (REDIR c f m fd) = exec_args c"
| "exec_args c = None"

definition yields :: "(wordpos cmd \<Rightarrow> bool) \<Rightarrow> parsed \<Rightarrow> bool" where
  "yields P r \<longleftrightarrow> (case r of Parsed c j \<Rightarrow> P c | _ \<Rightarrow> True)"

lemma yields_simps [simp]: "yields P (Parsed c j) = P c" "yields P (Syntax e)" "yields P NoFuel"
  by (simp_all add: yields_def)

lemma yields_bind: "yields P m \<Longrightarrow> (\<And>c j. P c \<Longrightarrow> yields Q (f c j)) \<Longrightarrow> yields Q (p_bind m f)"
  by (cases m) auto

lemma add_arg_typed:
  "exec_args c = Some n \<Longrightarrow> Suc n < MAXARGS \<Longrightarrow> typed c \<Longrightarrow> typed (add_arg w c) \<and> exec_args (add_arg w c) = Some (Suc n)"
  by (induction w c rule: add_arg.induct) auto

lemma parse_backs_typed: "typed c \<Longrightarrow> typed (fst (parse_backs b c i))"
  by (induction b c i rule: parse_backs.induct) (subst parse_backs.simps, auto split: prod.split)

lemma parseredirs_typed:
  "typed c \<Longrightarrow> exec_args c = n \<Longrightarrow> yields (\<lambda>c'. typed c' \<and> exec_args c' = n) (parseredirs b c i)"
proof (induction b c i rule: parseredirs.induct)
  case (1 b c i)
  obtain j more tok w k tok2 w2 l
    where g: "peek b i [60, 62] = (j, more)" "gettoken b j = (tok, w, k)" "gettoken b k = (tok2, w2, l)"
    by (metis prod.collapse)
  show ?case
  proof (cases "more \<and> tok2 = 97")
    case True
    then show ?thesis
      using "1.IH"[OF g(1)[symmetric] refl _ g(2)[symmetric] refl refl g(3)[symmetric] refl refl] "1.prems" g
      by (subst parseredirs.simps) auto
  next
    case False
    then show ?thesis using "1.prems" g by (subst parseredirs.simps) auto
  qed
qed

lemma parse_args_typed:
  "typed c \<Longrightarrow> exec_args c = Some argc \<Longrightarrow> yields typed (parse_args n b argc c i)"
proof (induction n b argc c i rule: parse_args.induct)
  case (2 n b argc c i)
  obtain j stop tok w k where g: "peek b i [124, 41, 38, 59] = (j, stop)" "gettoken b j = (tok, w, k)"
    by (metis prod.collapse)
  have "yields typed (p_bind (parseredirs b (add_arg w c) k) (parse_args n b (argc + 1)))"
    if "\<not> stop" "tok = 97" "argc + 1 < MAXARGS"
    by (rule yields_bind[OF parseredirs_typed[of _ "Some (argc + 1)"]])
      (use add_arg_typed[OF "2.prems"(2) _ "2.prems"(1)] that "2.IH"[OF g(1)[symmetric] refl _ g(2)[symmetric] refl] in auto)
  then show ?case using g "2.prems" by auto
qed simp

lemma parser_typed:
  "yields typed (parseline n b i)" "yields typed (parsepipe n b i)"
  "yields typed (parseexec n b i)" "yields typed (parseblock n b i)"
proof (induction n arbitrary: i)
  case (Suc n)
  {
    case 1
    show ?case using Suc.IH parse_backs_typed
      by (auto intro!: yields_bind[OF Suc.IH(2)] yields_bind[OF Suc.IH(1)] split: prod.split) (metis fst_conv)+
  next
    case 2
    show ?case by (auto intro!: yields_bind[OF Suc.IH(3)] yields_bind[OF Suc.IH(2)] split: prod.split)
  next
    case 3
    have "yields typed (p_bind (parseredirs b (EXEC []) j) (parse_args MAXARGS b 0))" for j
      by (rule yields_bind[OF parseredirs_typed[of _ "Some 0"]]) (auto intro: parse_args_typed)
    then show ?case using Suc.IH(4) by (auto simp del: parse_args.simps split: prod.split)
  next
    case 4
    have "yields typed (parseredirs b c j)" if "typed c" for c j
      using parseredirs_typed[OF that refl, of b j] by (simp add: yields_def split: parsed.splits)
    then show ?case by (auto intro!: yields_bind[OF Suc.IH(1)] split: prod.split)
  }
qed simp_all

text \<open>
  C33: Every command that the parser accepts is well formed: each command to execute has fewer than
  \<^verbatim>\<open>MAXARGS\<close> words, so that the terminating null pointers fit into its arrays; each redirection
  has one of the three combinations of open mode and file descriptor; and every word is a non-empty
  stretch of the line without white space and symbols, which the buffer now holds as a terminated string.
\<close>

theorem parsecmd_typed:
  assumes "0 \<notin> set b" "parsecmd b = Some (Inr (c, m))"
  shows "typed c \<and> (w \<in> set_cmd c \<longrightarrow> word_ok b w \<and> cstr_at m (fst w) = span_of b w)"
proof -
  obtain i where p: "parseline (parse_fuel b) b 0 = Parsed c i" "m = nulterminate c (b @ [0])"
    using assms(2) by (auto simp: parsecmd_def Let_def split: parsed.splits prod.splits if_splits)
  have "typed c" using parser_typed(1)[of "parse_fuel b" b 0] p(1) by simp
  moreover have "\<forall>w \<in> set_cmd c. word_ok b w" using parseline_fine[of b] p(1) by simp
  ultimately show ?thesis using nulterminate_word[OF _ assms(1)] p(2) by simp
qed

text \<open>The line \<^verbatim>\<open>a>b\<close>.\<close>

theorem parsecmd_typed_witness:
  "parsecmd [97, 62, 98] = Some (Inr (REDIR (EXEC [(0, 1)]) (2, 3) 0x601 1, [97, 0, 98, 0])) \<and>
   typed (REDIR (EXEC [(0 :: nat, 1 :: nat)]) (2, 3) 0x601 1) \<and> cstr_at [97, 0, 98, 0] 2 = [98]"
proof -
  have p: "parsecmd [97, 62, 98] = Some (Inr (REDIR (EXEC [(0, 1)]) (2, 3) 0x601 1, [97, 0, 98, 0]))" by code_simp
  have "span_of [97, 62, 98] (2, 3) = [98 :: u8]" by (simp add: span_of_def)
  then show ?thesis using p parsecmd_typed[OF _ p, of "(2, 3)"] by simp
qed

end
