(* ===== verification/ShPrint.thy ===== *)
theory ShPrint
  imports Sh
begin

text \<open>
  The parser of the shell inverts printing: a command printed with blanks between words and
  parentheses around nested commands is parsed back to itself, words included.
\<close>

subsection \<open>Printing commands\<close>

fun pr_words :: "u8 list list \<Rightarrow> u8 list" where
  "pr_words [] = []"
| "pr_words [w] = w"
| "pr_words (w # ws) = w @ 32 # pr_words ws"

definition pr_op :: "int \<Rightarrow> u8 list" where
  "pr_op mode = (if mode = O_RDONLY then [60] else if mode = O_WRONLY + O_CREATE + O_TRUNC then [62] else [62, 62])"

fun pr_atom :: "'w cmd \<Rightarrow> u8 list \<Rightarrow> u8 list" where
  "pr_atom (EXEC ws) s = s"
| "pr_atom (REDIR c f m fd) s = s"
| "pr_atom c s = 40 # s @ [41]"

fun pr_line :: "u8 list cmd \<Rightarrow> u8 list" where
  "pr_line (EXEC ws) = pr_words ws"
| "pr_line (REDIR c f m fd) = 40 # pr_line c @ 41 # pr_op m @ f"
| "pr_line (PIPE l r) = pr_atom l (pr_line l) @ 124 # pr_atom r (pr_line r)"
| "pr_line (LIST l r) = pr_atom l (pr_line l) @ 59 # pr_atom r (pr_line r)"
| "pr_line (BACK c) = pr_atom c (pr_line c) @ [38]"

text \<open>Words without white space, symbols and 0 bytes; fewer than ten of them; the modes of the shell.\<close>

definition plain :: "u8 list \<Rightarrow> bool" where
  "plain w \<longleftrightarrow> w \<noteq> [] \<and> list_all (\<lambda>c. \<not> is_ws c \<and> \<not> is_sym c \<and> c \<noteq> 0) w"

fun printable :: "u8 list cmd \<Rightarrow> bool" where
  "printable (EXEC ws) = (list_all plain ws \<and> length ws < MAXARGS)"
| "printable (REDIR c f m fd) = (printable c \<and> plain f \<and>
     ((m, fd) = (O_RDONLY, 0) \<or> (m, fd) = (O_WRONLY + O_CREATE + O_TRUNC, 1) \<or> (m, fd) = (O_WRONLY + O_CREATE, 1)))"
| "printable (PIPE l r) = (printable l \<and> printable r)"
| "printable (LIST l r) = (printable l \<and> printable r)"
| "printable (BACK c) = printable c"

subsection \<open>Tokens of a printed command\<close>

lemma drop_add: "drop i b = s @ t \<Longrightarrow> drop (i + length s) b = t"
  by (metis add.commute append_eq_conv_conj drop_drop)

lemma drop_Suc_add: "drop i b = c # t \<Longrightarrow> drop (Suc i) b = t"
  using drop_add[of i b "[c]" t] by simp

lemma byte_at_drop: "byte_at b i = (case drop i b of [] \<Rightarrow> 0 | c # _ \<Rightarrow> c)"
proof (cases "i < length b")
  case True
  then show ?thesis by (simp add: byte_at_def Cons_nth_drop_Suc[symmetric])
qed (simp add: byte_at_def)

definition ready :: "u8 list \<Rightarrow> bool" where
  "ready s \<longleftrightarrow> s = [] \<or> (\<not> is_ws (hd s) \<and> hd s \<noteq> 0)"

lemma skip_ws_ready: "ready (drop i b) \<Longrightarrow> skip_ws b i = i"
  by (cases "drop i b") (auto simp: skip_ws_def ready_def)

lemma peek_ready:
  "ready (drop i b) \<Longrightarrow> peek b i toks = (i, drop i b \<noteq> [] \<and> hd (drop i b) \<in> set toks)"
  by (cases "drop i b") (auto simp: peek_def skip_ws_ready byte_at_drop ready_def)

lemma gettoken_symbol:
  assumes "drop i b = c # rest" "c \<in> {124, 40, 41, 59, 38, 60}" "ready rest"
  shows "gettoken b i = (c, (i, Suc i), Suc i)"
proof -
  have "ready (drop i b)" using assms(1,2) by (auto simp: ready_def whitespace_def)
  then show ?thesis using assms drop_Suc_add[OF assms(1)] skip_ws_ready[of "Suc i" b]
    by (auto simp: gettoken_def skip_ws_ready byte_at_drop Let_def)
qed

lemma gettoken_redirect:
  assumes "drop i b = 62 # rest" "ready rest" "rest \<noteq> []" "hd rest \<noteq> 62"
  shows "gettoken b i = (62, (i, Suc i), Suc i)"
proof -
  have r: "ready (drop i b)" using assms(1) by (auto simp: ready_def whitespace_def)
  have "byte_at b (Suc i) \<noteq> 62"
    using drop_Suc_add[OF assms(1)] assms(3,4) by (cases rest) (simp_all add: byte_at_drop)
  then show ?thesis using assms r drop_Suc_add[OF assms(1)] skip_ws_ready[of "Suc i" b]
    by (simp add: gettoken_def skip_ws_ready byte_at_drop[of b i] Let_def)
qed

lemma gettoken_append:
  assumes "drop i b = 62 # 62 # rest" "ready rest"
  shows "gettoken b i = (43, (i, i + 2), i + 2)"
proof -
  have r: "ready (drop i b)" using assms(1) by (auto simp: ready_def whitespace_def)
  have d: "drop (Suc i) b = 62 # rest" "drop (i + 2) b = rest"
    using drop_Suc_add[OF assms(1)] drop_add[of i b "[62, 62]" rest] assms(1) by simp_all
  then show ?thesis using assms r skip_ws_ready[of "i + 2" b]
    by (simp add: gettoken_def skip_ws_ready byte_at_drop Let_def)
qed

lemma gettoken_plain:
  assumes "drop i b = w @ rest" "plain w" "rest = [] \<or> is_ws (hd rest) \<or> is_sym (hd rest)"
  shows "gettoken b i = (97, (i, i + length w), skip_ws b (i + length w))" "span_of b (i, i + length w) = w"
proof -
  let ?P = "\<lambda>c. \<not> is_ws c \<and> \<not> is_sym c"
  obtain c w' where w: "w = c # w'" using assms(2) by (cases w) (auto simp: plain_def)
  have c: "\<not> is_ws c" "\<not> is_sym c" "c \<noteq> 0" using assms(2) w by (auto simp: plain_def)
  have s: "skip_ws b i = i" using assms(1) w c by (intro skip_ws_ready) (simp add: ready_def)
  have "takeWhile ?P (w @ rest) = w"
    using assms(2,3) by (cases rest) (auto simp: plain_def list_all_iff takeWhile_append2)
  then have e: "skip_word b i = i + length w" by (simp add: skip_word_def assms(1))
  have "byte_at b i = c" using assms(1) w by (simp add: byte_at_drop)
  then show "gettoken b i = (97, (i, i + length w), skip_ws b (i + length w))"
    using s e c by (auto simp: gettoken_def Let_def symbols_def)
  show "span_of b (i, i + length w) = w" using assms(1) by (simp add: span_of_def)
qed

subsection \<open>Parsing a printed command\<close>

text \<open>What may follow a command: nothing, or a symbol other than an opening one.\<close>

definition follow :: "u8 list \<Rightarrow> bool" where
  "follow s \<longleftrightarrow> s = [] \<or> hd s \<in> {41, 124, 38, 59}"

lemma follow_ready: "follow s \<Longrightarrow> ready s"
  by (auto simp: follow_def ready_def whitespace_def)

lemma follow_stops: "follow s \<Longrightarrow> s = [] \<or> is_ws (hd s) \<or> is_sym (hd s)"
  by (auto simp: follow_def symbols_def)

lemma plain_ready: "plain w \<Longrightarrow> ready (w @ s)"
  by (cases w) (auto simp: plain_def ready_def)

lemma pr_words_ready: "list_all plain ws \<Longrightarrow> ready s \<Longrightarrow> ready (pr_words ws @ s)"
  by (cases ws rule: pr_words.cases) (auto intro: plain_ready)

lemma pr_line_ready: "printable c \<Longrightarrow> ready s \<Longrightarrow> ready (pr_line c @ s)"
  and pr_atom_ready: "printable c \<Longrightarrow> ready s \<Longrightarrow> ready (pr_atom c (pr_line c) @ s)"
proof (induction c arbitrary: s)
  case (EXEC ws)
  { case 1 then show ?case by (simp add: pr_words_ready) next case 2 then show ?case by (simp add: pr_words_ready) }
next
  case (REDIR c f m fd)
  { case 1 then show ?case by (simp add: ready_def whitespace_def) next case 2 then show ?case by (simp add: ready_def whitespace_def) }
next
  case (PIPE l r)
  have r: "ready (124 # t)" for t by (simp add: ready_def whitespace_def)
  { case 1 then show ?case using PIPE(2)[OF _ r] by simp next case 2 then show ?case by (simp add: ready_def whitespace_def) }
next
  case (LIST l r)
  have r: "ready (59 # t)" for t by (simp add: ready_def whitespace_def)
  { case 1 then show ?case using LIST(2)[OF _ r] by simp next case 2 then show ?case by (simp add: ready_def whitespace_def) }
next
  case (BACK c)
  have r: "ready (38 # t)" for t by (simp add: ready_def whitespace_def)
  { case 1 then show ?case using BACK(2)[OF _ r] by simp next case 2 then show ?case by (simp add: ready_def whitespace_def) }
qed

lemma peek_at: "drop i b = s \<Longrightarrow> ready s \<Longrightarrow> peek b i toks = (i, s \<noteq> [] \<and> hd s \<in> set toks)"
  using peek_ready[of i b toks] by simp

lemma parseredirs_none:
  assumes "ready (drop i b)" "drop i b = [] \<or> hd (drop i b) \<notin> {60, 62}"
  shows "parseredirs b c i = Parsed c i"
  using assms peek_ready[OF assms(1)] by (subst parseredirs.simps) auto

lemma parse_args_none:
  assumes "follow (drop i b)"
  shows "parse_args (Suc n) b argc c i = Parsed c i"
proof (cases "drop i b")
  case Nil
  have "gettoken b i = (0, (i, i), i)"
    using Nil skip_ws_ready[of i b] by (simp add: gettoken_def ready_def byte_at_drop Let_def)
  with Nil peek_ready[of i b] show ?thesis by (simp add: ready_def)
next
  case (Cons x xs)
  with assms peek_ready[OF follow_ready[OF assms]] show ?thesis by (auto simp: follow_def)
qed

text \<open>The words of a simple command.\<close>

lemma parse_args_words:
  assumes "drop i b = pr_words ws @ post" "list_all plain ws" "follow post"
    and "argc + length ws < MAXARGS" "n = MAXARGS - argc"
  shows "\<exists>ps. parse_args n b argc (EXEC vs) i = Parsed (EXEC (vs @ ps)) (i + length (pr_words ws)) \<and> map (span_of b) ps = ws"
  using assms
proof (induction ws arbitrary: i argc n vs)
  case Nil
  then have "0 < n" by simp
  then obtain n' where "n = Suc n'" by (cases n) auto
  with Nil parse_args_none[of i b n' argc "EXEC vs"] show ?case by simp
next
  case (Cons w ws)
  have "0 < n" using Cons.prems(4,5) by simp
  then obtain n' where n: "n = Suc n'" by (cases n) auto
  have w: "plain w" "list_all plain ws" using Cons.prems(2) by simp_all
  define gap where "gap = (if ws = [] then [] else [32 :: u8])"
  have d: "drop i b = w @ gap @ pr_words ws @ post" and len: "length (pr_words (w # ws)) = length w + length gap + length (pr_words ws)"
    using Cons.prems(1) by (cases ws; simp add: gap_def)+
  have d2: "drop (i + length w + length gap) b = pr_words ws @ post"
    using drop_add[of i b "w @ gap" "pr_words ws @ post"] d by (simp add: add.assoc)
  have rdy: "ready (pr_words ws @ post)" by (rule pr_words_ready[OF w(2) follow_ready[OF Cons.prems(3)]])
  have ends: "gap @ pr_words ws @ post = [] \<or> is_ws (hd (gap @ pr_words ws @ post)) \<or> is_sym (hd (gap @ pr_words ws @ post))"
    using follow_stops[OF Cons.prems(3)] by (auto simp: gap_def whitespace_def)
  have skip: "skip_ws b (i + length w) = i + length w + length gap"
  proof (cases "ws = []")
    case True
    with d2 rdy skip_ws_ready[of "i + length w" b] show ?thesis by (simp add: gap_def)
  next
    case False
    have "drop (i + length w) b = 32 # pr_words ws @ post"
      using drop_add[OF d] False by (simp add: gap_def)
    then have "skip_ws b (i + length w) = skip_ws b (Suc (i + length w))"
      using drop_Suc_add by (fastforce simp: skip_ws_def whitespace_def)
    then show ?thesis using skip_ws_ready[of "Suc (i + length w)" b] d2 rdy False by (simp add: gap_def)
  qed
  note g = gettoken_plain[OF d w(1) ends, unfolded skip]
  have pk: "peek b i [124, 41, 38, 59] = (i, False)"
    using peek_ready[of i b] plain_ready[OF w(1)] d w(1) by (cases w) (auto simp: plain_def symbols_def)
  have notred: "pr_words ws @ post = [] \<or> hd (pr_words ws @ post) \<notin> {60, 62}"
  proof (cases ws)
    case Nil
    then show ?thesis using Cons.prems(3) by (auto simp: follow_def)
  next
    case (Cons v vs')
    then show ?thesis using w(2) by (cases v; cases vs') (auto simp: plain_def symbols_def)
  qed
  have red: "parseredirs b c (i + length w + length gap) = Parsed c (i + length w + length gap)" for c
    using d2 rdy notred by (intro parseredirs_none) simp_all
  have n': "n' = MAXARGS - (argc + 1)" using n Cons.prems(5) by simp
  obtain ps where ps: "parse_args n' b (argc + 1) (EXEC (vs @ [(i, i + length w)])) (i + length w + length gap) =
      Parsed (EXEC ((vs @ [(i, i + length w)]) @ ps)) (i + length w + length gap + length (pr_words ws))"
      "map (span_of b) ps = ws"
    using Cons.IH[OF d2 w(2) Cons.prems(3) _ n', of "vs @ [(i, i + length w)]"] Cons.prems(4) by auto
  have "parse_args n b argc (EXEC vs) i = Parsed (EXEC (vs @ (i, i + length w) # ps)) (i + length (pr_words (w # ws)))"
    using n pk g(1) red ps(1) Cons.prems(4) len by (simp add: Let_def add.assoc)
  then show ?case using ps(2) g(2) by (intro exI[of _ "(i, i + length w) # ps"]) simp
qed

text \<open>A result of the parser: a command with the given words, at the given position.\<close>

definition gives :: "u8 list \<Rightarrow> parsed \<Rightarrow> u8 list cmd \<Rightarrow> nat \<Rightarrow> bool" where
  "gives b r c j \<longleftrightarrow> (\<exists>p. r = Parsed p j \<and> map_cmd (span_of b) p = c)"

lemma givesE: "gives b r c j \<Longrightarrow> (\<And>p. r = Parsed p j \<Longrightarrow> map_cmd (span_of b) p = c \<Longrightarrow> P) \<Longrightarrow> P"
  by (auto simp: gives_def)

lemma parseexec_words:
  assumes "drop i b = pr_words ws @ post" "list_all plain ws" "follow post" "length ws < MAXARGS"
  shows "gives b (parseexec (Suc n) b i) (EXEC ws) (i + length (pr_words ws))"
proof -
  have rdy: "ready (drop i b)" using pr_words_ready[OF assms(2) follow_ready[OF assms(3)]] assms(1) by simp
  have hd: "drop i b = [] \<or> hd (drop i b) \<notin> {40, 60, 62}"
    using assms(1-3) by (cases ws rule: pr_words.cases) (auto simp: follow_def plain_def symbols_def neq_Nil_conv)
  have "peek b i [40] = (i, False)" using peek_ready[OF rdy] hd by auto
  moreover have "parseredirs b (EXEC []) i = Parsed (EXEC []) i" using hd by (intro parseredirs_none[OF rdy]) auto
  moreover obtain ps where "parse_args MAXARGS b 0 (EXEC []) i = Parsed (EXEC ps) (i + length (pr_words ws))"
      "map (span_of b) ps = ws"
    using parse_args_words[OF assms(1-3), of 0 MAXARGS "[]"] assms(4) by auto
  ultimately show ?thesis by (simp add: gives_def)
qed

text \<open>After a command in parentheses: the closing one, and at most one redirection.\<close>

lemma parseblock_gives:
  assumes "drop i b = 40 # s @ 41 # rest" "ready (s @ 41 # rest)" "ready rest"
    and "gives b (parseline n b (Suc i)) c (Suc i + length s)"
  shows "\<exists>p. map_cmd (span_of b) p = c \<and> parseexec (Suc (Suc n)) b i = parseredirs b p (i + length s + 2)"
proof -
  obtain p where p: "parseline n b (Suc i) = Parsed p (Suc i + length s)" "map_cmd (span_of b) p = c"
    using assms(4) by (rule givesE)
  have r0: "ready (drop i b)" using assms(1) by (simp add: ready_def whitespace_def)
  have d1: "drop (Suc i) b = s @ 41 # rest" by (rule drop_Suc_add[OF assms(1)])
  have d2: "drop (Suc i + length s) b = 41 # rest" by (rule drop_add[OF d1])
  have r2: "ready (drop (Suc i + length s) b)" using d2 by (simp add: ready_def whitespace_def)
  have pk: "peek b i [40] = (i, True)" using peek_ready[OF r0] assms(1) by simp
  have g: "gettoken b i = (40, (i, Suc i), Suc i)" by (rule gettoken_symbol[OF assms(1) _ assms(2)]) simp
  have pk2: "peek b (Suc i + length s) [41] = (Suc i + length s, True)" using peek_at[OF d2, of "[41]"] r2 d2 by simp
  have g2: "gettoken b (Suc i + length s) = (41, (Suc i + length s, Suc (Suc i + length s)), Suc (Suc i + length s))"
    by (rule gettoken_symbol[OF d2 _ assms(3)]) simp
  have "parseexec (Suc (Suc n)) b i = parseredirs b p (i + length s + 2)"
    using pk g pk2 g2 p(1) by (simp add: Let_def)
  then show ?thesis using p(2) by blast
qed

lemma parseredirs_one:
  assumes "drop i b = pr_op m @ f @ post" "plain f" "follow post"
    and "(m, fd) = (O_RDONLY, 0) \<or> (m, fd) = (O_WRONLY + O_CREATE + O_TRUNC, 1) \<or> (m, fd) = (O_WRONLY + O_CREATE, 1)"
    and "map_cmd (span_of b) p = c"
  shows "gives b (parseredirs b p i) (REDIR c f m fd) (i + length (pr_op m) + length f)"
proof -
  let ?k = "i + length (pr_op m)"
  have rf: "ready (f @ post)" by (rule plain_ready[OF assms(2)])
  have d: "drop ?k b = f @ post" by (rule drop_add[OF assms(1)])
  have hdf: "f @ post \<noteq> []" "hd (f @ post) \<noteq> 62" using assms(2) by (cases f; auto simp: plain_def symbols_def)+
  have "ready (drop i b)" using assms(1) by (auto simp: pr_op_def ready_def whitespace_def)
  then have pk: "peek b i [60, 62] = (i, True)"
    using peek_ready[of i b] assms(1) by (auto simp: pr_op_def)
  have g: "gettoken b i = ((if m = O_RDONLY then 60 else if m = O_WRONLY + O_CREATE + O_TRUNC then 62 else 43), (i, ?k), ?k)"
    using assms(1) gettoken_symbol[of i b 60 "f @ post"] gettoken_redirect[of i b "f @ post"] gettoken_append[of i b "f @ post"] rf hdf
    by (simp add: pr_op_def)
  have dp: "drop (?k + length f) b = post" by (rule drop_add[OF d])
  have sk: "skip_ws b (?k + length f) = ?k + length f"
    using skip_ws_ready[of "?k + length f" b] dp follow_ready[OF assms(3)] by simp
  note w = gettoken_plain[OF d assms(2) follow_stops[OF assms(3)], unfolded sk]
  have rest: "parseredirs b q (?k + length f) = Parsed q (?k + length f)" for q
    using dp follow_ready[OF assms(3)] assms(3) by (intro parseredirs_none) (auto simp: follow_def)
  have "parseredirs b p i = Parsed (REDIR p (?k, ?k + length f) m fd) (?k + length f)"
    using pk g w(1) rest assms(4) by (subst parseredirs.simps) auto
  then show ?thesis using w(2) assms(5) by (simp add: gives_def)
qed

subsection \<open>The operators\<close>

lemma parse_backs_none:
  "drop i b = s \<Longrightarrow> ready s \<Longrightarrow> s = [] \<or> hd s \<noteq> 38 \<Longrightarrow> parse_backs b c i = (c, i)"
  by (subst parse_backs.simps) (auto simp: peek_at)

lemma parse_backs_one:
  assumes "drop i b = 38 # s" "ready s" "s = [] \<or> hd s \<noteq> 38"
  shows "parse_backs b c i = (BACK c, Suc i)"
proof -
  have "peek b i [38] = (i, True)" using peek_at[OF assms(1), of "[38]"] by (simp add: ready_def whitespace_def)
  moreover have "gettoken b i = (38, (i, Suc i), Suc i)" by (rule gettoken_symbol[OF assms(1) _ assms(2)]) simp
  ultimately show ?thesis
    using parse_backs_none[OF drop_Suc_add[OF assms(1)] assms(2,3)] by (subst parse_backs.simps) simp
qed

lemma parsepipe_one:
  assumes "gives b (parseexec n b i) c j" "drop j b = s" "ready s" "s = [] \<or> hd s \<noteq> 124"
  shows "gives b (parsepipe (Suc n) b i) c j"
  using assms(1) peek_at[OF assms(2,3), of "[124]"] assms(4) by (auto simp: gives_def)

lemma parsepipe_two:
  assumes "gives b (parseexec n b i) l j" "drop j b = 124 # s" "ready s"
    and "gives b (parsepipe n b (Suc j)) r k"
  shows "gives b (parsepipe (Suc n) b i) (PIPE l r) k"
proof -
  have "peek b j [124] = (j, True)" using peek_at[OF assms(2), of "[124]"] by (simp add: ready_def whitespace_def)
  moreover have "gettoken b j = (124, (j, Suc j), Suc j)" by (rule gettoken_symbol[OF assms(2) _ assms(3)]) simp
  ultimately show ?thesis using assms(1,4) by (auto simp: gives_def)
qed

lemma parseline_end:
  assumes "gives b (parsepipe n b i) c j" "drop j b = s" "s = [] \<or> hd s = 41"
  shows "gives b (parseline (Suc n) b i) c j"
proof -
  have r: "ready s" using assms(3) by (auto simp: ready_def whitespace_def)
  have "parse_backs b p j = (p, j)" for p by (rule parse_backs_none[OF assms(2) r]) (use assms(3) in auto)
  moreover have "peek b j [59] = (j, False)" using peek_at[OF assms(2) r, of "[59]"] assms(3) by auto
  ultimately show ?thesis using assms(1) by (auto simp: gives_def)
qed

lemma parseline_back:
  assumes "gives b (parsepipe n b i) c j" "drop j b = 38 # s" "s = [] \<or> hd s = 41"
  shows "gives b (parseline (Suc n) b i) (BACK c) (Suc j)"
proof -
  have r: "ready s" using assms(3) by (auto simp: ready_def whitespace_def)
  have "parse_backs b p j = (BACK p, Suc j)" for p by (rule parse_backs_one[OF assms(2) r]) (use assms(3) in auto)
  moreover have "peek b (Suc j) [59] = (Suc j, False)"
    using peek_at[OF drop_Suc_add[OF assms(2)] r, of "[59]"] assms(3) by auto
  ultimately show ?thesis using assms(1) by (auto simp: gives_def)
qed

lemma parseline_list:
  assumes "gives b (parsepipe n b i) l j" "drop j b = 59 # s" "ready s"
    and "gives b (parseline n b (Suc j)) r k"
  shows "gives b (parseline (Suc n) b i) (LIST l r) k"
proof -
  have r: "ready (59 # s)" by (simp add: ready_def whitespace_def)
  have "parse_backs b p j = (p, j)" for p by (rule parse_backs_none[OF assms(2) r]) simp
  moreover have "peek b j [59] = (j, True)" using peek_at[OF assms(2) r, of "[59]"] by simp
  moreover have "gettoken b j = (59, (j, Suc j), Suc j)" by (rule gettoken_symbol[OF assms(2) _ assms(3)]) simp
  ultimately show ?thesis using assms(1,4) by (auto simp: gives_def)
qed

subsection \<open>Round trip\<close>

text \<open>The two levels at which a command is printed, for every position and enough fuel.\<close>

definition line_ok :: "u8 list \<Rightarrow> u8 list cmd \<Rightarrow> bool" where
  "line_ok b c \<longleftrightarrow> (\<forall>i post n. drop i b = pr_line c @ post \<longrightarrow> post = [] \<or> hd post = 41 \<longrightarrow>
     4 * length (drop i b) + 4 \<le> n \<longrightarrow> gives b (parseline n b i) c (i + length (pr_line c)))"

definition atom_ok :: "u8 list \<Rightarrow> u8 list cmd \<Rightarrow> bool" where
  "atom_ok b c \<longleftrightarrow> (\<forall>i post n. drop i b = pr_atom c (pr_line c) @ post \<longrightarrow> follow post \<longrightarrow>
     4 * length (drop i b) + 2 \<le> n \<longrightarrow> gives b (parseexec n b i) c (i + length (pr_atom c (pr_line c))))"

lemma atom_okD:
  "atom_ok b c \<Longrightarrow> drop i b = pr_atom c (pr_line c) @ post \<Longrightarrow> follow post \<Longrightarrow> 4 * length (drop i b) + 2 \<le> n \<Longrightarrow>
     gives b (parseexec n b i) c (i + length (pr_atom c (pr_line c)))"
  by (simp add: atom_ok_def)

text \<open>A command in parentheses.\<close>

lemma block_ok:
  assumes "line_ok b c" "printable c" "drop i b = 40 # pr_line c @ 41 # rest" "ready rest" "4 * length (drop i b) + 2 \<le> n"
  shows "\<exists>p. map_cmd (span_of b) p = c \<and> parseexec n b i = parseredirs b p (i + length (pr_line c) + 2)"
proof -
  have d: "drop (Suc i) b = pr_line c @ 41 # rest" by (rule drop_Suc_add[OF assms(3)])
  have "length (drop i b) = Suc (length (drop (Suc i) b))" using assms(3) d by simp
  then obtain n' where n: "n = Suc (Suc n')" "4 * length (drop (Suc i) b) + 4 \<le> n'"
    using assms(5) by (cases n; cases "n - 1") auto
  have "gives b (parseline n' b (Suc i)) c (Suc i + length (pr_line c))"
    using assms(1) d n(2) unfolding line_ok_def by (metis list.sel(1))
  from parseblock_gives[OF assms(3) pr_line_ready[OF assms(2)] assms(4) this] n(1) show ?thesis
    by (simp add: ready_def whitespace_def)
qed

lemma paren_ok:
  assumes "line_ok b c" "printable c" "pr_atom c (pr_line c) = 40 # pr_line c @ [41]"
  shows "atom_ok b c"
  unfolding atom_ok_def
proof (intro allI impI)
  fix i post n
  assume d: "drop i b = pr_atom c (pr_line c) @ post" and f: "follow post" and n: "4 * length (drop i b) + 2 \<le> n"
  have d': "drop i b = 40 # pr_line c @ 41 # post" using d assms(3) by simp
  obtain p where p: "map_cmd (span_of b) p = c" "parseexec n b i = parseredirs b p (i + length (pr_line c) + 2)"
    using block_ok[OF assms(1,2) d' follow_ready[OF f] n] by blast
  have "drop (i + length (pr_line c) + 2) b = post"
    using drop_add[of i b "40 # pr_line c @ [41]" post] d' by (simp add: add.assoc)
  then have "parseredirs b p (i + length (pr_line c) + 2) = Parsed p (i + length (pr_line c) + 2)"
    using f follow_ready[OF f] by (intro parseredirs_none) (auto simp: follow_def)
  then show "gives b (parseexec n b i) c (i + length (pr_atom c (pr_line c)))"
    using p assms(3) by (simp add: gives_def)
qed

text \<open>A command that prints the same on both levels.\<close>

lemma line_from_atom:
  assumes "atom_ok b c" "pr_atom c (pr_line c) = pr_line c"
  shows "line_ok b c"
  unfolding line_ok_def
proof (intro allI impI)
  fix i post n
  assume d: "drop i b = pr_line c @ post" and p: "post = [] \<or> hd post = 41" and n: "4 * length (drop i b) + 4 \<le> n"
  obtain n' where n': "n = Suc (Suc n')" "4 * length (drop i b) + 2 \<le> n'" using n by (cases n; cases "n - 1") auto
  have f: "follow post" using p by (auto simp: follow_def)
  have j: "drop (i + length (pr_line c)) b = post" by (rule drop_add[OF d])
  have "gives b (parseexec n' b i) c (i + length (pr_line c))" using atom_okD[OF assms(1) _ f n'(2)] d assms(2) by simp
  then have "gives b (parsepipe (Suc n') b i) c (i + length (pr_line c))"
    by (rule parsepipe_one[OF _ j follow_ready[OF f]]) (use p in auto)
  then show "gives b (parseline n b i) c (i + length (pr_line c))" unfolding n'(1) by (rule parseline_end[OF _ j p])
qed

lemma exec_atom_ok:
  assumes "list_all plain ws" "length ws < MAXARGS"
  shows "atom_ok b (EXEC ws)"
  unfolding atom_ok_def
proof (intro allI impI)
  fix i post n
  assume d: "drop i b = pr_atom (EXEC ws) (pr_line (EXEC ws)) @ post" "follow post" and n: "4 * length (drop i b) + 2 \<le> n"
  obtain n' where "n = Suc n'" using n by (cases n) auto
  with parseexec_words[OF _ assms(1) d(2) assms(2), of i b n'] d(1)
  show "gives b (parseexec n b i) (EXEC ws) (i + length (pr_atom (EXEC ws) (pr_line (EXEC ws))))" by simp
qed

lemma redir_atom_ok:
  assumes "line_ok b c" "printable (REDIR c f m fd)"
  shows "atom_ok b (REDIR c f m fd)"
  unfolding atom_ok_def
proof (intro allI impI)
  fix i post n
  assume d: "drop i b = pr_atom (REDIR c f m fd) (pr_line (REDIR c f m fd)) @ post" and f: "follow post"
    and n: "4 * length (drop i b) + 2 \<le> n"
  have d': "drop i b = 40 # pr_line c @ 41 # (pr_op m @ f @ post)" using d by simp
  have r: "ready (pr_op m @ f @ post)" by (simp add: pr_op_def ready_def whitespace_def)
  obtain p where p: "map_cmd (span_of b) p = c" "parseexec n b i = parseredirs b p (i + length (pr_line c) + 2)"
    using block_ok[OF assms(1) _ d' r n] assms(2) by auto
  have "drop (i + length (pr_line c) + 2) b = pr_op m @ f @ post"
    using drop_add[of i b "40 # pr_line c @ [41]" "pr_op m @ f @ post"] d' by (simp add: add.assoc)
  from parseredirs_one[OF this _ f _ p(1), of fd] assms(2) p(2)
  show "gives b (parseexec n b i) (REDIR c f m fd) (i + length (pr_atom (REDIR c f m fd) (pr_line (REDIR c f m fd))))"
    by (simp add: add.assoc)
qed

text \<open>A single command in a pipe or a list, followed by one of the operators.\<close>

lemma pipe_gives:
  assumes "atom_ok b c" "drop i b = pr_atom c (pr_line c) @ post" "follow post" "post = [] \<or> hd post \<noteq> 124"
    "4 * length (drop i b) + 3 \<le> n"
  shows "gives b (parsepipe n b i) c (i + length (pr_atom c (pr_line c)))"
proof -
  obtain n' where n: "n = Suc n'" "4 * length (drop i b) + 2 \<le> n'" using assms(5) by (cases n) auto
  have "gives b (parseexec n' b i) c (i + length (pr_atom c (pr_line c)))" by (rule atom_okD[OF assms(1-3) n(2)])
  then show ?thesis unfolding n(1)
    by (rule parsepipe_one[OF _ drop_add[OF assms(2)] follow_ready[OF assms(3)] assms(4)])
qed

lemma pipe_line_ok:
  assumes "atom_ok b l" "atom_ok b r" "printable r"
  shows "line_ok b (PIPE l r)"
  unfolding line_ok_def
proof (intro allI impI)
  fix i post n
  let ?l = "pr_atom l (pr_line l)" and ?r = "pr_atom r (pr_line r)"
  let ?j = "i + length ?l"
  assume d: "drop i b = pr_line (PIPE l r) @ post" and p: "post = [] \<or> hd post = 41" and n: "4 * length (drop i b) + 4 \<le> n"
  obtain n' where n': "n = Suc (Suc n')" "4 * length (drop i b) + 2 \<le> n'" using n by (cases n; cases "n - 1") auto
  have f: "follow post" using p by (auto simp: follow_def)
  have d0: "drop i b = ?l @ 124 # ?r @ post" using d by simp
  have dj: "drop ?j b = 124 # ?r @ post" by (rule drop_add[OF d0])
  have dk: "drop (Suc ?j) b = ?r @ post" by (rule drop_Suc_add[OF dj])
  have l: "gives b (parseexec n' b i) l ?j" by (rule atom_okD[OF assms(1) d0 _ n'(2)]) (simp add: follow_def)
  have "gives b (parsepipe n' b (Suc ?j)) r (Suc ?j + length ?r)"
    by (rule pipe_gives[OF assms(2) dk f]) (use p n'(2) d0 dk in auto)
  from parsepipe_two[OF l dj pr_atom_ready[OF assms(3) follow_ready[OF f]] this]
  have "gives b (parsepipe (Suc n') b i) (PIPE l r) (Suc ?j + length ?r)" .
  moreover have "drop (Suc ?j + length ?r) b = post" by (rule drop_add[OF dk])
  ultimately have "gives b (parseline n b i) (PIPE l r) (Suc ?j + length ?r)" unfolding n'(1) by (rule parseline_end[OF _ _ p])
  then show "gives b (parseline n b i) (PIPE l r) (i + length (pr_line (PIPE l r)))" by (simp add: add.assoc)
qed

lemma list_line_ok:
  assumes "atom_ok b l" "atom_ok b r" "printable r"
  shows "line_ok b (LIST l r)"
  unfolding line_ok_def
proof (intro allI impI)
  fix i post n
  let ?l = "pr_atom l (pr_line l)" and ?r = "pr_atom r (pr_line r)"
  let ?j = "i + length ?l"
  assume d: "drop i b = pr_line (LIST l r) @ post" and p: "post = [] \<or> hd post = 41" and n: "4 * length (drop i b) + 4 \<le> n"
  have f: "follow post" using p by (auto simp: follow_def)
  have d0: "drop i b = ?l @ 59 # ?r @ post" using d by simp
  have dj: "drop ?j b = 59 # ?r @ post" by (rule drop_add[OF d0])
  have dk: "drop (Suc ?j) b = ?r @ post" by (rule drop_Suc_add[OF dj])
  obtain n' where n': "n = Suc (Suc n')" "4 * length (drop i b) + 2 \<le> n'" using n by (cases n; cases "n - 1") auto
  have l: "gives b (parsepipe (Suc n') b i) l ?j"
    by (rule pipe_gives[OF assms(1) d0]) (use n'(2) in \<open>auto simp: follow_def\<close>)
  have r: "gives b (parsepipe n' b (Suc ?j)) r (Suc ?j + length ?r)"
    by (rule pipe_gives[OF assms(2) dk f]) (use p n'(2) d0 dk in auto)
  have "gives b (parseline (Suc n') b (Suc ?j)) r (Suc ?j + length ?r)" by (rule parseline_end[OF r drop_add[OF dk] p])
  from parseline_list[OF l dj pr_atom_ready[OF assms(3) follow_ready[OF f]] this]
  show "gives b (parseline n b i) (LIST l r) (i + length (pr_line (LIST l r)))" unfolding n'(1) by (simp add: add.assoc)
qed

lemma back_line_ok:
  assumes "atom_ok b c"
  shows "line_ok b (BACK c)"
  unfolding line_ok_def
proof (intro allI impI)
  fix i post n
  let ?c = "pr_atom c (pr_line c)"
  assume d: "drop i b = pr_line (BACK c) @ post" and p: "post = [] \<or> hd post = 41" and n: "4 * length (drop i b) + 4 \<le> n"
  have d0: "drop i b = ?c @ 38 # post" using d by simp
  obtain n' where n': "n = Suc n'" "4 * length (drop i b) + 3 \<le> n'" using n by (cases n) auto
  have "gives b (parsepipe n' b i) c (i + length ?c)"
    by (rule pipe_gives[OF assms d0]) (use n'(2) in \<open>auto simp: follow_def\<close>)
  from parseline_back[OF this drop_add[OF d0] p]
  show "gives b (parseline n b i) (BACK c) (i + length (pr_line (BACK c)))" unfolding n'(1) by simp
qed

lemma printed_ok: "printable c \<Longrightarrow> line_ok b c \<and> atom_ok b c"
proof (induction c)
  case (EXEC ws)
  then have "atom_ok b (EXEC ws)" by (intro exec_atom_ok) simp_all
  with line_from_atom[OF this] show ?case by simp
next
  case (REDIR c f m fd)
  then have "atom_ok b (REDIR c f m fd)" by (intro redir_atom_ok) simp_all
  with line_from_atom[OF this] show ?case by simp
next
  case (PIPE l r)
  then have "line_ok b (PIPE l r)" by (intro pipe_line_ok) simp_all
  with paren_ok[OF this PIPE.prems] show ?case by simp
next
  case (LIST l r)
  then have "line_ok b (LIST l r)" by (intro list_line_ok) simp_all
  with paren_ok[OF this LIST.prems] show ?case by simp
next
  case (BACK c)
  then have "line_ok b (BACK c)" by (intro back_line_ok) simp_all
  with paren_ok[OF this BACK.prems] show ?case by simp
qed

lemma pr_line_no_zero: "printable c \<Longrightarrow> 0 \<notin> set (pr_line c) \<and> 0 \<notin> set (pr_atom c (pr_line c))"
proof (induction c)
  case (EXEC ws)
  then have "list_all plain ws" by simp
  then have "0 \<notin> set (pr_words ws)" by (induction ws rule: pr_words.induct) (auto simp: plain_def list_all_iff)
  then show ?case by simp
qed (auto simp: plain_def list_all_iff pr_op_def)

text \<open>
  C22: Parsing inverts printing. Every command whose words are plain and whose simple commands have
  fewer than ten words is printed to a line that \<^verbatim>\<open>parsecmd\<close> turns back into the same command; the
  words are read, as \<^verbatim>\<open>runcmd\<close> does, up to the 0 bytes that \<^verbatim>\<open>nulterminate\<close> wrote into the line.
\<close>

theorem parsecmd_prints:
  assumes "printable c"
  shows "\<exists>p m. parsecmd (pr_line c) = Some (Inr (p, m)) \<and> map_cmd (\<lambda>w. cstr_at m (fst w)) p = c"
proof -
  let ?b = "pr_line c"
  have "line_ok ?b c" using printed_ok[OF assms] by blast
  then have "gives ?b (parseline (parse_fuel ?b) ?b 0) c (0 + length ?b)"
    unfolding line_ok_def parse_fuel_def by (metis append_Nil2 drop0 order_refl)
  then obtain p where p: "parseline (parse_fuel ?b) ?b 0 = Parsed p (length ?b)" "map_cmd (span_of ?b) p = c"
    by (auto simp: gives_def)
  have words: "\<forall>w \<in> set_cmd p. word_ok ?b w" using parseline_fine[of ?b] p(1) by simp
  let ?m = "nulterminate p (?b @ [0])"
  have "map_cmd (\<lambda>w. cstr_at ?m (fst w)) p = map_cmd (span_of ?b) p"
    using nulterminate_word[OF words] pr_line_no_zero[OF assms] by (intro cmd.map_cong0) auto
  moreover have "parsecmd ?b = Some (Inr (p, ?m))"
    using p(1) by (simp add: parsecmd_def peek_def skip_ws_def Let_def)
  ultimately show ?thesis using p(2) by (intro exI[of _ p] exI[of _ ?m]) simp
qed

text \<open>\<^verbatim>\<open>(a b)>f|c&\<close> as an example: the ampersand applies to a pipe, so the pipe is put in parentheses.\<close>

definition sh_example :: "u8 list cmd" where
  "sh_example = BACK (PIPE (REDIR (EXEC [[97], [98]]) [102] 0x601 1) (EXEC [[99]]))"

theorem parsecmd_prints_witness:
  "pr_line sh_example = [40, 40, 97, 32, 98, 41, 62, 102, 124, 99, 41, 38] \<and>
   (\<exists>p m. parsecmd (pr_line sh_example) = Some (Inr (p, m)) \<and> map_cmd (\<lambda>w. cstr_at m (fst w)) p = sh_example)"
proof
  show "pr_line sh_example = [40, 40, 97, 32, 98, 41, 62, 102, 124, 99, 41, 38]"
    by (simp add: sh_example_def pr_op_def)
  have "printable sh_example" by (simp add: sh_example_def plain_def whitespace_def symbols_def)
  then show "\<exists>p m. parsecmd (pr_line sh_example) = Some (Inr (p, m)) \<and> map_cmd (\<lambda>w. cstr_at m (fst w)) p = sh_example"
    by (rule parsecmd_prints)
qed

end
