(* ===== verification/ShRun.thy ===== *)
theory ShRun
  imports Sh
begin

text \<open>
  \<^verbatim>\<open>runcmd\<close> of \<^verbatim>\<open>src/user/sh.c\<close>. A process is the tree of the system calls it makes; the branches
  of a call are its possible results. The tree is then run on a table of descriptors in which calls
  succeed as long as there are free descriptors, to see what every program is started with.
\<close>

subsection \<open>Processes\<close>

datatype script =
    Exit int
  | Exec "u8 list list" script
  | Close int script
  | Open "u8 list" int "int \<Rightarrow> script"
  | Dup int script
  | MkPipe "(int \<times> int) option \<Rightarrow> script"
  | Fork "int \<Rightarrow> script"
  | Wait script
  | Print string script

definition sh_panic :: "string \<Rightarrow> script" where
  "sh_panic s = Print s (Exit 1)"

definition fork1 :: "(int \<Rightarrow> script) \<Rightarrow> script" where
  "fork1 k = Fork (\<lambda>pid. if pid = -1 then sh_panic ''fork'' else k pid)"

primrec runcmd :: "u8 list cmd \<Rightarrow> script" where
  "runcmd (EXEC ws) =
     (if ws = [] then Exit 1 else Exec ws (Print ''exec failed'' (Exit 0)))"
| "runcmd (REDIR c f mode fd) =
     Close fd (Open f mode (\<lambda>r. if r < 0 then Print ''open failed'' (Exit 1) else runcmd c))"
| "runcmd (LIST l r) =
     fork1 (\<lambda>pid. if pid = 0 then runcmd l else Wait (runcmd r))"
| "runcmd (PIPE l r) =
     MkPipe (\<lambda>p. case p of
        None \<Rightarrow> sh_panic ''pipe''
      | Some (p0, p1) \<Rightarrow>
          fork1 (\<lambda>pid.
            if pid = 0 then Close 1 (Dup p1 (Close p0 (Close p1 (runcmd l))))
            else fork1 (\<lambda>pid.
              if pid = 0 then Close 0 (Dup p0 (Close p0 (Close p1 (runcmd r))))
              else Close p0 (Close p1 (Wait (Wait (Exit 0)))))))"
| "runcmd (BACK c) =
     fork1 (\<lambda>pid. if pid = 0 then runcmd c else Exit 0)"

subsection \<open>Descriptors\<close>

datatype fdobj = Inherited nat | File "u8 list" int | PipeRead nat | PipeWrite nat

type_synonym fdtab = "fdobj option list"

type_synonym started = "(u8 list list \<times> fdtab) list"

text \<open>
  The lowest free descriptor, as \<^verbatim>\<open>fdalloc\<close> of the kernel gives it. A run lists the programs that
  are started, with the table each is started with; \<open>k\<close> numbers the pipes.
\<close>

abbreviation free_fd :: "fdtab \<Rightarrow> nat option" where
  "free_fd t \<equiv> find_slot (\<lambda>x. x = None) t"

primrec run :: "script \<Rightarrow> fdtab \<Rightarrow> nat \<Rightarrow> started \<times> nat" where
  "run (Exit n) t k = ([], k)"
| "run (Exec ws s) t k = ([(ws, t)], k)"
| "run (Close fd s) t k = run s (t[nat fd := None]) k"
| "run (Open f m g) t k =
     (case free_fd t of
        None \<Rightarrow> run (g (-1)) t k
      | Some i \<Rightarrow> run (g (int i)) (t[i := Some (File f m)]) k)"
| "run (Dup fd s) t k =
     (case free_fd t of None \<Rightarrow> run s t k | Some i \<Rightarrow> run s (t[i := t ! nat fd]) k)"
| "run (MkPipe g) t k =
     (case free_fd t of
        None \<Rightarrow> run (g None) t k
      | Some i \<Rightarrow>
          (case free_fd (t[i := Some (PipeRead k)]) of
             None \<Rightarrow> run (g None) t k
           | Some j \<Rightarrow> run (g (Some (int i, int j))) (t[i := Some (PipeRead k), j := Some (PipeWrite k)]) (Suc k)))"
| "run (Fork g) t k =
     (case run (g 0) t k of (e1, k1) \<Rightarrow> case run (g 1) t k1 of (e2, k2) \<Rightarrow> (e1 @ e2, k2))"
| "run (Wait s) t k = run s t k"
| "run (Print m s) t k = run s t k"

text \<open>A table with standard input, output and error and nothing else.\<close>

definition std :: "fdobj \<Rightarrow> fdobj \<Rightarrow> fdobj \<Rightarrow> fdtab" where
  "std i o' e = [Some i, Some o', Some e] @ replicate 13 None"

text \<open>What a command means: which programs it starts, and what their input and output are.\<close>

primrec meaning :: "u8 list cmd \<Rightarrow> fdobj \<Rightarrow> fdobj \<Rightarrow> fdobj \<Rightarrow> nat \<Rightarrow> started \<times> nat" where
  "meaning (EXEC ws) i o' e k = ((if ws = [] then [] else [(ws, std i o' e)]), k)"
| "meaning (REDIR c f m fd) i o' e k =
     (if fd = 0 then meaning c (File f m) o' e k else meaning c i (File f m) e k)"
| "meaning (LIST l r) i o' e k =
     (case meaning l i o' e k of (e1, k1) \<Rightarrow> case meaning r i o' e k1 of (e2, k2) \<Rightarrow> (e1 @ e2, k2))"
| "meaning (PIPE l r) i o' e k =
     (case meaning l i (PipeWrite k) e (Suc k) of (e1, k1) \<Rightarrow>
        case meaning r (PipeRead k) o' e k1 of (e2, k2) \<Rightarrow> (e1 @ e2, k2))"
| "meaning (BACK c) i o' e k = meaning c i o' e k"

text \<open>The redirections the parser makes are of descriptors 0 and 1.\<close>

primrec redirects_std :: "u8 list cmd \<Rightarrow> bool" where
  "redirects_std (EXEC ws) = True"
| "redirects_std (REDIR c f m fd) = (redirects_std c \<and> (fd = 0 \<or> fd = 1))"
| "redirects_std (LIST l r) = (redirects_std l \<and> redirects_std r)"
| "redirects_std (PIPE l r) = (redirects_std l \<and> redirects_std r)"
| "redirects_std (BACK c) = redirects_std c"

lemma run_plumbing: "redirects_std c \<Longrightarrow> run (runcmd c) (std i o' e) k = meaning c i o' e k"
proof (induction c arbitrary: i o' e k)
  case (EXEC ws)
  then show ?case by simp
next
  case (REDIR c f m fd)
  then show ?case by (auto simp: std_def)
next
  case (PIPE l r)
  then have IH: "run (runcmd l) (std i o' e) k = meaning l i o' e k" "run (runcmd r) (std i o' e) k = meaning r i o' e k" for i o' e k
    by simp_all
  have "replicate 13 (None :: fdobj option) = None # None # replicate 11 None" by (simp add: eval_nat_numeral)
  then show ?case using IH by (simp add: fork1_def std_def nat_numeral split: prod.splits)
next
  case (LIST l r)
  then show ?case by (simp add: fork1_def)
next
  case (BACK c)
  then show ?case by (auto simp: fork1_def split: prod.splits)
qed



end
