(* ===== verification/Grep.thy ===== *)
theory Grep
  imports Prelude
begin

text \<open>
  The pattern matcher and the line loop of \<^verbatim>\<open>src/user/grep.c\<close>. A C string is the list of its
  bytes before the terminating 0. The matcher is shown to decide the language of the pattern,
  which is given as a list of items, and the loop to print exactly the matching lines.
\<close>

subsection \<open>The matcher\<close>

abbreviation ch_caret :: u8 where "ch_caret \<equiv> 94"
abbreviation ch_star :: u8 where "ch_star \<equiv> 42"
abbreviation ch_dollar :: u8 where "ch_dollar \<equiv> 36"
abbreviation ch_dot :: u8 where "ch_dot \<equiv> 46"
abbreviation ch_newline :: u8 where "ch_newline \<equiv> 10"

function matchhere :: "u8 list \<Rightarrow> u8 list \<Rightarrow> bool" and matchstar :: "u8 \<Rightarrow> u8 list \<Rightarrow> u8 list \<Rightarrow> bool" where
  "matchhere re text =
     (case re of
        [] \<Rightarrow> True
      | c # re1 \<Rightarrow>
          if re1 \<noteq> [] \<and> hd re1 = ch_star then matchstar c (tl re1) text
          else if c = ch_dollar \<and> re1 = [] then text = []
          else case text of
                 [] \<Rightarrow> False
               | t # ts \<Rightarrow> if c = ch_dot \<or> c = t then matchhere re1 ts else False)"
| "matchstar c re text =
     (if matchhere re text then True
      else case text of
             [] \<Rightarrow> False
           | t # ts \<Rightarrow> if t = c \<or> c = ch_dot then matchstar c re ts else False)"
  by pat_completeness auto
termination
  by (relation "measures [case_sum (\<lambda>(re, t). length re) (\<lambda>(c, re, t). length re),
        case_sum (\<lambda>(re, t). length t) (\<lambda>(c, re, t). length t), case_sum (\<lambda>_. 0) (\<lambda>_. 1)]") auto

declare matchhere.simps [simp del] matchstar.simps [simp del]

fun match_from :: "u8 list \<Rightarrow> u8 list \<Rightarrow> bool" where
  "match_from re [] = matchhere re []"
| "match_from re (t # ts) = (if matchhere re (t # ts) then True else match_from re ts)"

definition match :: "u8 list \<Rightarrow> u8 list \<Rightarrow> bool" where
  "match re text = (if re \<noteq> [] \<and> hd re = ch_caret then matchhere (tl re) text else match_from re text)"

subsection \<open>The language of a pattern\<close>

datatype atom = Any | Byte u8

datatype item = One atom | Many atom | End

definition atom_of :: "u8 \<Rightarrow> atom" where
  "atom_of c = (if c = ch_dot then Any else Byte c)"

fun accepts :: "atom \<Rightarrow> u8 \<Rightarrow> bool" where
  "accepts Any t = True"
| "accepts (Byte c) t = (c = t)"

text \<open>A dollar sign ends the text only at the end of the pattern; a star binds to any character.\<close>

fun items :: "u8 list \<Rightarrow> item list" where
  "items [] = []"
| "items [c] = [if c = ch_dollar then End else One (atom_of c)]"
| "items (c # d # re) = (if d = ch_star then Many (atom_of c) # items re else One (atom_of c) # items (d # re))"

text \<open>A text satisfies a list of items if a prefix of it can be cut into pieces that fit them.\<close>

inductive fits :: "item list \<Rightarrow> u8 list \<Rightarrow> bool" where
  Done: "fits [] text"
| One: "accepts a t \<Longrightarrow> fits is ts \<Longrightarrow> fits (One a # is) (t # ts)"
| Many: "list_all (accepts a) us \<Longrightarrow> fits is ts \<Longrightarrow> fits (Many a # is) (us @ ts)"
| End: "fits is [] \<Longrightarrow> fits (End # is) []"

inductive_simps fits_Nil [simp]: "fits [] text"
inductive_simps fits_One: "fits (One a # is) text"
inductive_simps fits_Many: "fits (Many a # is) text"
inductive_simps fits_End: "fits (End # is) text"

lemma accepts_atom_of: "accepts (atom_of c) t \<longleftrightarrow> c = ch_dot \<or> c = t"
  by (simp add: atom_of_def)

lemma fits_Many_unfold:
  "fits (Many a # is) text \<longleftrightarrow>
     fits is text \<or> (\<exists>t ts. text = t # ts \<and> accepts a t \<and> fits (Many a # is) ts)"
proof
  assume "fits (Many a # is) text"
  then obtain us ts where t: "text = us @ ts" "list_all (accepts a) us" "fits is ts" by (auto simp: fits_Many)
  then show "fits is text \<or> (\<exists>t ts. text = t # ts \<and> accepts a t \<and> fits (Many a # is) ts)"
    by (cases us) (auto intro: fits.Many)
next
  assume "fits is text \<or> (\<exists>t ts. text = t # ts \<and> accepts a t \<and> fits (Many a # is) ts)"
  then show "fits (Many a # is) text"
  proof
    assume "fits is text"
    then show ?thesis using fits.Many[of a "[]"] by simp
  next
    assume "\<exists>t ts. text = t # ts \<and> accepts a t \<and> fits (Many a # is) ts"
    then obtain t us ts where "text = t # us @ ts" "accepts a t" "list_all (accepts a) us" "fits is ts"
      by (auto simp: fits_Many)
    then show ?thesis using fits.Many[of a "t # us" "is" ts] by simp
  qed
qed

lemma matcher_fits:
  "matchhere re text \<longleftrightarrow> fits (items re) text"
  "matchstar c re text \<longleftrightarrow> fits (Many (atom_of c) # items re) text"
proof (induction re "text" and c re "text" rule: matchhere_matchstar.induct)
  case (1 re "text")
  show ?case
  proof (cases re)
    case Nil
    then show ?thesis by (simp add: matchhere.simps)
  next
    case (Cons c re1)
    show ?thesis
    proof (cases "re1 \<noteq> [] \<and> hd re1 = ch_star")
      case True
      with 1(1)[OF Cons True] Cons show ?thesis by (cases re1) (simp_all add: matchhere.simps)
    next
      case nostar: False
      show ?thesis
      proof (cases "c = ch_dollar \<and> re1 = []")
        case True
        with Cons show ?thesis by (simp add: matchhere.simps fits_End)
      next
        case False
        have i: "items re = One (atom_of c) # items re1"
          using nostar False Cons by (cases re1) auto
        show ?thesis
        proof (cases "text")
          case Nil
          with nostar False Cons i show ?thesis by (auto simp: matchhere.simps fits_One)
        next
          case t: (Cons t ts)
          have "matchhere re text \<longleftrightarrow> (c = ch_dot \<or> c = t) \<and> matchhere re1 ts"
            using nostar False Cons t by (subst matchhere.simps) auto
          with 1(2)[OF Cons nostar False t] t i show ?thesis by (auto simp: fits_One accepts_atom_of)
        qed
      qed
    qed
  qed
next
  case (2 c re "text")
  show ?case
  proof (cases "matchhere re text")
    case True
    with 2(1) show ?thesis by (simp add: matchstar.simps fits_Many_unfold[of _ _ "text"])
  next
    case no: False
    show ?thesis
    proof (cases "text")
      case Nil
      with no have "\<not> matchstar c re text" by (subst matchstar.simps) simp
      with no 2(1) Nil show ?thesis using fits_Many_unfold[of "atom_of c" "items re" "text"] by simp
    next
      case (Cons t ts)
      have "matchstar c re text \<longleftrightarrow> (t = c \<or> c = ch_dot) \<and> matchstar c re ts"
        using no Cons by (subst matchstar.simps) auto
      with no 2(1) 2(2)[OF no Cons] Cons show ?thesis
        using fits_Many_unfold[of "atom_of c" "items re" "text"] by (auto simp: accepts_atom_of)
    qed
  qed
qed

lemma match_from_suffix: "match_from re text \<longleftrightarrow> (\<exists>u v. text = u @ v \<and> matchhere re v)"
proof (induction "text")
  case Nil
  then show ?case by simp
next
  case (Cons t ts)
  show ?case
  proof (cases "matchhere re (t # ts)")
    case True
    then show ?thesis by (auto intro: exI[of _ "[]"])
  next
    case False
    then have "(\<exists>u v. t # ts = u @ v \<and> matchhere re v) \<longleftrightarrow> (\<exists>u v. ts = u @ v \<and> matchhere re v)"
      by (auto simp: Cons_eq_append_conv)
    with False Cons.IH show ?thesis by simp
  qed
qed

text \<open>
  C25: \<^verbatim>\<open>match\<close> decides the language of its pattern: with a leading caret the text must start with
  pieces that fit the items of the pattern, otherwise some suffix of the text (the empty one
  included) must. The backtracking of \<^verbatim>\<open>matchstar\<close> misses no way to cut the text.
\<close>

theorem match_correct:
  "match re text \<longleftrightarrow>
     (if re \<noteq> [] \<and> hd re = ch_caret then fits (items (tl re)) text
      else (\<exists>u v. text = u @ v \<and> fits (items re) v))"
  by (simp add: match_def match_from_suffix matcher_fits)

subsection \<open>Lines\<close>

text \<open>
  The inner loop: \<^verbatim>\<open>strchr(p, '\n')\<close> stops at a 0 byte. The value is the output and what is left
  in the buffer.
\<close>

function grep_lines :: "u8 list \<Rightarrow> u8 list \<Rightarrow> u8 list \<times> u8 list" where
  "grep_lines pattern p =
     (let line = takeWhile (\<lambda>c. c \<noteq> ch_newline \<and> c \<noteq> 0) p; q = drop (length line) p
      in if q = [] \<or> hd q = 0 then ([], p)
         else case grep_lines pattern (tl q) of
                (out, rest) \<Rightarrow> ((if match pattern line then line @ [ch_newline] else []) @ out, rest))"
  by pat_completeness auto
termination
proof (relation "measure (\<lambda>(pattern, p). length p)")
  fix pattern p line q :: "u8 list"
  assume "q = drop (length line) p" "\<not> (q = [] \<or> hd q = 0)"
  then show "((pattern, tl q), pattern, p) \<in> measure (\<lambda>(pattern, p). length p)" by auto
qed simp

declare grep_lines.simps [simp del]

text \<open>
  The outer loop on an input with \<open>xs\<close> still to come. The \<open>k\<close>-th \<^verbatim>\<open>read\<close> finds \<open>avail k\<close> bytes; it
  asks for what the buffer of 1024 bytes has room for beyond the \<open>acc\<close> of the last line.
\<close>

function grep :: "u8 list \<Rightarrow> (nat \<Rightarrow> nat) \<Rightarrow> nat \<Rightarrow> u8 list \<Rightarrow> u8 list \<Rightarrow> u8 list" where
  "grep pattern avail k acc xs =
     (let r = take (min (1024 - length acc - 1) (avail k)) xs
      in if r = [] then []
         else case grep_lines pattern (acc @ r) of
                (out, rest) \<Rightarrow> out @ grep pattern avail (Suc k) rest (drop (length r) xs))"
  by pat_completeness auto
termination
proof (relation "measure (\<lambda>(pattern, avail, k, acc, xs). length xs)")
  fix pattern xs r acc out rest :: "u8 list" and avail :: "nat \<Rightarrow> nat" and k x
  assume "r = take (min (1024 - length acc - 1) (avail k)) xs" "r \<noteq> []"
  then show "((pattern, avail, Suc k, rest, drop (length r) xs), pattern, avail, k, acc, xs)
      \<in> measure (\<lambda>(pattern, avail, k, acc, xs). length xs)"
    by (cases xs) auto
qed simp

declare grep.simps [simp del]

text \<open>The complete lines of an input, without their newlines, and what follows the last newline.\<close>

fun split_lines :: "u8 list \<Rightarrow> u8 list \<Rightarrow> u8 list list \<times> u8 list" where
  "split_lines acc [] = ([], acc)"
| "split_lines acc (c # cs) =
     (if c = ch_newline then case split_lines [] cs of (ls, rest) \<Rightarrow> (acc # ls, rest)
      else split_lines (acc @ [c]) cs)"

definition matching :: "u8 list \<Rightarrow> u8 list list \<Rightarrow> u8 list" where
  "matching pattern ls = concat (map (\<lambda>l. l @ [ch_newline]) (filter (match pattern) ls))"

lemma split_lines_append:
  "split_lines acc (xs @ ys) =
     (let (ls, rest) = split_lines acc xs; (ls', rest') = split_lines rest ys in (ls @ ls', rest'))"
  by (induction acc xs rule: split_lines.induct) (auto simp: Let_def split: prod.splits)

lemma split_lines_plain: "ch_newline \<notin> set xs \<Longrightarrow> split_lines acc xs = ([], acc @ xs)"
  by (induction acc xs rule: split_lines.induct) auto

lemma split_lines_rest: "ch_newline \<notin> set acc \<Longrightarrow> split_lines acc xs = (ls, rest) \<Longrightarrow> ch_newline \<notin> set rest"
  by (induction acc xs arbitrary: ls rule: split_lines.induct) (auto split: if_splits prod.splits)

lemma split_lines_acc:
  assumes "ch_newline \<notin> set acc"
  shows "split_lines [] (acc @ xs) = split_lines acc xs"
  using assms by (simp add: split_lines_append split_lines_plain)

lemma grep_lines_split:
  "0 \<notin> set p \<Longrightarrow> split_lines [] p = (ls, rest) \<Longrightarrow> grep_lines pattern p = (matching pattern ls, rest)"
proof (induction pattern p arbitrary: ls rule: grep_lines.induct)
  case (1 pattern p)
  define line where "line = takeWhile (\<lambda>c. c \<noteq> ch_newline \<and> c \<noteq> 0) p"
  define q where "q = drop (length line) p"
  have p: "p = line @ q" unfolding q_def line_def by (simp add: dropWhile_eq_drop[symmetric])
  have plain: "ch_newline \<notin> set line" unfolding line_def by (auto dest: set_takeWhileD)
  show ?case
  proof (cases "q = []")
    case True
    with p plain "1.prems"(2) have "ls = []" "rest = p" by (simp_all add: split_lines_plain)
    moreover have "grep_lines pattern p = ([], p)"
      using True by (subst grep_lines.simps) (simp only: line_def[symmetric] q_def[symmetric] Let_def, simp)
    ultimately show ?thesis by (simp add: matching_def)
  next
    case False
    then obtain c q' where q: "q = c # q'" by (cases q) auto
    have "q = dropWhile (\<lambda>c. c \<noteq> ch_newline \<and> c \<noteq> 0) p" by (simp add: q_def line_def dropWhile_eq_drop)
    with q have "c = ch_newline \<or> c = 0" by (metis (mono_tags, lifting) dropWhile_eq_Cons_conv)
    moreover have "c \<in> set p" using p q by simp
    ultimately have "c = ch_newline" using "1.prems"(1) by auto
    obtain ls' where ls: "ls = line # ls'" "split_lines [] q' = (ls', rest)"
      using "1.prems"(2) plain \<open>c = ch_newline\<close> unfolding p q by (auto simp: split_lines_acc split: prod.splits)
    have "0 \<notin> set q'" using "1.prems"(1) p q by simp
    moreover have "\<not> (q = [] \<or> hd q = 0)" using q \<open>c = ch_newline\<close> by simp
    ultimately have "grep_lines pattern (tl q) = (matching pattern ls', rest)"
      using "1.IH"[OF line_def q_def] ls(2) q by simp
    then have "grep_lines pattern p = ((if match pattern line then line @ [ch_newline] else []) @ matching pattern ls', rest)"
      using q \<open>c = ch_newline\<close>
      by (subst grep_lines.simps) (simp only: line_def[symmetric] q_def[symmetric] Let_def, simp)
    with ls(1) show ?thesis by (simp add: matching_def)
  qed
qed

text \<open>Every line of the input, complete or not, leaves room for at least one more byte in the buffer.\<close>

definition short_lines :: "u8 list \<Rightarrow> bool" where
  "short_lines xs \<longleftrightarrow> list_all (\<lambda>l. length l < 1023) (snd (split_lines [] xs) # fst (split_lines [] xs))"

lemma split_lines_lengths:
  assumes "split_lines acc xs = (ls, rest)" "list_all (\<lambda>l. length l < n) (rest # ls)"
  shows "length acc < n"
  using assms
proof (induction acc xs arbitrary: ls rule: split_lines.induct)
  case (2 acc c cs)
  then show ?case by (auto split: if_splits prod.splits)
qed simp

lemma grep_loop:
  assumes avail: "\<And>k. 0 < avail k"
  shows "ch_newline \<notin> set acc \<Longrightarrow> 0 \<notin> set acc \<Longrightarrow> 0 \<notin> set xs \<Longrightarrow> short_lines (acc @ xs) \<Longrightarrow>
     grep pattern avail k acc xs = matching pattern (fst (split_lines acc xs))"
proof (induction "length xs" arbitrary: k acc xs rule: less_induct)
  case less
  define r where "r = take (min (1024 - length acc - 1) (avail k)) xs"
  obtain ls0 rest0 where all: "split_lines acc xs = (ls0, rest0)" by fastforce
  have room: "length acc < 1023"
    using split_lines_lengths[OF all, of 1023] less.prems(1,4) all
    by (simp add: short_lines_def split_lines_acc)
  show ?case
  proof (cases "xs = []")
    case True
    then show ?thesis by (simp add: grep.simps matching_def)
  next
    case False
    have r: "r \<noteq> []" using False room avail[of k] by (auto simp: r_def)
    obtain ls rest where s: "split_lines acc r = (ls, rest)" by fastforce
    have xs: "xs = r @ drop (length r) xs" unfolding r_def by (metis append_eq_conv_conj append_take_drop_id)
    have n: "0 \<notin> set (acc @ r)" using less.prems(2,3) set_take_subset unfolding r_def by fastforce
    have g: "grep_lines pattern (acc @ r) = (matching pattern ls, rest)"
      using grep_lines_split[OF n] s less.prems(1) by (simp add: split_lines_acc)
    have nl: "ch_newline \<notin> set rest" by (rule split_lines_rest[OF less.prems(1) s])
    have step: "split_lines acc xs = (ls @ fst (split_lines rest (drop (length r) xs)), snd (split_lines rest (drop (length r) xs)))"
      by (subst xs) (simp add: split_lines_append s Let_def split: prod.splits)
    have rest0: "0 \<notin> set rest"
    proof -
      have "set rest \<subseteq> set acc \<union> set r" using s
        by (induction acc r arbitrary: ls rule: split_lines.induct) (auto split: if_splits prod.splits)
      then show ?thesis using n by auto
    qed
    have short: "short_lines (rest @ drop (length r) xs)"
      using less.prems(1,4) step nl by (simp add: short_lines_def split_lines_acc)
    have "grep pattern avail (Suc k) rest (drop (length r) xs) = matching pattern (fst (split_lines rest (drop (length r) xs)))"
    proof (rule less.hyps)
      show "length (drop (length r) xs) < length xs" using r False by simp
      show "0 \<notin> set (drop (length r) xs)" using less.prems(3) set_drop_subset by fastforce
    qed (fact nl rest0 short)+
    then have "grep pattern avail k acc xs = matching pattern ls @ matching pattern (fst (split_lines rest (drop (length r) xs)))"
      using r g by (subst grep.simps) (simp only: r_def[symmetric] Let_def, simp)
    then show ?thesis using step by (simp add: matching_def)
  qed
qed

text \<open>
  C26: Whatever sizes the reads return, \<^verbatim>\<open>grep\<close> prints exactly the lines of its input that match, in
  order and each with its newline, provided the input has no 0 byte and no line of 1023 bytes or
  more. A last line without a newline is not printed.
\<close>

theorem grep_prints_matches:
  assumes "\<And>k. 0 < avail k" "0 \<notin> set xs" "short_lines xs"
  shows "grep pattern avail 0 [] xs = matching pattern (fst (split_lines [] xs))"
  using grep_loop[of avail "[]" xs pattern 0] assms by simp

definition grep_input :: "u8 list" where
  "grep_input = [97, 98, 10, 99, 10, 98, 98, 10, 98]"

theorem grep_prints_matches_witness:
  "grep [98] (\<lambda>_. 2) 0 [] grep_input = [97, 98, 10, 98, 98, 10]"
proof -
  have s: "split_lines [] grep_input = ([[97, 98], [99], [98, 98]], [98])" by (simp add: grep_input_def)
  have "match [98] [97, 98]" "\<not> match [98] [99]" "match [98] [98, 98]"
    by (simp_all add: match_def matchhere.simps)
  then show ?thesis
    using grep_prints_matches[of "\<lambda>_. 2" grep_input "[98]"] s
    by (simp add: short_lines_def matching_def) (simp add: grep_input_def)
qed

end
