(* ===== verification/Umalloc.thy ===== *)
theory Umalloc
  imports Prelude
begin

text \<open>
  The memory allocator of the user library, \<^verbatim>\<open>src/user/umalloc.c\<close>: a circular list of free blocks in
  the order of their addresses. Addresses are natural numbers, a \<^verbatim>\<open>Header\<close> has 16 bytes, and the two
  fields of the header at an address are functions of the address. The break, the end
  of the heap area, is moved by \<^verbatim>\<open>sbrk\<close>, which takes an \<^verbatim>\<open>int\<close> and fails below the start of the area
  and beyond the start of the next one. Sizes are counted without the 32-bit bound of the \<^verbatim>\<open>uint\<close> field: a heap of that many
  units would not fit the address space.
\<close>

subsection \<open>The allocator\<close>

abbreviation (input) HS :: nat where "HS \<equiv> 16"

record heap =
  h_ptr :: "nat \<Rightarrow> nat"
  h_size :: "nat \<Rightarrow> nat"
  h_freep :: nat
  h_base :: nat
  h_start :: nat
  h_brk :: nat
  h_limit :: nat

definition set_ptr :: "nat \<Rightarrow> nat \<Rightarrow> heap \<Rightarrow> heap" where
  "set_ptr a v s = s\<lparr>h_ptr := (h_ptr s)(a := v)\<rparr>"

definition set_size :: "nat \<Rightarrow> nat \<Rightarrow> heap \<Rightarrow> heap" where
  "set_size a v s = s\<lparr>h_size := (h_size s)(a := v)\<rparr>"

text \<open>The end of the block at \<open>a\<close>, \<^verbatim>\<open>a + a->s.size\<close> in pointer arithmetic.\<close>

definition block_end :: "heap \<Rightarrow> nat \<Rightarrow> nat" where
  "block_end s a = a + HS * h_size s a"

text \<open>The search of \<^verbatim>\<open>free\<close> for the place of \<open>bp\<close>; it need not end in a damaged list.\<close>

partial_function (option) free_find :: "heap \<Rightarrow> nat \<Rightarrow> nat \<Rightarrow> nat option" where
  "free_find s bp p =
     (if bp > p \<and> bp < h_ptr s p then Some p
      else if p \<ge> h_ptr s p \<and> (bp > p \<or> bp < h_ptr s p) then Some p
      else free_find s bp (h_ptr s p))"

definition free_insert :: "nat \<Rightarrow> nat \<Rightarrow> heap \<Rightarrow> heap" where
  "free_insert bp p s =
     (let nxt = h_ptr s p;
          s1 = (if block_end s bp = nxt
                then set_ptr bp (h_ptr s nxt) (set_size bp (h_size s bp + h_size s nxt) s)
                else set_ptr bp nxt s);
          s2 = (if block_end s1 p = bp
                then set_ptr p (h_ptr s1 bp) (set_size p (h_size s1 p + h_size s1 bp) s1)
                else set_ptr p bp s1)
      in s2\<lparr>h_freep := p\<rparr>)"

definition free :: "nat \<Rightarrow> heap \<Rightarrow> heap option" where
  "free ap s = map_option (\<lambda>p. free_insert (ap - HS) p s) (free_find s (ap - HS) (h_freep s))"

definition usbrk :: "int \<Rightarrow> heap \<Rightarrow> (nat \<times> heap) option" where
  "usbrk n s =
     (if n < 0 \<and> int (h_brk s) + n < int (h_start s) \<or> n > 0 \<and> int (h_brk s) + n > int (h_limit s) then None
      else Some (h_brk s, s\<lparr>h_brk := nat (int (h_brk s) + n)\<rparr>))"

text \<open>The product \<^verbatim>\<open>nu * sizeof(Header)\<close> is converted to the \<^verbatim>\<open>int\<close> that \<^verbatim>\<open>sbrk\<close> takes.\<close>

definition morecore :: "nat \<Rightarrow> heap \<Rightarrow> (nat option \<times> heap) option" where
  "morecore nu0 s =
     (let nu = (if nu0 < 4096 then 4096 else nu0)
      in case usbrk (sint (of_nat (HS * nu) :: u32)) s of
           None \<Rightarrow> Some (None, s)
         | Some (p, s1) \<Rightarrow>
             (case free (p + HS) (set_size p nu s1) of
                None \<Rightarrow> None
              | Some s2 \<Rightarrow> Some (Some (h_freep s2), s2)))"

definition malloc_take :: "nat \<Rightarrow> nat \<Rightarrow> nat \<Rightarrow> heap \<Rightarrow> nat \<times> heap" where
  "malloc_take nunits prevp p s =
     (if h_size s p = nunits
      then (p + HS, (set_ptr prevp (h_ptr s p) s)\<lparr>h_freep := prevp\<rparr>)
      else let s1 = set_size p (h_size s p - nunits) s; q = p + HS * h_size s1 p
           in (q + HS, (set_size q nunits s1)\<lparr>h_freep := prevp\<rparr>))"

partial_function (option) malloc_loop :: "nat \<Rightarrow> nat \<Rightarrow> nat \<Rightarrow> heap \<Rightarrow> (nat option \<times> heap) option" where
  "malloc_loop nunits prevp p s =
     (if h_size s p \<ge> nunits
      then (case malloc_take nunits prevp p s of (a, s') \<Rightarrow> Some (Some a, s'))
      else if p = h_freep s
      then (case morecore nunits s of
              None \<Rightarrow> None
            | Some (None, s') \<Rightarrow> Some (None, s')
            | Some (Some q, s') \<Rightarrow> malloc_loop nunits q (h_ptr s' q) s')
      else malloc_loop nunits p (h_ptr s p) s)"

definition units :: "nat \<Rightarrow> nat" where
  "units nbytes = (nbytes + HS - 1) div HS + 1"

definition malloc :: "nat \<Rightarrow> heap \<Rightarrow> (nat option \<times> heap) option" where
  "malloc nbytes s =
     (let s1 = (if h_freep s = 0
                then set_size (h_base s) 0 (set_ptr (h_base s) (h_base s) s)\<lparr>h_freep := h_base s\<rparr>
                else s)
      in malloc_loop (units nbytes) (h_freep s1) (h_ptr s1 (h_freep s1)) s1)"

subsection \<open>Chains of pointers\<close>

fun chain :: "(nat \<Rightarrow> nat) \<Rightarrow> nat list \<Rightarrow> nat \<Rightarrow> bool" where
  "chain f [] e = True"
| "chain f [x] e = (f x = e)"
| "chain f (x # y # xs) e = (f x = y \<and> chain f (y # xs) e)"

lemma chain_Cons: "chain f (x # xs) e \<longleftrightarrow> f x = hd (xs @ [e]) \<and> chain f xs e"
  by (cases xs) auto

lemma chain_append: "chain f (xs @ ys) e \<longleftrightarrow> chain f xs (hd (ys @ [e])) \<and> chain f ys e"
proof (induction xs)
  case (Cons x xs)
  then show ?case by (cases xs) (auto simp: chain_Cons)
qed simp

lemma chain_update [simp]: "a \<notin> set xs \<Longrightarrow> chain (f(a := v)) xs e = chain f xs e"
  by (induction xs) (auto simp: chain_Cons)

text \<open>In a ring without repetitions every element has one predecessor.\<close>

lemma chain_next_in: "chain f xs e \<Longrightarrow> x \<in> set xs \<Longrightarrow> f x \<in> set (tl xs @ [e])"
proof (induction xs)
  case (Cons y xs)
  then show ?case by (cases xs) (auto simp: chain_Cons)
qed simp

lemma chain_inj:
  "chain f xs e \<Longrightarrow> distinct (tl xs @ [e]) \<Longrightarrow> x \<in> set xs \<Longrightarrow> y \<in> set xs \<Longrightarrow> f x = f y \<Longrightarrow> x = y"
proof (induction xs)
  case (Cons z xs)
  have c: "f z = hd (xs @ [e])" "chain f xs e" using Cons.prems(1) by (auto simp: chain_Cons)
  have no: "f w \<noteq> f z" if "w \<in> set xs" for w
  proof -
    have "f w \<in> set (tl xs @ [e])" by (rule chain_next_in[OF c(2) that])
    moreover have "f z \<notin> set (tl xs @ [e])"
      using c(1) Cons.prems(2) that by (cases xs) auto
    ultimately show ?thesis by auto
  qed
  have "distinct (tl xs @ [e])" using Cons.prems(2) by (cases xs) auto
  with Cons.IH[OF c(2)] no Cons.prems(3-5) show ?case by (metis set_ConsD)
qed simp

subsection \<open>The invariant\<close>

text \<open>
  The free blocks \<open>ys\<close> form, together with the empty block \<^verbatim>\<open>base\<close>, a ring in ascending order.
  All blocks, free or allocated, lie behind \<^verbatim>\<open>base\<close> and below the break, and do not overlap.
\<close>

definition freelist :: "heap \<Rightarrow> nat list \<Rightarrow> bool" where
  "freelist s ys \<longleftrightarrow> sorted_wrt (<) (h_base s # ys) \<and> chain (h_ptr s) (h_base s # ys) (h_base s) \<and>
     h_freep s \<in> set (h_base s # ys) \<and> h_size s (h_base s) = 0 \<and> 0 < h_base s"

definition blocks_ok :: "heap \<Rightarrow> nat set \<Rightarrow> bool" where
  "blocks_ok s B \<longleftrightarrow> (\<forall>a \<in> B. 0 < h_size s a \<and> h_base s + HS \<le> a \<and> block_end s a \<le> h_brk s \<and>
     (\<forall>b \<in> B. a < b \<longrightarrow> block_end s a \<le> b))"

text \<open>Before the first call of \<^verbatim>\<open>malloc\<close> the list has not been set up, and nothing is allocated.\<close>

definition wf_heap :: "heap \<Rightarrow> nat set \<Rightarrow> bool" where
  "wf_heap s A \<longleftrightarrow> 0 < h_base s \<and> h_base s + HS \<le> h_start s \<and> h_start s \<le> h_brk s \<and>
     (h_freep s = 0 \<and> A = {} \<or> (\<exists>ys. freelist s ys \<and> blocks_ok s (set ys \<union> A) \<and> set ys \<inter> A = {}))"

lemma ring_distinct: "sorted_wrt (<) xs \<Longrightarrow> distinct (xs :: nat list)"
  by (induction xs) auto

subsection \<open>free\<close>

text \<open>The ring cut at the place of \<open>bp\<close>: \<open>p\<close> is the last element below it.\<close>

lemma ring_cut:
  fixes bp :: nat
  assumes "sorted_wrt (<) xs" "xs \<noteq> []" "hd xs < bp" "bp \<notin> set xs"
  shows "\<exists>us p vs. xs = us @ p # vs \<and> (\<forall>x \<in> set us. x < p) \<and> p < bp \<and> (\<forall>x \<in> set vs. bp < x)"
  using assms
proof (induction xs)
  case (Cons x xs)
  show ?case
  proof (cases "xs = [] \<or> bp < hd xs")
    case True
    then have "\<forall>y \<in> set xs. bp < y" using Cons.prems(1) by (cases xs) auto
    with Cons.prems(3) show ?thesis by (intro exI[of _ "[]"] exI[of _ x] exI[of _ xs]) simp
  next
    case False
    have "hd xs \<noteq> bp" using False Cons.prems(4) by (cases xs) auto
    then obtain us p vs where c: "xs = us @ p # vs" "\<forall>x \<in> set us. x < p" "p < bp" "\<forall>x \<in> set vs. bp < x"
      using Cons.IH Cons.prems False by auto
    then show ?thesis using Cons.prems(1) by (intro exI[of _ "x # us"] exI[of _ p] exI[of _ vs]) simp
  qed
qed simp

lemma free_find_here:
  assumes "h_ptr s p = hd (vs @ [e])" "p < bp" "\<forall>x \<in> set vs. bp < x" "e \<le> p"
  shows "free_find s bp p = Some p"
  using assms by (subst free_find.simps) (cases vs; simp)

text \<open>From an element below \<open>p\<close> the search walks up to \<open>p\<close>.\<close>

lemma free_find_up:
  assumes "chain (h_ptr s) (us @ p # vs) e" "\<forall>x \<in> set us. x < p" "sorted_wrt (<) us" "p < bp"
    "\<forall>x \<in> set vs. bp < x" "e \<le> p" "x \<in> set us \<or> x = p"
  shows "free_find s bp x = Some p"
  using assms
proof (induction us arbitrary: x)
  case Nil
  then show ?case using free_find_here[of s p vs e bp] by (auto simp: chain_Cons)
next
  case (Cons u us)
  have IH: "free_find s bp y = Some p" if "y \<in> set us \<or> y = p" for y
    using Cons.prems that by (intro Cons.IH) (auto simp: chain_Cons)
  have ptr: "h_ptr s u = hd (us @ [p])" using Cons.prems(1) by (cases us) (auto simp: chain_Cons)
  show ?case
  proof (cases "x = u")
    case False
    then show ?thesis using Cons.prems(7) IH by auto
  next
    case True
    let ?n = "hd (us @ [p])"
    have n: "?n \<in> set us \<or> ?n = p" by (cases us) auto
    have "u < ?n" using Cons.prems(2,3) by (cases us) auto
    moreover have "?n < bp" using n Cons.prems(2,4) by auto
    ultimately have "free_find s bp u = free_find s bp ?n"
      using ptr by (subst free_find.simps) auto
    then show ?thesis using True IH[OF n] by simp
  qed
qed

text \<open>From an element above \<open>bp\<close> it walks to the end of the ring and starts over.\<close>

lemma free_find_around:
  assumes "chain (h_ptr s) vs e" "\<forall>x \<in> set vs. bp < x" "sorted_wrt (<) vs" "e < bp" "free_find s bp e = Some p"
    "x \<in> set vs"
  shows "free_find s bp x = Some p"
  using assms
proof (induction vs arbitrary: x)
  case (Cons v vs)
  have IH: "free_find s bp y = Some p" if "y \<in> set vs" for y
    by (rule Cons.IH) (use Cons.prems that in \<open>auto simp: chain_Cons\<close>)
  have ptr: "h_ptr s v = hd (vs @ [e])" using Cons.prems(1) by (auto simp: chain_Cons)
  show ?case
  proof (cases "x = v")
    case False
    then show ?thesis using Cons.prems(6) IH by auto
  next
    case True
    have "bp < v" "vs = [] \<or> v < hd vs" using Cons.prems(2,3) by (cases vs; simp)+
    then have "\<not> (v < bp \<and> bp < h_ptr s v)" "\<not> (h_ptr s v \<le> v \<and> (v < bp \<or> bp < h_ptr s v))"
      using ptr Cons.prems(4) by (cases vs; simp)+
    then have "free_find s bp v = free_find s bp (hd (vs @ [e]))"
      using ptr by (subst free_find.simps) (simp only: if_False)
    moreover have "free_find s bp (hd (vs @ [e])) = Some p" using IH Cons.prems(5) by (cases vs) auto
    ultimately show ?thesis using True by simp
  qed
qed simp

lemma free_find_place:
  assumes "freelist s ys" "bp \<notin> set (h_base s # ys)" "h_base s < bp"
  obtains us p vs where "h_base s # ys = us @ p # vs" "p < bp" "\<forall>x \<in> set vs. bp < x"
    "free_find s bp (h_freep s) = Some p"
proof -
  let ?xs = "h_base s # ys"
  have srt: "sorted_wrt (<) ?xs" and ch: "chain (h_ptr s) ?xs (h_base s)" and fp: "h_freep s \<in> set ?xs"
    using assms(1) by (auto simp: freelist_def)
  obtain us p vs where c: "?xs = us @ p # vs" "\<forall>x \<in> set us. x < p" "p < bp" "\<forall>x \<in> set vs. bp < x"
    using ring_cut[OF srt, of bp] assms(2,3) by auto
  have e: "h_base s \<le> p" "h_base s \<in> set us \<or> h_base s = p"
    using c(1,2) by (cases us; force)+
  have s2: "sorted_wrt (<) us" "sorted_wrt (<) vs" using srt c(1) by (simp_all add: sorted_wrt_append)
  have up: "free_find s bp x = Some p" if "x \<in> set us \<or> x = p" for x
    using free_find_up[of s us p vs "h_base s" bp x] ch c s2(1) e(1) that by simp
  have "free_find s bp (h_freep s) = Some p"
  proof (cases "h_freep s \<in> set vs")
    case True
    have "chain (h_ptr s) vs (h_base s)" using ch c(1) by (simp add: chain_append chain_Cons)
    from free_find_around[OF this c(4) s2(2) assms(3) up[OF e(2)] True] show ?thesis .
  next
    case False
    then show ?thesis using fp c(1) up by auto
  qed
  with c show ?thesis by (intro that)
qed

text \<open>Two neighbours of the ring that touch are merged.\<close>

definition merge :: "nat \<Rightarrow> nat \<Rightarrow> heap \<Rightarrow> heap" where
  "merge a b s = set_ptr a (h_ptr s b) (set_size a (h_size s a + h_size s b) s)"

lemma merge_ok:
  assumes "h_base s # ys = us @ a # b # vs" "block_end s a = b" "freelist (s\<lparr>h_freep := h_base s\<rparr>) ys"
    "blocks_ok s (set ys \<union> A)" "set ys \<inter> A = {}" "a \<noteq> h_base s"
  shows "\<exists>zs. h_base s # zs = us @ a # vs \<and> freelist ((merge a b s)\<lparr>h_freep := h_base s\<rparr>) zs \<and>
    blocks_ok (merge a b s) (set zs \<union> A) \<and> set zs \<inter> A = {}"
proof -
  obtain us' where us: "us = h_base s # us'" using assms(1,6) by (cases us) auto
  let ?zs = "us' @ a # vs" and ?t = "merge a b s"
  have ys: "ys = us' @ a # b # vs" using assms(1) us by simp
  have d: "distinct (h_base s # ys)" using assms(3) by (intro ring_distinct) (simp add: freelist_def)
  have f: "h_base ?t = h_base s" "h_brk ?t = h_brk s" "h_ptr ?t = (h_ptr s)(a := h_ptr s b)"
    "h_size ?t = (h_size s)(a := h_size s a + h_size s b)"
    by (simp_all add: merge_def set_ptr_def set_size_def)
  have fl: "freelist (?t\<lparr>h_freep := h_base s\<rparr>) ?zs"
    using assms(3) d unfolding freelist_def ys
    by (auto simp: f sorted_wrt_append chain_append chain_Cons hd_append)
  have a: "a \<in> set ys" and b: "b \<in> set ys" "b \<notin> A" using ys assms(5) by auto
  have ends: "block_end ?t x = (if x = a then block_end s b else block_end s x)" for x
    using assms(2) by (simp add: block_end_def f)
  have bok: "blocks_ok ?t (set ?zs \<union> A)"
    unfolding blocks_ok_def
  proof (intro ballI conjI impI)
    fix x
    assume x: "x \<in> set ?zs \<union> A"
    then have x': "x \<in> set ys \<union> A" "x \<noteq> b" using ys d b by auto
    show "0 < h_size ?t x" "h_base ?t + HS \<le> x" "block_end ?t x \<le> h_brk ?t"
      using x'(1) a b assms(4) by (auto simp: f ends blocks_ok_def)
    fix y
    assume "y \<in> set ?zs \<union> A" and lt: "x < y"
    then have y': "y \<in> set ys \<union> A" "y \<noteq> b" using ys d b by auto
    show "block_end ?t x \<le> y"
    proof (cases "x = a")
      case False
      then show ?thesis using assms(4) x' y' lt by (auto simp: ends blocks_ok_def)
    next
      case True
      have "b \<le> y" using assms(2,4) a y' lt True by (auto simp: blocks_ok_def)
      then have "b < y" using y'(2) by simp
      then show ?thesis using assms(4) b y' True by (auto simp: ends blocks_ok_def)
    qed
  qed
  show ?thesis using fl bok assms(5) us ys by (intro exI[of _ ?zs]) auto
qed

definition merge_next :: "nat \<Rightarrow> heap \<Rightarrow> heap" where
  "merge_next a s = (if block_end s a = h_ptr s a then merge a (h_ptr s a) s else s)"

lemma merge_next_frame:
  "h_base (merge_next a s) = h_base s" "h_brk (merge_next a s) = h_brk s" "h_limit (merge_next a s) = h_limit s"
  "h_size s a \<le> h_size (merge_next a s) a" "x \<noteq> a \<Longrightarrow> h_size (merge_next a s) x = h_size s x"
  "x \<noteq> a \<Longrightarrow> h_ptr (merge_next a s) x = h_ptr s x" "h_start (merge_next a s) = h_start s"
  by (simp_all add: merge_next_def merge_def set_ptr_def set_size_def)

lemma merge_next_ok:
  assumes "h_base s # ys = us @ a # vs" "freelist (s\<lparr>h_freep := h_base s\<rparr>) ys"
    "blocks_ok s (set ys \<union> A)" "set ys \<inter> A = {}" "a \<noteq> h_base s \<or> vs \<noteq> []"
  shows "\<exists>zs vs'. h_base s # zs = us @ a # vs' \<and> freelist ((merge_next a s)\<lparr>h_freep := h_base s\<rparr>) zs \<and>
    blocks_ok (merge_next a s) (set zs \<union> A) \<and> set zs \<inter> A = {} \<and>
    (\<forall>b \<in> set ys. \<exists>z \<in> set zs. h_size s b \<le> h_size (merge_next a s) z)"
proof (cases "block_end s a = h_ptr s a")
  case False
  with assms show ?thesis unfolding merge_next_def by (intro exI[of _ ys] exI[of _ vs]) auto
next
  case True
  have ptr: "h_ptr s a = hd (vs @ [h_base s])" and srt: "sorted_wrt (<) (us @ a # vs)" and size0: "h_size s (h_base s) = 0"
    using assms(1,2) unfolding freelist_def by (simp_all add: chain_append chain_Cons)
  have nb: "a \<noteq> h_base s"
  proof
    assume ab: "a = h_base s"
    then obtain v vs' where "vs = v # vs'" using assms(5) by (cases vs) auto
    then show False using True ptr srt size0 ab by (simp add: block_end_def sorted_wrt_append)
  qed
  have "a \<in> set ys" using arg_cong[OF assms(1), of set] nb by auto
  then have "h_base s + HS \<le> a" using assms(3) unfolding blocks_ok_def by blast
  then have "h_base s < block_end s a" by (simp add: block_end_def)
  then have "h_ptr s a \<noteq> h_base s" using True by simp
  then obtain vs' where vs: "vs = h_ptr s a # vs'" using ptr by (cases vs) auto
  have mn: "merge_next a s = merge a (h_ptr s a) s" using True by (simp add: merge_next_def)
  have l: "h_base s # ys = us @ a # h_ptr s a # vs'" using assms(1) vs by simp
  obtain zs where zs: "h_base s # zs = us @ a # vs'"
    "freelist ((merge_next a s)\<lparr>h_freep := h_base s\<rparr>) zs" "blocks_ok (merge_next a s) (set zs \<union> A)" "set zs \<inter> A = {}"
    using merge_ok[OF l True assms(2-4) nb] unfolding mn by blast
  have grow: "h_size s a \<le> h_size (merge_next a s) a" "h_size s (h_ptr s a) \<le> h_size (merge_next a s) a"
    by (simp_all add: mn merge_def set_ptr_def set_size_def)
  have set: "a \<in> set zs" "set ys \<subseteq> insert (h_ptr s a) (set zs)"
    using zs(1) l nb by (cases us; simp; blast)+
  have "\<exists>z \<in> set zs. h_size s b \<le> h_size (merge_next a s) z" if "b \<in> set ys" for b
  proof (cases "b = a \<or> b = h_ptr s a")
    case True
    then show ?thesis using set(1) grow by blast
  next
    case False
    then have "b \<in> set zs" using that set(2) by blast
    then show ?thesis using merge_next_frame(5)[of b a s] False by (intro bexI[of _ b]) simp_all
  qed
  with zs show ?thesis by blast
qed

text \<open>The code links \<open>bp\<close> behind \<open>p\<close> and merges on both sides at once; the result is the same.\<close>

definition link :: "nat \<Rightarrow> nat \<Rightarrow> heap \<Rightarrow> heap" where
  "link bp p s = set_ptr p bp (set_ptr bp (h_ptr s p) s)"

lemma free_insert_steps:
  assumes "p < bp" "bp < block_end s bp"
  shows "free_insert bp p s = (merge_next p (merge_next bp (link bp p s)))\<lparr>h_freep := p\<rparr>"
  using assms
  by (auto simp: free_insert_def Let_def link_def merge_next_def merge_def set_ptr_def set_size_def block_end_def fun_upd_twist)

lemma link_ok:
  assumes "freelist s ys" "h_base s # ys = us @ p # vs" "p < bp" "\<forall>x \<in> set vs. bp < x" "h_base s < bp"
    "blocks_ok s (set ys \<union> A)" "set ys \<inter> A = {}" "bp \<in> A"
  shows "\<exists>zs. h_base s # zs = us @ p # bp # vs \<and> freelist ((link bp p s)\<lparr>h_freep := h_base s\<rparr>) zs \<and>
    blocks_ok (link bp p s) (set zs \<union> (A - {bp})) \<and> set zs \<inter> (A - {bp}) = {}"
proof -
  let ?t = "link bp p s"
  have f: "h_base ?t = h_base s" "h_brk ?t = h_brk s" "h_ptr ?t = (h_ptr s)(bp := h_ptr s p, p := bp)" "h_size ?t = h_size s"
    "block_end ?t = block_end s"
    by (simp_all add: link_def set_ptr_def block_end_def fun_eq_iff)
  have srt: "sorted_wrt (<) (us @ p # vs)" and ch: "chain (h_ptr s) (us @ p # vs) (h_base s)"
    using assms(1,2) unfolding freelist_def by simp_all
  then have d: "distinct (us @ p # vs)" by (intro ring_distinct)
  have "bp \<notin> set (h_base s # ys)" using assms(5,7,8) by auto
  then have bp: "bp \<notin> set (us @ p # vs)" unfolding assms(2) .
  have srt': "sorted_wrt (<) (us @ p # bp # vs)"
    using srt assms(3,4) unfolding sorted_wrt_append by (auto intro: less_trans)
  have ch': "chain (h_ptr ?t) (us @ p # bp # vs) (h_base s)"
    using ch d bp assms(3) unfolding f chain_append chain_Cons by simp
  obtain zs where zs: "h_base s # zs = us @ p # bp # vs" using assms(2) by (cases us) auto
  have nb: "h_base s \<notin> set zs" "h_base s \<notin> set ys"
    using ring_distinct[OF srt'] ring_distinct[OF srt] unfolding zs[symmetric] assms(2)[symmetric] by simp_all
  have "insert (h_base s) (set zs) = insert bp (insert (h_base s) (set ys))"
    unfolding list.set(2)[symmetric] zs assms(2) by (simp add: insert_commute)
  then have szs: "set zs = insert bp (set ys)" using nb assms(5) by (metis Diff_insert_absorb insert_commute insert_iff less_irrefl)
  have un: "insert x Y \<union> (B - {x}) = Y \<union> B" if "x \<in> B" for x and Y B :: "nat set" using that by auto
  have set: "set zs \<union> (A - {bp}) = set ys \<union> A" unfolding szs by (rule un[OF assms(8)])
  have "set zs \<inter> (A - {bp}) = {}" unfolding szs using assms(7) by blast
  moreover have "freelist (?t\<lparr>h_freep := h_base s\<rparr>) zs"
    using srt' ch' assms(1) unfolding zs[symmetric] freelist_def by (simp add: f)
  moreover have "blocks_ok ?t (set zs \<union> (A - {bp}))" using assms(6) unfolding set by (simp add: blocks_ok_def f)
  ultimately show ?thesis using zs by blast
qed

lemma free_ok:
  assumes "freelist s ys" "blocks_ok s (set ys \<union> A)" "set ys \<inter> A = {}" "bp \<in> A"
  shows "\<exists>t zs. free (bp + HS) s = Some t \<and> freelist t zs \<and> blocks_ok t (set zs \<union> (A - {bp})) \<and>
    set zs \<inter> (A - {bp}) = {} \<and> (\<exists>z \<in> set zs. h_size s bp \<le> h_size t z) \<and>
    h_base t = h_base s \<and> h_brk t = h_brk s \<and> h_limit t = h_limit s \<and>
    h_start t = h_start s \<and> (\<forall>a \<in> A - {bp}. h_size t a = h_size s a)"
proof -
  let ?A = "A - {bp}"
  have "0 < h_size s bp \<and> h_base s + HS \<le> bp" using assms(2,4) unfolding blocks_ok_def by blast
  moreover have "bp \<notin> set ys" using assms(3,4) by auto
  ultimately have bp: "h_base s < bp" "bp \<notin> set (h_base s # ys)" "0 < h_size s bp" by auto
  obtain us p vs where c: "h_base s # ys = us @ p # vs" "p < bp" "\<forall>x \<in> set vs. bp < x"
    "free_find s bp (h_freep s) = Some p"
    using free_find_place[OF assms(1) bp(2,1)] by blast
  define s0 s1 s2 where "s0 = link bp p s" and "s1 = merge_next bp s0" and "s2 = merge_next p s1"
  have f0: "h_base s0 = h_base s" "h_brk s0 = h_brk s" "h_limit s0 = h_limit s" "h_start s0 = h_start s" "h_size s0 = h_size s" "h_ptr s0 p = bp"
    by (simp_all add: s0_def link_def set_ptr_def)
  note f = merge_next_frame[where a = bp and s = s0, folded s1_def] merge_next_frame[where a = p and s = s1, folded s2_def] f0
  obtain z0 where z0: "h_base s # z0 = us @ p # bp # vs" "freelist (s0\<lparr>h_freep := h_base s\<rparr>) z0"
    "blocks_ok s0 (set z0 \<union> ?A)" "set z0 \<inter> ?A = {}"
    using link_ok[OF assms(1) c(1-3) bp(1) assms(2-4)] unfolding s0_def by blast
  have l0: "h_base s0 # z0 = (us @ [p]) @ bp # vs" "freelist (s0\<lparr>h_freep := h_base s0\<rparr>) z0" "bp \<noteq> h_base s0 \<or> vs \<noteq> []"
    using z0(1,2) bp(1) by (simp_all add: f0)
  obtain z1 vs1 where z1: "h_base s0 # z1 = (us @ [p]) @ bp # vs1" "freelist (s1\<lparr>h_freep := h_base s0\<rparr>) z1"
    "blocks_ok s1 (set z1 \<union> ?A)" "set z1 \<inter> ?A = {}" "\<forall>b \<in> set z0. \<exists>z \<in> set z1. h_size s0 b \<le> h_size s1 z"
    using merge_next_ok[OF l0(1,2) z0(3,4) l0(3)] unfolding s1_def by blast
  have l1: "h_base s1 # z1 = us @ p # bp # vs1" "freelist (s1\<lparr>h_freep := h_base s1\<rparr>) z1"
    using z1(1,2) f(1) by simp_all
  obtain z2 vs2 where z2: "h_base s1 # z2 = us @ p # vs2" "freelist (s2\<lparr>h_freep := h_base s1\<rparr>) z2"
    "blocks_ok s2 (set z2 \<union> ?A)" "set z2 \<inter> ?A = {}" "\<forall>b \<in> set z1. \<exists>z \<in> set z2. h_size s1 b \<le> h_size s2 z"
    using merge_next_ok[OF l1 z1(3,4)] unfolding s2_def by blast
  have "free (bp + HS) s = Some (s2\<lparr>h_freep := p\<rparr>)"
    using c(4) free_insert_steps[OF c(2), of s] bp(3) by (simp add: free_def s0_def s1_def s2_def block_end_def)
  moreover have "freelist (s2\<lparr>h_freep := p\<rparr>) z2"
  proof -
    have "p \<in> set (h_base s1 # z2)" unfolding z2(1) by simp
    then show ?thesis using z2(2) unfolding freelist_def by (simp add: f(1,8))
  qed
  moreover have "blocks_ok (s2\<lparr>h_freep := p\<rparr>) (set z2 \<union> ?A)" using z2(3) by (simp add: blocks_ok_def block_end_def)
  moreover have "\<exists>z \<in> set z2. h_size s bp \<le> h_size s2 z"
  proof -
    have "bp \<in> set z0" using z0(1) bp(1) by (cases us) auto
    then obtain y where "y \<in> set z1" "h_size s bp \<le> h_size s1 y" using z1(5) by (auto simp: f0)
    then show ?thesis using z2(5) le_trans by blast
  qed
  moreover have "\<forall>a \<in> ?A. h_size s2 a = h_size s a"
  proof
    fix a
    assume a: "a \<in> ?A"
    have "h_base s + HS \<le> a" using a assms(2) unfolding blocks_ok_def by blast
    moreover have "p \<in> set (h_base s # ys)" unfolding c(1) by simp
    ultimately have "p \<noteq> a" using a assms(3) by auto
    then show "h_size s2 a = h_size s a" using a f(5)[of a] f(12)[of a] f0(5) by simp
  qed
  moreover have "h_base s2 = h_base s" "h_brk s2 = h_brk s" "h_limit s2 = h_limit s" "h_start s2 = h_start s"
    using f(1-3,7-10,14) f0(1-4) by simp_all
  ultimately show ?thesis using z2(4) by (intro exI[of _ "s2\<lparr>h_freep := p\<rparr>"] exI[of _ z2]) simp
qed


lemma free_wf:
  assumes "freelist s ys" "blocks_ok s (set ys \<union> A)" "set ys \<inter> A = {}" "bp \<in> A"
    "h_base s + HS \<le> h_start s" "h_start s \<le> h_brk s"
  obtains t zs where "free (bp + HS) s = Some t" "freelist t zs" "blocks_ok t (set zs \<union> (A - {bp}))"
    "set zs \<inter> (A - {bp}) = {}" "\<exists>z \<in> set zs. h_size s bp \<le> h_size t z" "\<forall>a \<in> A - {bp}. h_size t a = h_size s a"
    "h_base t = h_base s" "h_brk t = h_brk s" "h_limit t = h_limit s" "h_start t = h_start s"
  using free_ok[OF assms(1-4)] by blast

subsection \<open>Taking a block\<close>

text \<open>A block of the requested size leaves the ring.\<close>

lemma take_whole:
  assumes "freelist s ys" "blocks_ok s (set ys \<union> A)" "set ys \<inter> A = {}" "h_base s # ys = us @ pr # p # vs"
  defines "t \<equiv> (set_ptr pr (h_ptr s p) s)\<lparr>h_freep := pr\<rparr>"
  shows "\<exists>zs. freelist t zs \<and> blocks_ok t (set zs \<union> insert p A) \<and> set zs \<inter> insert p A = {} \<and> p \<notin> A"
proof -
  have f: "h_base t = h_base s" "h_brk t = h_brk s" "h_ptr t = (h_ptr s)(pr := h_ptr s p)" "h_size t = h_size s"
    "block_end t = block_end s" "h_freep t = pr"
    by (simp_all add: t_def set_ptr_def block_end_def fun_eq_iff)
  have srt: "sorted_wrt (<) (us @ pr # p # vs)" and ch: "chain (h_ptr s) (us @ pr # p # vs) (h_base s)"
    using assms(1,4) unfolding freelist_def by simp_all
  then have d: "distinct (us @ pr # p # vs)" by (intro ring_distinct)
  obtain zs where zs: "h_base s # zs = us @ pr # vs" using assms(4) by (cases us) auto
  have ch': "chain (h_ptr t) (us @ pr # vs) (h_base s)"
    using ch d unfolding f chain_append chain_Cons by simp
  have srt': "sorted_wrt (<) (us @ pr # vs)" using srt unfolding sorted_wrt_append by simp
  have nb: "h_base s \<notin> set zs" "h_base s \<notin> set ys"
    using ring_distinct[OF srt'] d unfolding zs[symmetric] assms(4)[symmetric] by simp_all
  have un: "insert (h_base s) (set ys) = insert p (insert (h_base s) (set zs))"
    unfolding list.set(2)[symmetric] zs assms(4) by (simp add: insert_commute)
  have "p \<in> set ys" using assms(4) by (cases us) auto
  then have p: "p \<noteq> h_base s" "p \<notin> A" using nb assms(3) by auto
  then have "set ys = insert p (set zs)" using nb un by (metis Diff_insert_absorb insert_commute insert_iff)
  moreover have "p \<notin> set zs"
  proof -
    have "p \<notin> set (us @ pr # vs)" using d by auto
    then show ?thesis unfolding zs[symmetric] by simp
  qed
  ultimately have s: "set zs \<union> insert p A = set ys \<union> A" "set zs \<inter> insert p A = {}" using assms(3) by auto
  have "blocks_ok t (set zs \<union> insert p A)" using assms(2) unfolding s by (simp add: blocks_ok_def f)
  moreover have "pr \<in> set (h_base s # zs)" unfolding zs by simp
  then have "freelist t zs" using srt' ch' assms(1) unfolding zs[symmetric] freelist_def by (simp add: f)
  ultimately show ?thesis using s(2) p(2) by blast
qed

text \<open>From a larger block the tail is cut off; the ring stays.\<close>

lemma take_tail:
  assumes "freelist s ys" "blocks_ok s (set ys \<union> A)" "set ys \<inter> A = {}" "p \<in> set ys" "0 < n" "n < h_size s p"
    "pr \<in> set (h_base s # ys)"
  defines "q \<equiv> p + HS * (h_size s p - n)"
  defines "t \<equiv> (set_size q n (set_size p (h_size s p - n) s))\<lparr>h_freep := pr\<rparr>"
  shows "freelist t ys \<and> blocks_ok t (set ys \<union> insert q A) \<and> set ys \<inter> insert q A = {} \<and> q \<notin> A"
proof -
  have p: "p < q" "q + HS * n = block_end s p" using assms(5,6) by (simp_all add: q_def block_end_def diff_mult_distrib2)
  have f: "h_base t = h_base s" "h_brk t = h_brk s" "h_ptr t = h_ptr s" "h_size t = (h_size s)(p := h_size s p - n, q := n)"
    "h_freep t = pr"
    by (simp_all add: t_def set_size_def)
  have e: "block_end t p = q" "block_end t q = block_end s p" "x \<noteq> p \<Longrightarrow> x \<noteq> q \<Longrightarrow> block_end t x = block_end s x" for x
    using p by (simp_all add: block_end_def f)
  let ?B = "set ys \<union> A"
  have ok: "0 < h_size s a" "h_base s + HS \<le> a" "block_end s a \<le> h_brk s" if "a \<in> ?B" for a
    using assms(2) that unfolding blocks_ok_def by blast+
  have dis: "block_end s a \<le> b" if "a \<in> ?B" "b \<in> ?B" "a < b" for a b
    using assms(2) that unfolding blocks_ok_def by blast
  have qb: "q \<notin> ?B"
  proof
    assume "q \<in> ?B"
    with dis[of p q] p assms(4,5) show False by simp
  qed
  have qx: "block_end s x \<le> q" if "x \<in> ?B" "x < q" "x \<noteq> p" for x
  proof (cases "x < p")
    case True
    with dis[of x p] that assms(4) p show ?thesis by simp
  next
    case False
    with dis[of p x] that assms(4) have "block_end s p \<le> x" by simp
    with p that show ?thesis by simp
  qed
  have "blocks_ok t (insert q ?B)"
    unfolding blocks_ok_def
  proof (intro ballI conjI impI)
    fix a
    assume a: "a \<in> insert q ?B"
    show "0 < h_size t a" using a assms(5,6) ok by (auto simp: f)
    show "h_base t + HS \<le> a" using a ok(2)[of a] ok(2)[of p] assms(4) p(1) by (cases "a = q") (simp_all add: f)
    show "block_end t a \<le> h_brk t"
      using a e ok(3)[of p] ok(3)[of a] assms(4) p by (cases "a = p \<or> a = q") (auto simp: f)
    fix b
    assume b: "b \<in> insert q ?B" "a < b"
    consider "a = p" "b = q" | "a = p" "b \<in> ?B" | "a = q" "b \<in> ?B" | "a \<noteq> p" "a \<in> ?B" "b = q" | "a \<noteq> p" "a \<in> ?B" "b \<in> ?B"
      using a b by auto
    then show "block_end t a \<le> b"
    proof cases
      case 2
      then show ?thesis using dis[of p b] b assms(4) e p by simp
    next
      case 3
      then show ?thesis using dis[of p b] b assms(4) e p by simp
    next
      case 4
      moreover have "a \<noteq> q" using 4 b by simp
      ultimately show ?thesis using qx[of a] b e(3)[of a] by simp
    next
      case 5
      then have "a \<noteq> q" using qb by blast
      then show ?thesis using dis[OF 5(2,3) b(2)] e(3)[OF 5(1)] by simp
    qed (use e in simp)
  qed
  moreover have "freelist t ys"
  proof -
    have "h_base s + HS \<le> p" using ok(2) assms(4) by simp
    then show ?thesis using assms(1,7) p(1) unfolding freelist_def by (simp add: f)
  qed
  moreover have "set ys \<union> insert q A = insert q ?B" by simp
  ultimately show ?thesis using qb assms(3) by simp
qed

definition taken :: "heap \<Rightarrow> nat set \<Rightarrow> nat \<Rightarrow> heap \<Rightarrow> nat \<Rightarrow> bool" where
  "taken s A n t q \<longleftrightarrow> (\<exists>zs. freelist t zs \<and> blocks_ok t (set zs \<union> insert q A) \<and> set zs \<inter> insert q A = {}) \<and> q \<notin> A \<and>
     h_size t q = n \<and> (\<forall>a \<in> A. h_size t a = h_size s a) \<and> h_base t = h_base s \<and> h_start t = h_start s \<and> h_brk t = h_brk s"

lemma ring_next:
  assumes "freelist s ys" "pr \<in> set (h_base s # ys)" "h_ptr s pr \<noteq> h_base s"
  obtains us vs where "h_base s # ys = us @ pr # h_ptr s pr # vs"
proof -
  obtain us vs where s: "h_base s # ys = us @ pr # vs" using split_list[OF assms(2)] by blast
  have "chain (h_ptr s) (us @ pr # vs) (h_base s)" using assms(1) s unfolding freelist_def by simp
  then have "h_ptr s pr = hd (vs @ [h_base s])" unfolding chain_append chain_Cons by simp
  with assms(3) s that show thesis by (cases vs) auto
qed

lemma malloc_take_ok:
  assumes "freelist s ys" "blocks_ok s (set ys \<union> A)" "set ys \<inter> A = {}" "pr \<in> set (h_base s # ys)"
    "p = h_ptr s pr" "0 < n" "n \<le> h_size s p"
  shows "\<exists>q t. malloc_take n pr p s = (q + HS, t) \<and> taken s A n t q"
proof -
  have "p \<noteq> h_base s" using assms(1,6,7) unfolding freelist_def by auto
  then obtain us vs where r: "h_base s # ys = us @ pr # p # vs" using ring_next[OF assms(1,4)] assms(5) by metis
  have p: "p \<in> set ys" using r by (cases us) auto
  show ?thesis
  proof (cases "h_size s p = n")
    case True
    with take_whole[OF assms(1-3) r] show ?thesis
      by (intro exI[of _ p] exI[of _ "(set_ptr pr (h_ptr s p) s)\<lparr>h_freep := pr\<rparr>"])
        (auto simp: malloc_take_def taken_def set_ptr_def)
  next
    case False
    define q where "q = p + HS * (h_size s p - n)"
    define t where "t = (set_size q n (set_size p (h_size s p - n) s))\<lparr>h_freep := pr\<rparr>"
    have "p \<notin> A" using p assms(3) by auto
    moreover have "n < h_size s p" using False assms(7) by simp
    note take_tail[OF assms(1-3) p assms(6) this assms(4), folded q_def, folded t_def]
    moreover have "malloc_take n pr p s = (q + HS, t)"
      using False by (simp add: malloc_take_def q_def t_def set_size_def Let_def)
    ultimately show ?thesis
      by (intro exI[of _ q] exI[of _ t]) (auto simp: taken_def t_def set_size_def)
  qed
qed

subsection \<open>The walk of malloc\<close>

text \<open>The ring, seen from \<^verbatim>\<open>freep\<close>: the walk starts behind it and ends with it.\<close>

lemma ring_from_freep:
  assumes "freelist s ys"
  obtains L where "set L = set (h_base s # ys)" "last L = h_freep s" "h_freep s \<notin> set (butlast L)" "L \<noteq> []"
    "chain (h_ptr s) L (hd L)" "hd L = h_ptr s (h_freep s)"
proof -
  have "h_freep s \<in> set (h_base s # ys)" using assms unfolding freelist_def by simp
  then obtain us vs where s: "h_base s # ys = us @ h_freep s # vs" using split_list by fast
  have ch: "chain (h_ptr s) (us @ h_freep s # vs) (h_base s)" and d: "distinct (us @ h_freep s # vs)"
    using assms s ring_distinct unfolding freelist_def by metis+
  have hd: "hd (us @ h_freep s # xs) = h_base s" for xs using s by (cases us) auto
  let ?L = "vs @ us @ [h_freep s]"
  have "hd ?L = hd (vs @ [h_base s])" using hd by (cases vs) auto
  then have "chain (h_ptr s) ?L (hd ?L)" "hd ?L = h_ptr s (h_freep s)"
    using ch hd unfolding chain_append chain_Cons by (simp_all add: hd)
  moreover have "set ?L = set (h_base s # ys)" unfolding s by auto
  moreover have "h_freep s \<notin> set (butlast ?L)" using d by (simp add: butlast_append)
  ultimately show thesis using that[of ?L] by simp
qed

definition malloc_more :: "nat \<Rightarrow> heap \<Rightarrow> (nat option \<times> heap) option" where
  "malloc_more n s =
     (case morecore n s of
        None \<Rightarrow> None
      | Some (None, s') \<Rightarrow> Some (None, s')
      | Some (Some q, s') \<Rightarrow> malloc_loop n q (h_ptr s' q) s')"

lemma malloc_loop_step:
  "malloc_loop n pr p s =
     (if h_size s p \<ge> n then (case malloc_take n pr p s of (a, s') \<Rightarrow> Some (Some a, s'))
      else if p = h_freep s then malloc_more n s else malloc_loop n p (h_ptr s p) s)"
  by (subst malloc_loop.simps) (simp only: malloc_more_def)

lemma malloc_walk:
  "chain (h_ptr s) L e \<Longrightarrow> L \<noteq> [] \<Longrightarrow> last L = h_freep s \<Longrightarrow> h_freep s \<notin> set (butlast L) \<Longrightarrow> hd L = h_ptr s pr \<Longrightarrow>
   (\<forall>x \<in> set L. h_size s x < n) \<and> malloc_loop n pr (hd L) s = malloc_more n s \<or>
   (\<exists>p \<in> insert pr (set L). n \<le> h_size s (h_ptr s p) \<and>
      malloc_loop n pr (hd L) s = (case malloc_take n p (h_ptr s p) s of (a, s') \<Rightarrow> Some (Some a, s')))"
proof (induction L arbitrary: pr)
  case (Cons x L)
  show ?case
  proof (cases "n \<le> h_size s x")
    case True
    then show ?thesis using Cons.prems(5) by (subst (1 2) malloc_loop_step) auto
  next
    case small: False
    show ?thesis
    proof (cases L)
      case Nil
      then show ?thesis using small Cons.prems(3) by (subst (1 2) malloc_loop_step) auto
    next
      case (Cons y L')
      have c: "chain (h_ptr s) L e" "h_ptr s x = y" "x \<noteq> h_freep s" "last L = h_freep s" "h_freep s \<notin> set (butlast L)"
        using Cons.prems(1,3,4) Cons by auto
      have st: "malloc_loop n pr (hd (x # L)) s = malloc_loop n x (hd L) s"
        using small c(2,3) Cons by (subst malloc_loop_step) simp
      have "(\<forall>x \<in> set L. h_size s x < n) \<and> malloc_loop n x (hd L) s = malloc_more n s \<or>
        (\<exists>p \<in> insert x (set L). n \<le> h_size s (h_ptr s p) \<and>
          malloc_loop n x (hd L) s = (case malloc_take n p (h_ptr s p) s of (a, s') \<Rightarrow> Some (Some a, s')))"
        by (rule Cons.IH) (use c Cons in auto)
      then show ?thesis unfolding st using small by auto
    qed
  qed
qed simp

subsection \<open>Growing the heap\<close>

lemma blocks_grow:
  assumes "freelist s ys" "blocks_ok s (set ys \<union> A)" "h_base s + HS \<le> h_brk s" "0 < nu"
  defines "t \<equiv> set_size (h_brk s) nu (s\<lparr>h_brk := h_brk s + HS * nu\<rparr>)"
  shows "freelist t ys" "blocks_ok t (set ys \<union> insert (h_brk s) A)" "h_brk s \<notin> set ys \<union> A"
proof -
  let ?B = "set ys \<union> A"
  have ok: "0 < h_size s a" "h_base s + HS \<le> a" "block_end s a \<le> h_brk s" if "a \<in> ?B" for a
    using assms(2) that unfolding blocks_ok_def by blast+
  have lt: "a < h_brk s" if "a \<in> ?B" for a using ok(1,3)[OF that] by (simp add: block_end_def)
  then show nb: "h_brk s \<notin> ?B" by blast
  have f: "h_base t = h_base s" "h_brk t = h_brk s + HS * nu" "h_size t = (h_size s)(h_brk s := nu)" "h_ptr t = h_ptr s"
    "h_freep t = h_freep s"
    by (simp_all add: t_def set_size_def)
  have e: "block_end t (h_brk s) = h_brk s + HS * nu" "a \<in> ?B \<Longrightarrow> block_end t a = block_end s a" for a
    using nb by (auto simp: block_end_def f)
  show "freelist t ys" using assms(1,3) unfolding freelist_def by (simp add: f)
  show "blocks_ok t (set ys \<union> insert (h_brk s) A)"
    unfolding blocks_ok_def
  proof (intro ballI conjI impI)
    fix a
    assume a: "a \<in> set ys \<union> insert (h_brk s) A"
    then have c: "a = h_brk s \<or> a \<in> ?B" by auto
    show "0 < h_size t a" using c ok(1) assms(4) by (auto simp: f)
    show "h_base t + HS \<le> a" using c ok(2)[of a] assms(3) unfolding f by blast
    show "block_end t a \<le> h_brk t" using c e(1) e(2)[of a] ok(3)[of a] unfolding f by (metis le_add1 le_refl le_trans)
    fix b
    assume b: "b \<in> set ys \<union> insert (h_brk s) A" "a < b"
    then have d: "b = h_brk s \<or> b \<in> ?B" by auto
    with b(2) c lt[of b] have "a \<in> ?B" by auto
    then show "block_end t a \<le> b"
      using d e(2)[of a] ok(3)[of a] assms(2) b(2) unfolding blocks_ok_def by auto
  qed
qed

lemma sint_units:
  assumes "HS * nu < 2 ^ 31"
  shows "sint (of_nat (HS * nu) :: u32) = int (HS * nu)"
proof -
  have "(of_nat (HS * nu) :: u32) = word_of_int (int (HS * nu))" by (simp only: of_int_of_nat_eq)
  with assms show ?thesis by (simp only: sint_sbintrunc') (simp add: signed_take_bit_int_eq_self)
qed

lemma morecore_ok:
  assumes "freelist s ys" "blocks_ok s (set ys \<union> A)" "set ys \<inter> A = {}" "h_base s + HS \<le> h_start s" "h_start s \<le> h_brk s"
    "HS * n < 2 ^ 31"
  defines "nu \<equiv> max 4096 n"
  shows "morecore n s = Some (None, s) \<and> h_limit s < h_brk s + HS * nu \<or>
    (\<exists>t zs. morecore n s = Some (Some (h_freep t), t) \<and> freelist t zs \<and> blocks_ok t (set zs \<union> A) \<and> set zs \<inter> A = {} \<and>
      (\<exists>z \<in> set zs. n \<le> h_size t z) \<and> (\<forall>a \<in> A. h_size t a = h_size s a) \<and> h_base t = h_base s \<and>
      h_start t = h_start s \<and> h_brk t = h_brk s + HS * nu)"
proof -
  have nu: "(if n < 4096 then 4096 else n) = nu" "0 < nu" "n \<le> nu" by (auto simp: nu_def)
  have si: "sint (of_nat (HS * nu) :: u32) = int (HS * nu)"
    by (rule sint_units) (use assms(6) in \<open>simp add: nu_def max_def\<close>)
  show ?thesis
  proof (cases "h_limit s < h_brk s + HS * nu")
    case True
    then show ?thesis using nu(2) unfolding morecore_def nu(1) Let_def si by (simp add: usbrk_def)
  next
    case False
    let ?p = "h_brk s"
    define s1 where "s1 = set_size ?p nu (s\<lparr>h_brk := ?p + HS * nu\<rparr>)"
    have g: "freelist s1 ys" "blocks_ok s1 (set ys \<union> insert ?p A)" "?p \<notin> set ys \<union> A"
      using blocks_grow[OF assms(1,2) _ nu(2)] assms(4,5) unfolding s1_def by simp_all
    have f: "h_base s1 = h_base s" "h_brk s1 = ?p + HS * nu" "h_start s1 = h_start s" "h_size s1 = (h_size s)(?p := nu)"
      by (simp_all add: s1_def set_size_def)
    obtain t zs where t: "free (?p + HS) s1 = Some t" "freelist t zs" "blocks_ok t (set zs \<union> (insert ?p A - {?p}))"
      "set zs \<inter> (insert ?p A - {?p}) = {}" "\<exists>z \<in> set zs. h_size s1 ?p \<le> h_size t z"
      "\<forall>a \<in> insert ?p A - {?p}. h_size t a = h_size s1 a"
      "h_base t = h_base s1" "h_brk t = h_brk s1" "h_start t = h_start s1"
      by (rule free_wf[OF g(1,2), of ?p]) (use g(3) assms(3-5) f in auto)
    have A: "insert ?p A - {?p} = A" using g(3) by simp
    have sz: "\<exists>z \<in> set zs. n \<le> h_size t z" using t(5) nu(3) f(4) le_trans by fastforce
    have rest: "\<forall>a \<in> A. h_size t a = h_size s a" using t(6) g(3) unfolding A f by auto
    have "usbrk (int (HS * nu)) s = Some (?p, s\<lparr>h_brk := ?p + HS * nu\<rparr>)"
      using False assms(5) by (simp add: usbrk_def nat_add_distrib nat_mult_distrib)
    then have "morecore n s = Some (Some (h_freep t), t)"
      using t(1) unfolding morecore_def nu(1) Let_def si by (simp add: s1_def)
    then show ?thesis using t(2-4,7-9) sz rest unfolding A f by blast
  qed
qed

subsection \<open>malloc and free\<close>

lemma malloc_loop_found:
  assumes "freelist s ys" "blocks_ok s (set ys \<union> A)" "set ys \<inter> A = {}" "0 < n"
  shows "(\<forall>y \<in> set ys. h_size s y < n) \<and> malloc_loop n (h_freep s) (h_ptr s (h_freep s)) s = malloc_more n s \<or>
    (\<exists>q t. malloc_loop n (h_freep s) (h_ptr s (h_freep s)) s = Some (Some (q + HS), t) \<and> taken s A n t q)"
proof -
  obtain L where L: "set L = set (h_base s # ys)" "last L = h_freep s" "h_freep s \<notin> set (butlast L)" "L \<noteq> []"
    "chain (h_ptr s) L (hd L)" "hd L = h_ptr s (h_freep s)"
    by (rule ring_from_freep[OF assms(1)])
  have fp: "h_freep s \<in> set (h_base s # ys)" using assms(1) unfolding freelist_def by simp
  consider "\<forall>x \<in> set L. h_size s x < n" "malloc_loop n (h_freep s) (hd L) s = malloc_more n s"
    | p where "p \<in> insert (h_freep s) (set L)" "n \<le> h_size s (h_ptr s p)"
      "malloc_loop n (h_freep s) (hd L) s = (case malloc_take n p (h_ptr s p) s of (a, s') \<Rightarrow> Some (Some a, s'))"
    using malloc_walk[OF L(5,4,2,3,6), of n] by blast
  then show ?thesis
  proof cases
    case 1
    then show ?thesis using L(1,6) by auto
  next
    case 2
    have "p \<in> set (h_base s # ys)" using 2(1) L(1) fp by auto
    from malloc_take_ok[OF assms(1-3) this refl assms(4) 2(2)] 2(3) L(6) show ?thesis by auto
  qed
qed

lemma malloc_ready:
  assumes "freelist s ys" "blocks_ok s (set ys \<union> A)" "set ys \<inter> A = {}" "h_base s + HS \<le> h_start s" "h_start s \<le> h_brk s"
    "0 < n" "HS * n < 2 ^ 31"
  shows "malloc_loop n (h_freep s) (h_ptr s (h_freep s)) s = Some (None, s) \<and> (\<forall>y \<in> set ys. h_size s y < n) \<and>
      h_limit s < h_brk s + HS * max 4096 n \<or>
    (\<exists>q t. malloc_loop n (h_freep s) (h_ptr s (h_freep s)) s = Some (Some (q + HS), t) \<and>
      (taken s A n t q \<or> (\<exists>s'. taken s' A n t q \<and> (\<forall>a \<in> A. h_size s' a = h_size s a) \<and> h_base s' = h_base s \<and>
         h_start s' = h_start s \<and> h_brk s \<le> h_brk s')))"
proof -
  consider "\<forall>y \<in> set ys. h_size s y < n" "malloc_loop n (h_freep s) (h_ptr s (h_freep s)) s = malloc_more n s"
    | "\<exists>q t. malloc_loop n (h_freep s) (h_ptr s (h_freep s)) s = Some (Some (q + HS), t) \<and> taken s A n t q"
    using malloc_loop_found[OF assms(1-3,6)] by blast
  then show ?thesis
  proof cases
    case 1
    consider "morecore n s = Some (None, s)" "h_limit s < h_brk s + HS * max 4096 n"
      | t zs where "morecore n s = Some (Some (h_freep t), t)" "freelist t zs" "blocks_ok t (set zs \<union> A)" "set zs \<inter> A = {}"
        "\<exists>z \<in> set zs. n \<le> h_size t z" "\<forall>a \<in> A. h_size t a = h_size s a" "h_base t = h_base s" "h_start t = h_start s"
        "h_brk t = h_brk s + HS * max 4096 n"
      using morecore_ok[OF assms(1-5,7)] by blast
    then show ?thesis
    proof cases
      case 1
      with \<open>\<forall>y \<in> set ys. h_size s y < n\<close> \<open>malloc_loop n (h_freep s) (h_ptr s (h_freep s)) s = malloc_more n s\<close>
      show ?thesis by (simp add: malloc_more_def)
    next
      case (2 t zs)
      then have "\<not> (\<forall>y \<in> set zs. h_size t y < n)" by (meson not_le)
      with malloc_loop_found[OF 2(2-4) assms(6)] obtain q u where
        u: "malloc_loop n (h_freep t) (h_ptr t (h_freep t)) t = Some (Some (q + HS), u)" "taken t A n u q" by blast
      have "malloc_loop n (h_freep s) (h_ptr s (h_freep s)) s = Some (Some (q + HS), u)"
        using 1(2) u(1) 2(1) by (simp add: malloc_more_def)
      moreover have "h_brk s \<le> h_brk t" using 2(9) by simp
      ultimately show ?thesis using u(2) 2(6-8) by blast
    qed
  qed blast
qed

text \<open>The first call sets up the ring; afterwards \<^verbatim>\<open>malloc\<close> finds it ready.\<close>

lemma malloc_setup:
  assumes "wf_heap s A"
  obtains s1 ys where "malloc nbytes s = malloc_loop (units nbytes) (h_freep s1) (h_ptr s1 (h_freep s1)) s1"
    "freelist s1 ys" "blocks_ok s1 (set ys \<union> A)" "set ys \<inter> A = {}" "h_base s1 = h_base s" "h_start s1 = h_start s"
    "h_brk s1 = h_brk s" "h_limit s1 = h_limit s" "\<forall>a \<in> A. h_size s1 a = h_size s a" "h_freep s \<noteq> 0 \<Longrightarrow> s1 = s"
proof (cases "h_freep s = 0")
  case True
  have "\<not> (\<exists>ys. freelist s ys)" using True unfolding freelist_def by auto
  then have A: "A = {}" "0 < h_base s" using assms unfolding wf_heap_def by auto
  define s1 where "s1 = (set_size (h_base s) 0 (set_ptr (h_base s) (h_base s) s))\<lparr>h_freep := h_base s\<rparr>"
  have "freelist s1 []" using A by (simp add: freelist_def s1_def set_size_def set_ptr_def)
  moreover have "malloc nbytes s = malloc_loop (units nbytes) (h_freep s1) (h_ptr s1 (h_freep s1)) s1"
    using True by (simp add: malloc_def s1_def)
  ultimately show thesis
    using that[of s1 "[]"] A True by (simp add: blocks_ok_def s1_def set_size_def set_ptr_def)
next
  case False
  then obtain ys where "freelist s ys" "blocks_ok s (set ys \<union> A)" "set ys \<inter> A = {}" using assms unfolding wf_heap_def by auto
  with False that[of s ys] show thesis by (simp add: malloc_def)
qed

lemma units_pos: "0 < units nbytes" "nbytes + HS \<le> HS * units nbytes" "HS * units nbytes < nbytes + 2 * HS"
  unfolding units_def by presburger+

lemma taken_wf:
  assumes "taken s A n t q" "0 < h_base s" "h_base s + HS \<le> h_start s" "h_start s \<le> h_brk s"
  shows "wf_heap t (insert q A)" "q \<notin> A" "block_end t q = q + HS * n" "block_end t q \<le> h_brk t"
    "a \<in> A \<Longrightarrow> h_size t a = h_size s a" "a \<in> A \<Longrightarrow> block_end t a \<le> q \<or> block_end t q \<le> a" "h_brk t = h_brk s"
proof -
  obtain zs where z: "freelist t zs" "blocks_ok t (set zs \<union> insert q A)" "set zs \<inter> insert q A = {}"
    using assms(1) unfolding taken_def by blast
  have t: "q \<notin> A" "h_size t q = n" "\<forall>a \<in> A. h_size t a = h_size s a" "h_base t = h_base s" "h_start t = h_start s"
    "h_brk t = h_brk s"
    using assms(1) unfolding taken_def by blast+
  show "wf_heap t (insert q A)" using z t assms(2-4) unfolding wf_heap_def by metis
  show "q \<notin> A" "block_end t q = q + HS * n" "h_brk t = h_brk s" "a \<in> A \<Longrightarrow> h_size t a = h_size s a"
    using t by (auto simp: block_end_def)
  show "block_end t q \<le> h_brk t" using z(2) unfolding blocks_ok_def by blast
  show "block_end t a \<le> q \<or> block_end t q \<le> a" if "a \<in> A"
    using z(2) that t(1) unfolding blocks_ok_def by (metis UnI2 insertCI nat_neq_iff)
qed



definition heap0 :: heap where
  "heap0 = \<lparr>h_ptr = \<lambda>_. 0, h_size = \<lambda>_. 0, h_freep = 0, h_base = 4096, h_start = 8192, h_brk = 8192, h_limit = 1048576\<rparr>"



definition heap1 :: heap where
  "heap1 = heap0\<lparr>h_ptr := \<lambda>_. 4096, h_size := (\<lambda>_. 0)(8192 := 8), h_freep := 4096, h_brk := 8320\<rparr>"


subsection \<open>Requests beyond two gigabytes\<close>

text \<open>
  A request of 4294967280 bytes needs \<open>2 ^ 28\<close> units, and \<open>2 ^ 28 * 16\<close> becomes the \<^verbatim>\<open>int\<close> 0: \<^verbatim>\<open>sbrk\<close>
  succeeds without growing the heap, and \<^verbatim>\<open>malloc\<close> returns a block far beyond the break instead of null.
\<close>

lemma malloc_overflow:
  "\<exists>t. malloc 4294967280 heap0 = Some (Some 8208, t) \<and> h_brk t = 8192 \<and> block_end t 8192 = 8192 + 2 ^ 32"
proof -
  define s1 where "s1 = heap0\<lparr>h_ptr := (\<lambda>_. 0)(4096 := 4096), h_size := \<lambda>_. 0, h_freep := 4096\<rparr>"
  define s2 where "s2 = s1\<lparr>h_ptr := (\<lambda>_. 0)(8192 := 4096, 4096 := 8192), h_size := (\<lambda>_. 0)(8192 := 2 ^ 28)\<rparr>"
  have u: "units 4294967280 = 268435456" by (simp add: units_def)
  have z: "sint (of_nat (HS * 268435456) :: u32) = 0" by simp
  have ff: "free_find s 8192 4096 = Some 4096" if "h_ptr s 4096 = 4096" for s
    using that by (subst free_find.simps) simp
  have f: "free 8208 (set_size 8192 268435456 (s1\<lparr>h_brk := 8192\<rparr>)) = Some s2"
    by (simp add: free_def ff s1_def s2_def heap0_def set_size_def set_ptr_def free_insert_def block_end_def Let_def fun_eq_iff)
  have m: "morecore 268435456 s1 = Some (Some 4096, s2)"
    using f z by (simp add: morecore_def usbrk_def s1_def s2_def heap0_def)
  have "malloc 4294967280 heap0 = malloc_loop 268435456 4096 4096 s1"
    unfolding malloc_def u by (simp add: s1_def heap0_def set_size_def set_ptr_def Let_def fun_upd_idem)
  also have "\<dots> = malloc_loop 268435456 4096 8192 s2"
  proof -
    have "h_size s1 4096 = 0" "h_freep s1 = 4096" "h_ptr s2 4096 = 8192" by (simp_all add: s1_def s2_def)
    then show ?thesis by (subst malloc_loop_step) (simp add: malloc_more_def m)
  qed
  also have "\<dots> = Some (Some 8208, (set_ptr 4096 4096 s2)\<lparr>h_freep := 4096\<rparr>)"
    by (subst malloc_loop_step) (simp add: malloc_take_def s2_def)
  finally show ?thesis by (simp add: s2_def s1_def heap0_def set_ptr_def block_end_def)
qed

end
