(* ===== verification/Virtio.thy ===== *)
theory Virtio
  imports Bio Ring
begin

text \<open>
  The disk driver, \<^verbatim>\<open>src/kernel/virtio_disk.c\<close> with the structures of \<^verbatim>\<open>src/kernel/virtio.h\<close>.
  The driver and the device share a table of descriptors and two rings. The driver runs under
  \<^verbatim>\<open>vdisk_lock\<close>, which it gives up only in \<^verbatim>\<open>sleep\<close>; so \<^verbatim>\<open>virtio_disk_rw\<close> is split there, into the
  part that queues a request and the part that runs when the request has been completed.

  The addresses that the driver writes into descriptors point to three kinds of objects, and are
  represented by what they point to. Requests come from the buffer cache, whose buffers
  (\<open>buf\<close>) are the objects that \<^verbatim>\<open>b\<close> points to. The registers of the device that the driver writes are
  recorded in order; the values it reads are arguments. The arrays with \<^verbatim>\<open>NUM\<close> elements that
  are not rings are functions of the index.
\<close>

abbreviation (input) NUM :: nat where "NUM \<equiv> 8"
abbreviation (input) VRING_DESC_F_NEXT :: u16 where "VRING_DESC_F_NEXT \<equiv> 1"
abbreviation (input) VRING_DESC_F_WRITE :: u16 where "VRING_DESC_F_WRITE \<equiv> 2"

subsection \<open>The shared structures\<close>

datatype dma = Null | OpHdr nat | BufData nat | StatusByte nat

record virtq_desc =
  vq_addr :: dma
  vq_len :: u32
  vq_flags :: u16
  vq_next :: u16

record virtio_blk_req =
  rq_type :: u32
  rq_reserved :: u32
  rq_sector :: u64

record vinfo =
  in_b :: "nat option"
  in_status :: u8

datatype vchan = Ch_free | Ch_buf nat

record vdisk =
  v_desc :: "nat \<Rightarrow> virtq_desc"
  v_avail_idx :: u16
  v_avail :: "u16 list"
  v_uidx :: u16
  v_used :: "u32 list"
  v_free :: "nat \<Rightarrow> bool"
  v_used_idx :: u16
  v_info :: "nat \<Rightarrow> vinfo"
  v_ops :: "nat \<Rightarrow> virtio_blk_req"
  v_bufs :: "nat \<Rightarrow> buf"
  v_wakes :: "vchan list"
  v_mmio :: "(u32 \<times> u32) list"

definition desc0 :: virtq_desc where
  "desc0 = \<lparr>vq_addr = Null, vq_len = 0, vq_flags = 0, vq_next = 0\<rparr>"

definition wR :: "u32 \<Rightarrow> u32 \<Rightarrow> vdisk \<Rightarrow> vdisk" where
  "wR r v s = s\<lparr>v_mmio := v_mmio s @ [(r, v)]\<rparr>"

subsection \<open>Initialisation\<close>

text \<open>
  \<open>R\<close> gives the values that the registers of the device hold; \<open>pages\<close> is the address of
  \<^verbatim>\<open>disk.pages\<close>. Clearing the pages clears the descriptors and both rings.
\<close>

definition clear_features :: "u64 \<Rightarrow> u64" where
  "clear_features f =
     foldl (\<lambda>f b. f AND NOT (push_bit b 1)) f [5, 7, 11, 12, 27, 29, 28]"

definition virtio_disk_init :: "(u32 \<Rightarrow> u32) \<Rightarrow> u64 \<Rightarrow> (vdisk, unit) kmon" where
  "virtio_disk_init R pages =
     (if R 0x000 \<noteq> 0x74726976 \<or> R 0x004 \<noteq> 1 \<or> R 0x008 \<noteq> 2 \<or> R 0x00c \<noteq> 0x554d4551
      then panic ''could not find virtio disk''
      else
        kseq (kmodify (wR 0x070 1))
       (kseq (kmodify (wR 0x070 3))
       (kseq (kmodify (wR 0x020 (ucast (clear_features (ucast (R 0x010))))))
       (kseq (kmodify (wR 0x070 11))
       (kseq (kmodify (wR 0x070 15))
       (kseq (kmodify (wR 0x028 4096))
       (kseq (kmodify (wR 0x030 0))
             (if R 0x034 = 0 then panic ''virtio disk has no queue 0''
              else if R 0x034 < of_nat NUM then panic ''virtio disk max queue too short''
              else
                kseq (kmodify (wR 0x038 (of_nat NUM)))
               (kseq (kmodify (\<lambda>s. s\<lparr>v_desc := \<lambda>_. desc0, v_avail_idx := 0, v_avail := replicate NUM 0,
                                     v_uidx := 0, v_used := replicate NUM 0\<rparr>))
               (kseq (kmodify (wR 0x040 (ucast (drop_bit 12 pages))))
                     (kmodify (\<lambda>s. s\<lparr>v_free := \<lambda>_. True\<rparr>))))))))))))"

subsection \<open>Descriptors\<close>

definition alloc_desc :: "(vdisk, nat option) kmon" where
  "alloc_desc =
     kbind (kget v_free) (\<lambda>fr.
       case find_slot fr [0..<NUM] of
         None \<Rightarrow> kret None
       | Some i \<Rightarrow> kseq (kmodify (\<lambda>s. s\<lparr>v_free := (v_free s)(i := False)\<rparr>)) (kret (Some i)))"

definition free_desc :: "nat \<Rightarrow> (vdisk, unit) kmon" where
  "free_desc i s =
     (if i \<ge> NUM then panic ''free_desc 1'' s
      else if v_free s i then panic ''free_desc 2'' s
      else Inr ((), s\<lparr>v_desc := (v_desc s)(i := desc0), v_free := (v_free s)(i := True),
                      v_wakes := v_wakes s @ [Ch_free]\<rparr>))"

text \<open>The loop ends because \<^verbatim>\<open>free_desc\<close> panics on a descriptor that is free already.\<close>

function free_chain :: "nat \<Rightarrow> (vdisk, unit) kmon" where
  "free_chain i s =
     (let flag = vq_flags (v_desc s i); nxt = unat (vq_next (v_desc s i))
      in case free_desc i s of
           Inl e \<Rightarrow> Inl e
         | Inr (_, s') \<Rightarrow> if flag AND VRING_DESC_F_NEXT \<noteq> 0 then free_chain nxt s' else Inr ((), s'))"
  by pat_completeness auto
termination
proof (relation "measure (\<lambda>(i, s). card {j. j < NUM \<and> \<not> v_free s j})")
  fix i s flag nxt p u s'
  assume "free_desc i s = Inr p" "(u, s') = p"
  then have "i < NUM" "\<not> v_free s i" "v_free s' = (v_free s)(i := True)"
    by (auto simp: free_desc_def split: if_splits)
  then have "{j. j < NUM \<and> \<not> v_free s' j} \<subset> {j. j < NUM \<and> \<not> v_free s j}" by auto
  then have "card {j. j < NUM \<and> \<not> v_free s' j} < card {j. j < NUM \<and> \<not> v_free s j}"
    by (intro psubset_card_mono) auto
  then show "((nxt, s'), (i, s)) \<in> measure (\<lambda>(i, s). card {j. j < NUM \<and> \<not> v_free s j})" by simp
qed simp

declare free_chain.simps [simp del]

text \<open>
  \<^verbatim>\<open>for(int i = 0; i < 3; i++)\<close> with \<open>k\<close> iterations to go and the descriptors found so far; when
  one is missing, these are freed again.
\<close>

fun alloc3_loop :: "nat \<Rightarrow> nat list \<Rightarrow> (vdisk, nat list option) kmon" where
  "alloc3_loop 0 idx = kret (Some idx)"
| "alloc3_loop (Suc k) idx =
     kbind alloc_desc (\<lambda>r.
       case r of
         None \<Rightarrow> kseq (kfor idx free_desc) (kret None)
       | Some i \<Rightarrow> alloc3_loop k (idx @ [i]))"

definition alloc3_desc :: "(vdisk, nat list option) kmon" where
  "alloc3_desc = alloc3_loop 3 []"

subsection \<open>Requests\<close>

definition rw_format :: "nat \<Rightarrow> bool \<Rightarrow> nat \<Rightarrow> nat \<Rightarrow> nat \<Rightarrow> vdisk \<Rightarrow> vdisk" where
  "rw_format b write i0 i1 i2 s =
     (let sector = (ucast (bf_blockno (v_bufs s b) * 2) :: u64);
          d0 = \<lparr>vq_addr = OpHdr i0, vq_len = 16, vq_flags = VRING_DESC_F_NEXT, vq_next = of_nat i1\<rparr>;
          d1 = \<lparr>vq_addr = BufData b, vq_len = 1024,
                vq_flags = (if write then 0 else VRING_DESC_F_WRITE) OR VRING_DESC_F_NEXT, vq_next = of_nat i2\<rparr>;
          d2 = \<lparr>vq_addr = StatusByte i0, vq_len = 1, vq_flags = VRING_DESC_F_WRITE, vq_next = 0\<rparr>
      in s\<lparr>v_ops := (v_ops s)(i0 := \<lparr>rq_type = (if write then 1 else 0), rq_reserved = 0, rq_sector = sector\<rparr>),
           v_desc := (v_desc s)(i0 := d0, i1 := d1, i2 := d2),
           v_bufs := (v_bufs s)(b := (v_bufs s b)\<lparr>bf_disk := True\<rparr>),
           v_info := (v_info s)(i0 := \<lparr>in_b = Some b, in_status = 0xff\<rparr>)\<rparr>)"

definition rw_notify :: "nat \<Rightarrow> vdisk \<Rightarrow> vdisk" where
  "rw_notify i0 s =
     (let s1 = s\<lparr>v_avail := (v_avail s)[unat (v_avail_idx s) mod NUM := of_nat i0]\<rparr>;
          s2 = s1\<lparr>v_avail_idx := v_avail_idx s1 + 1\<rparr>
      in wR 0x050 0 s2)"

text \<open>
  \<^verbatim>\<open>virtio_disk_rw\<close> up to the wait for the interrupt: the descriptors of the request, or \<open>None\<close>
  when it sleeps for free ones.
\<close>

definition rw_submit :: "nat \<Rightarrow> bool \<Rightarrow> (vdisk, (nat \<times> nat \<times> nat) option) kmon" where
  "rw_submit b write =
     kbind alloc3_desc (\<lambda>r.
       case r of
         None \<Rightarrow> kret None
       | Some idx \<Rightarrow>
           kseq (kmodify (\<lambda>s. rw_notify (idx ! 0) (rw_format b write (idx ! 0) (idx ! 1) (idx ! 2) s)))
                (kret (Some (idx ! 0, idx ! 1, idx ! 2))))"

text \<open>The rest of \<^verbatim>\<open>virtio_disk_rw\<close>; the result tells whether it returns or goes on sleeping.\<close>

definition rw_finish :: "nat \<Rightarrow> nat \<Rightarrow> (vdisk, bool) kmon" where
  "rw_finish i0 b =
     kbind (kget (\<lambda>s. bf_disk (v_bufs s b))) (\<lambda>busy.
       if busy then kret False
       else kseq (kmodify (\<lambda>s. s\<lparr>v_info := (v_info s)(i0 := (v_info s i0)\<lparr>in_b := None\<rparr>)\<rparr>))
           (kseq (free_chain i0)
                 (kret True)))"

subsection \<open>The interrupt handler\<close>

function intr_loop :: "(vdisk, unit) kmon" where
  "intr_loop s =
     (if v_used_idx s = v_uidx s then Inr ((), s)
      else
        let id = unat (v_used s ! (unat (v_used_idx s) mod NUM))
        in if id \<ge> NUM then Inl (Fault ''virtio_disk_intr: id'')
           else if in_status (v_info s id) \<noteq> 0 then Inl (Panic ''virtio_disk_intr status'')
           else case in_b (v_info s id) of
                  None \<Rightarrow> Inl (Fault ''virtio_disk_intr: b'')
                | Some b \<Rightarrow>
                    intr_loop (s\<lparr>v_bufs := (v_bufs s)(b := (v_bufs s b)\<lparr>bf_disk := False\<rparr>),
                                 v_wakes := v_wakes s @ [Ch_buf b], v_used_idx := v_used_idx s + 1\<rparr>))"
  by pat_completeness auto
termination
proof (relation "measure (\<lambda>s. unat (v_uidx s - v_used_idx s))")
  fix s :: vdisk and x b
  assume "v_used_idx s \<noteq> v_uidx s"
  then have "v_uidx s - v_used_idx s \<noteq> 0" by simp
  then have "unat ((v_uidx s - v_used_idx s) - 1) < unat (v_uidx s - v_used_idx s)"
    by (simp add: unat_minus_one unat_gt_0)
  then show "(s\<lparr>v_bufs := (v_bufs s)(b := (v_bufs s b)\<lparr>bf_disk := False\<rparr>), v_wakes := v_wakes s @ [Ch_buf b],
      v_used_idx := v_used_idx s + 1\<rparr>, s) \<in> measure (\<lambda>s. unat (v_uidx s - v_used_idx s))"
    by (simp add: algebra_simps)
qed simp

declare intr_loop.simps [simp del]

text \<open>\<open>stat\<close> is the value of the interrupt status register.\<close>

definition virtio_disk_intr :: "u32 \<Rightarrow> (vdisk, unit) kmon" where
  "virtio_disk_intr stat = kseq (kmodify (wR 0x064 (stat AND 3))) intr_loop"

end
