(* ===== verification/Device.thy ===== *)
theory Device
  imports Virtio
begin

text \<open>
  The driver of the theory \<open>Virtio\<close> against a disk that behaves as the virtio specification documents.
  The device is a relation that the theorems take as an argument, together with the hypothesis
  \<open>virtio_device\<close> on it: it may fetch the next head from the available ring, and it may serve any head
  that it has fetched, in any order. Serving a well-formed chain moves the sectors, stores the status 0
  and puts the head into the used ring; on any other chain the device may do anything. The specification
  of the driver is \<open>disk_transfer\<close>, the step with which the buffer cache reads or writes a block.
\<close>

subsection \<open>The device\<close>

record vdev =
  dv_seen :: u16
  dv_inflight :: "nat list"
  dv_image :: "u64 \<Rightarrow> u8 list"

definition read_sectors :: "(u64 \<Rightarrow> u8 list) \<Rightarrow> u64 \<Rightarrow> nat \<Rightarrow> u8 list" where
  "read_sectors img sec n = concat (map (\<lambda>i. img (sec + of_nat i)) [0..<n])"

definition write_sectors :: "(u64 \<Rightarrow> u8 list) \<Rightarrow> u64 \<Rightarrow> nat \<Rightarrow> u8 list \<Rightarrow> u64 \<Rightarrow> u8 list" where
  "write_sectors img sec n bs =
     foldl (\<lambda>img i. img(sec + of_nat i := take 512 (drop (512 * i) bs))) img [0..<n]"

definition dev_fetch :: "vdev \<Rightarrow> vdisk \<Rightarrow> vdev" where
  "dev_fetch d s = d\<lparr>dv_seen := dv_seen d + 1,
     dv_inflight := dv_inflight d @ [unat (v_avail s ! (unat (dv_seen d) mod NUM))]\<rparr>"

text \<open>The status byte and the used ring, when the chain with the head \<open>h\<close> is complete.\<close>

definition dev_complete :: "nat \<Rightarrow> nat \<Rightarrow> vdisk \<Rightarrow> vdisk" where
  "dev_complete h j s =
     s\<lparr>v_info := (v_info s)(j := (v_info s j)\<lparr>in_status := 0\<rparr>),
       v_used := (v_used s)[unat (v_uidx s) mod NUM := of_nat h], v_uidx := v_uidx s + 1\<rparr>"

definition dev_serve :: "nat \<Rightarrow> vdev \<Rightarrow> vdisk \<Rightarrow> (vdev \<times> vdisk) option" where
  "dev_serve h d s =
     (let d0 = v_desc s h; d1 = v_desc s (unat (vq_next d0)); d2 = v_desc s (unat (vq_next d1));
          d' = d\<lparr>dv_inflight := remove1 h (dv_inflight d)\<rparr>
      in case (vq_addr d0, vq_addr d1, vq_addr d2) of
           (OpHdr k, BufData b, StatusByte j) \<Rightarrow>
             let q = v_ops s k; n = unat (vq_len d1) div 512
             in if vq_flags d0 \<noteq> VRING_DESC_F_NEXT \<or> vq_len d0 \<noteq> 16 \<or> vq_flags d2 \<noteq> VRING_DESC_F_WRITE
                  \<or> vq_len d2 \<noteq> 1 \<or> vq_flags d1 AND VRING_DESC_F_NEXT = 0 then None
                else if rq_type q = 0 \<and> vq_flags d1 AND VRING_DESC_F_WRITE \<noteq> 0
                then Some (d', dev_complete h j (s\<lparr>v_bufs := (v_bufs s)(b := (v_bufs s b)
                             \<lparr>bf_data := read_sectors (dv_image d) (rq_sector q) n\<rparr>)\<rparr>))
                else if rq_type q = 1 \<and> vq_flags d1 AND VRING_DESC_F_WRITE = 0
                then Some (d'\<lparr>dv_image := write_sectors (dv_image d) (rq_sector q) n (bf_data (v_bufs s b))\<rparr>,
                           dev_complete h j s)
                else None
         | _ \<Rightarrow> None)"

definition virtio_device :: "(vdev \<times> vdisk \<Rightarrow> vdev \<times> vdisk \<Rightarrow> bool) \<Rightarrow> bool" where
  "virtio_device dev \<longleftrightarrow>
     (\<forall>d s d' s'. dev (d, s) (d', s') \<longrightarrow>
        dv_seen d \<noteq> v_avail_idx s \<and> d' = dev_fetch d s \<and> s' = s \<or>
        (\<exists>h \<in> set (dv_inflight d). dev_serve h d s = None \<or> dev_serve h d s = Some (d', s')))"

subsection \<open>Driver, device and specification together\<close>

record vreq =
  r_i0 :: nat
  r_i1 :: nat
  r_i2 :: nat
  r_b :: nat
  r_write :: bool

type_synonym vconf = "vdev \<times> vdisk \<times> vreq list \<times> bio"

abbreviation r_block :: "vdisk \<Rightarrow> vreq \<Rightarrow> u32" where
  "r_block s r \<equiv> bf_blockno (v_bufs s (r_b r))"

text \<open>
  The processes that have called \<^verbatim>\<open>virtio_disk_rw\<close> and not returned are the list of requests. A
  process that calls it holds the lock of the buffer, and the cache keeps a block in one buffer only.
  The specification makes its step when a call returns. Buffers without a request are changed
  by their owners.
\<close>

inductive vstep :: "(vdev \<times> vdisk \<Rightarrow> vdev \<times> vdisk \<Rightarrow> bool) \<Rightarrow> vconf \<Rightarrow> vconf \<Rightarrow> bool" for dev where
  submit: "b \<notin> r_b ` set rs \<Longrightarrow> bf_blockno (v_bufs s b) \<notin> r_block s ` set rs \<Longrightarrow>
     bf_blockno (v_bufs s b) < 0x80000000 \<Longrightarrow> length (bf_data (v_bufs s b)) = 1024 \<Longrightarrow>
     rw_submit b w s = Inr (Some (i0, i1, i2), s') \<Longrightarrow>
     vstep dev (d, s, rs, a) (d, s', \<lparr>r_i0 = i0, r_i1 = i1, r_i2 = i2, r_b = b, r_write = w\<rparr> # rs, a)"
| submit_full: "rw_submit b w s = Inr (None, s') \<Longrightarrow> vstep dev (d, s, rs, a) (d, s', rs, a)"
| device: "dev (d, s) (d', s') \<Longrightarrow> vstep dev (d, s, rs, a) (d', s', rs, a)"
| interrupt: "virtio_disk_intr v s = Inr (u, s') \<Longrightarrow> vstep dev (d, s, rs, a) (d, s', rs, a)"
| finish: "r \<in> set rs \<Longrightarrow> rw_finish (r_i0 r) (r_b r) s = Inr (True, s') \<Longrightarrow>
     vstep dev (d, s, rs, a) (d, s', remove1 r rs, disk_transfer (r_b r) (r_write r) a)"
| owner: "b \<notin> r_b ` set rs \<Longrightarrow> \<not> bf_disk x \<Longrightarrow>
     vstep dev (d, s, rs, a) (d, s\<lparr>v_bufs := (v_bufs s)(b := x)\<rparr>, rs, a\<lparr>bio_buf := (bio_buf a)(b := x)\<rparr>)"

subsection \<open>The invariant\<close>

definition chain :: "vreq \<Rightarrow> nat list" where
  "chain r = [r_i0 r, r_i1 r, r_i2 r]"

abbreviation chains :: "vreq list \<Rightarrow> nat list" where
  "chains rs \<equiv> concat (map chain rs)"

definition waiting :: "vdev \<Rightarrow> vdisk \<Rightarrow> nat list" where
  "waiting d s = map unat (ring_list NUM (v_avail s) (dv_seen d) (v_avail_idx s))"

definition served :: "vdisk \<Rightarrow> nat list" where
  "served s = map unat (ring_list NUM (v_used s) (v_used_idx s) (v_uidx s))"

text \<open>The heads of the requests that the driver still waits for.\<close>

definition queued :: "vdev \<Rightarrow> vdisk \<Rightarrow> nat list" where
  "queued d s = waiting d s @ dv_inflight d @ served s"

definition formatted :: "vdisk \<Rightarrow> vreq \<Rightarrow> bool" where
  "formatted s r \<longleftrightarrow>
     v_ops s (r_i0 r) = \<lparr>rq_type = (if r_write r then 1 else 0), rq_reserved = 0,
                         rq_sector = ucast (r_block s r * 2)\<rparr> \<and>
     v_desc s (r_i0 r) = \<lparr>vq_addr = OpHdr (r_i0 r), vq_len = 16, vq_flags = VRING_DESC_F_NEXT,
                          vq_next = of_nat (r_i1 r)\<rparr> \<and>
     v_desc s (r_i1 r) = \<lparr>vq_addr = BufData (r_b r), vq_len = 1024,
                          vq_flags = (if r_write r then 0 else VRING_DESC_F_WRITE) OR VRING_DESC_F_NEXT,
                          vq_next = of_nat (r_i2 r)\<rparr> \<and>
     v_desc s (r_i2 r) = \<lparr>vq_addr = StatusByte (r_i0 r), vq_len = 1, vq_flags = VRING_DESC_F_WRITE, vq_next = 0\<rparr> \<and>
     in_b (v_info s (r_i0 r)) = Some (r_b r)"

definition owned :: "vdisk \<Rightarrow> vreq list \<Rightarrow> bool" where
  "owned s rs \<longleftrightarrow> distinct (chains rs) \<and> set (chains rs) \<subseteq> {..<NUM} \<and> distinct (map r_b rs) \<and>
     (\<forall>i < NUM. v_free s i \<longleftrightarrow> i \<notin> set (chains rs)) \<and> (\<forall>i < NUM. v_free s i \<longrightarrow> v_desc s i = desc0)"

definition drv_inv :: "vdev \<Rightarrow> vdisk \<Rightarrow> vreq list \<Rightarrow> bool" where
  "drv_inv d s rs \<longleftrightarrow> length (v_avail s) = NUM \<and> length (v_used s) = NUM \<and> owned s rs \<and>
     (\<forall>r \<in> set rs. formatted s r) \<and>
     distinct (queued d s) \<and> set (queued d s) \<subseteq> r_i0 ` set rs \<and>
     (\<forall>r \<in> set rs. bf_disk (v_bufs s (r_b r)) \<longleftrightarrow> r_i0 r \<in> set (queued d s)) \<and>
     (\<forall>i \<in> set (served s). in_status (v_info s i) = 0)"

interpretation vq: ring NUM "TYPE(16 word)"
  by unfold_locales simp_all


subsection \<open>Allocation of descriptors\<close>

lemma alloc_desc_cases:
  obtains i where "i < NUM" "v_free s i" "alloc_desc s = Inr (Some i, s\<lparr>v_free := (v_free s)(i := False)\<rparr>)"
  | "\<And>i. i < NUM \<Longrightarrow> \<not> v_free s i" "alloc_desc s = Inr (None, s)"
proof (cases "find_slot (v_free s) [0..<NUM]")
  case None
  then have "\<not> v_free s i" if "i < NUM" for i using that unfolding find_from_None_iff by simp
  moreover have "alloc_desc s = Inr (None, s)" using None by (simp add: alloc_desc_def kmon_defs)
  ultimately show thesis using that(2) by blast
next
  case (Some i)
  then have "i < NUM" "v_free s i" using find_slot_SomeD[OF Some] by simp_all
  moreover have "alloc_desc s = Inr (Some i, s\<lparr>v_free := (v_free s)(i := False)\<rparr>)"
    using Some by (simp add: alloc_desc_def kmon_defs)
  ultimately show thesis using that(1) by blast
qed

lemma free_desc_undo:
  assumes "i < NUM" "v_free s i" "v_desc s i = desc0"
  shows "free_desc i (s\<lparr>v_free := f(i := False)\<rparr>) = Inr ((), s\<lparr>v_free := f(i := True), v_wakes := v_wakes s @ [Ch_free]\<rparr>)"
  using assms by (simp add: free_desc_def fun_upd_idem)

lemma alloc3_cases:
  assumes "\<And>i. i < NUM \<Longrightarrow> v_free s i \<Longrightarrow> v_desc s i = desc0"
  obtains i0 i1 i2 where "i0 < NUM" "i1 < NUM" "i2 < NUM" "distinct [i0, i1, i2]" "v_free s i0" "v_free s i1" "v_free s i2"
    "alloc3_desc s = Inr (Some [i0, i1, i2], s\<lparr>v_free := (v_free s)(i0 := False, i1 := False, i2 := False)\<rparr>)"
  | ws where "alloc3_desc s = Inr (None, s\<lparr>v_wakes := ws\<rparr>)"
proof (cases rule: alloc_desc_cases[of s])
  case 2
  then have "alloc3_desc s = Inr (None, s\<lparr>v_wakes := v_wakes s\<rparr>)"
    by (simp add: alloc3_desc_def numeral_3_eq_3 kmon_defs)
  then show thesis using that(2) by blast
next
  case i0: (1 i0)
  let ?s1 = "s\<lparr>v_free := (v_free s)(i0 := False)\<rparr>"
  show thesis
  proof (cases rule: alloc_desc_cases[of ?s1])
    case 2
    have "free_desc i0 ?s1 = Inr ((), s\<lparr>v_free := (v_free s)(i0 := True), v_wakes := v_wakes s @ [Ch_free]\<rparr>)"
      using free_desc_undo[OF i0(1,2) assms[OF i0(1,2)]] .
    then have "alloc3_desc s = Inr (None, s\<lparr>v_wakes := v_wakes s @ [Ch_free]\<rparr>)"
      using i0 2(2) by (simp add: alloc3_desc_def numeral_3_eq_3 kmon_defs fun_upd_idem)
    then show thesis using that(2) by blast
  next
    case i1: (1 i1)
    let ?s2 = "?s1\<lparr>v_free := (v_free ?s1)(i1 := False)\<rparr>"
    have d01: "i1 \<noteq> i0" "v_free s i1" using i1(2) by (auto split: if_splits)
    show thesis
    proof (cases rule: alloc_desc_cases[of ?s2])
      case 2
      let ?t = "s\<lparr>v_free := (v_free s)(i0 := False, i1 := False)\<rparr>"
      have "free_desc i0 ?t = Inr ((), s\<lparr>v_free := (v_free s)(i1 := False), v_wakes := v_wakes s @ [Ch_free]\<rparr>)"
        using i0 assms[OF i0(1,2)] d01 by (simp add: free_desc_def fun_upd_idem fun_upd_twist)
      moreover have "free_desc i1 (s\<lparr>v_free := (v_free s)(i1 := False), v_wakes := v_wakes s @ [Ch_free]\<rparr>)
          = Inr ((), s\<lparr>v_wakes := v_wakes s @ [Ch_free, Ch_free]\<rparr>)"
        using i1(1) assms[OF i1(1) d01(2)] d01 by (simp add: free_desc_def fun_upd_idem)
      ultimately have "alloc3_desc s = Inr (None, s\<lparr>v_wakes := v_wakes s @ [Ch_free, Ch_free]\<rparr>)"
        using i0 i1(1,3) 2(2) by (simp add: alloc3_desc_def numeral_3_eq_3 kmon_defs)
      then show thesis using that(2) by blast
    next
      case i2: (1 i2)
      then have "i2 \<noteq> i0" "i2 \<noteq> i1" "v_free s i2" by (auto split: if_splits)
      moreover have "alloc3_desc s = Inr (Some [i0, i1, i2], s\<lparr>v_free := (v_free s)(i0 := False, i1 := False, i2 := False)\<rparr>)"
        using i0 i1(1,3) i2 by (simp add: alloc3_desc_def numeral_3_eq_3 kmon_defs)
      ultimately show thesis using that(1)[OF i0(1) i1(1) i2(1)] d01 i0(2) by simp
    qed
  qed
qed

text \<open>What a call of \<^verbatim>\<open>virtio_disk_rw\<close> does until it sleeps.\<close>

definition submitted :: "nat \<Rightarrow> bool \<Rightarrow> nat \<Rightarrow> nat \<Rightarrow> nat \<Rightarrow> vdisk \<Rightarrow> vdisk" where
  "submitted b w i0 i1 i2 s =
     rw_notify i0 (rw_format b w i0 i1 i2 (s\<lparr>v_free := (v_free s)(i0 := False, i1 := False, i2 := False)\<rparr>))"

lemma rw_submit_cases:
  assumes "owned s rs"
  obtains i0 i1 i2 where "distinct (i0 # i1 # i2 # chains rs)" "{i0, i1, i2} \<subseteq> {..<NUM}"
    "rw_submit b w s = Inr (Some (i0, i1, i2), submitted b w i0 i1 i2 s)"
  | ws where "rw_submit b w s = Inr (None, s\<lparr>v_wakes := ws\<rparr>)"
proof -
  have d0: "v_desc s i = desc0" if "i < NUM" "v_free s i" for i using assms that unfolding owned_def by blast
  show thesis
  proof (cases rule: alloc3_cases[OF d0])
    case (3 i0 i1 i2)
    have "i0 \<notin> set (chains rs)" "i1 \<notin> set (chains rs)" "i2 \<notin> set (chains rs)"
      using 3(1-3,5-7) assms unfolding owned_def by blast+
    then have "distinct (i0 # i1 # i2 # chains rs)" using assms 3(4) unfolding owned_def by simp
    moreover have "rw_submit b w s = Inr (Some (i0, i1, i2), submitted b w i0 i1 i2 s)"
      using 3(8) by (simp add: rw_submit_def kmon_defs submitted_def)
    ultimately show thesis using that(1) 3(1-3) by simp
  next
    case (4 ws)
    then show thesis using that(2)[of ws] by (simp add: rw_submit_def kmon_defs)
  qed auto
qed


subsection \<open>The rings\<close>

lemma waiting_notify:
  assumes "length (v_avail s) = NUM" "length (waiting d s) < NUM" "i < NUM"
  shows "waiting d (rw_notify i s) = waiting d s @ [i]"
proof -
  have "unat (v_avail_idx s - dv_seen d) < NUM" using assms(2) by (simp add: waiting_def)
  note p = vq.ring_push[OF this assms(1), of "of_nat i"]
  have "unat (of_nat i :: u16) = i" using assms(3) by (simp add: unat_of_nat)
  then show ?thesis using p by (simp add: waiting_def rw_notify_def wR_def slot_def)
qed

lemma waiting_fetch:
  assumes "dv_seen d \<noteq> v_avail_idx s"
  shows "waiting d s = unat (v_avail s ! (unat (dv_seen d) mod NUM)) # waiting (dev_fetch d s) s"
  using vq.ring_pop[OF assms[symmetric], of "v_avail s"] by (simp add: waiting_def dev_fetch_def slot_def)

lemma served_complete:
  assumes "length (v_used s) = NUM" "length (served s) < NUM" "h < NUM"
  shows "served (dev_complete h j s) = served s @ [h]"
proof -
  have "unat (v_uidx s - v_used_idx s) < NUM" using assms(2) by (simp add: served_def)
  note p = vq.ring_push[OF this assms(1), of "of_nat h"]
  have "unat (of_nat h :: u32) = h" using assms(3) by (simp add: unat_of_nat)
  then show ?thesis using p by (simp add: served_def dev_complete_def slot_def)
qed

lemma served_pop:
  assumes "v_used_idx s \<noteq> v_uidx s"
  shows "served s = unat (v_used s ! (unat (v_used_idx s) mod NUM)) # served (s\<lparr>v_used_idx := v_used_idx s + 1\<rparr>)"
  using vq.ring_pop[OF assms[symmetric], of "v_used s"] by (simp add: served_def slot_def)

text \<open>The rings are never full, because every head is the index of a descriptor.\<close>

lemma heads_bound:
  assumes "drv_inv d s rs"
  shows "set (queued d s) \<subseteq> {..<NUM}"
proof -
  have "r_i0 ` set rs \<subseteq> set (chains rs)" by (auto simp: chain_def)
  then show ?thesis using assms unfolding drv_inv_def owned_def by blast
qed

lemma queued_length:
  assumes "distinct xs" "set xs \<subseteq> {..<NUM}"
  shows "length xs \<le> NUM"
  using card_mono[OF _ assms(2)] distinct_card[OF assms(1)] by simp

lemma head_unique:
  assumes "distinct (chains rs)" "r \<in> set rs" "r' \<in> set rs" "i \<in> set (chain r)" "i \<in> set (chain r')"
  shows "r = r'"
  using assms
proof (induction rs)
  case (Cons x rs)
  have sub: "set (chain y) \<subseteq> set (chains rs)" if "y \<in> set rs" for y using that by auto
  have dis: "set (chain x) \<inter> set (chains rs) = {}" using Cons.prems(1) by simp
  show ?case
  proof (cases "r = x \<or> r' = x")
    case True
    then show ?thesis using Cons.prems(2-5) sub[of r] sub[of r'] dis by (metis IntI empty_iff set_ConsD subsetD)
  next
    case False
    then show ?thesis using Cons by auto
  qed
qed simp

lemma r_b_unique: "distinct (map r_b rs) \<Longrightarrow> r \<in> set rs \<Longrightarrow> r' \<in> set rs \<Longrightarrow> r_b r = r_b r' \<Longrightarrow> r = r'"
  by (simp add: distinct_map inj_on_def)


subsection \<open>The driver keeps its invariant\<close>

lemma in_chains: "r \<in> set rs \<Longrightarrow> r_i0 r \<in> set (chains rs) \<and> r_i1 r \<in> set (chains rs) \<and> r_i2 r \<in> set (chains rs)"
  by (force simp: chain_def)

text \<open>Formatting of a request looks only at its descriptors, its buffer number and its entry of \<^verbatim>\<open>info\<close>.\<close>

lemma formatted_cong:
  assumes "formatted s r" "\<And>i. i \<in> set (chain r) \<Longrightarrow> v_desc s' i = v_desc s i" "v_ops s' (r_i0 r) = v_ops s (r_i0 r)"
    "in_b (v_info s' (r_i0 r)) = in_b (v_info s (r_i0 r))" "r_block s' r = r_block s r"
  shows "formatted s' r"
  using assms by (simp add: formatted_def chain_def)

lemma submitted_fields:
  "v_free (submitted b w i0 i1 i2 s) = (v_free s)(i0 := False, i1 := False, i2 := False)"
  "v_bufs (submitted b w i0 i1 i2 s) = (v_bufs s)(b := (v_bufs s b)\<lparr>bf_disk := True\<rparr>)"
  "v_info (submitted b w i0 i1 i2 s) = (v_info s)(i0 := \<lparr>in_b = Some b, in_status = 0xff\<rparr>)"
  "served (submitted b w i0 i1 i2 s) = served s" "v_used (submitted b w i0 i1 i2 s) = v_used s"
  "length (v_avail (submitted b w i0 i1 i2 s)) = length (v_avail s)"
  "i \<notin> {i0, i1, i2} \<Longrightarrow> v_desc (submitted b w i0 i1 i2 s) i = v_desc s i"
  "i \<noteq> i0 \<Longrightarrow> v_ops (submitted b w i0 i1 i2 s) i = v_ops s i"
  by (simp_all add: submitted_def rw_notify_def rw_format_def wR_def Let_def served_def)

lemma submitted_waiting:
  assumes "length (v_avail s) = NUM" "length (waiting d s) < NUM" "i0 < NUM"
  shows "waiting d (submitted b w i0 i1 i2 s) = waiting d s @ [i0]"
proof -
  let ?t = "rw_format b w i0 i1 i2 (s\<lparr>v_free := (v_free s)(i0 := False, i1 := False, i2 := False)\<rparr>)"
  have "v_avail ?t = v_avail s" "v_avail_idx ?t = v_avail_idx s" by (simp_all add: rw_format_def Let_def)
  then have "waiting d ?t = waiting d s" "length (v_avail ?t) = NUM" using assms(1) by (simp_all add: waiting_def)
  with waiting_notify[of ?t d i0] assms(2,3) show ?thesis by (simp add: submitted_def)
qed

lemma submit_drv:
  fixes w :: bool
  assumes inv: "drv_inv d s rs" and b: "b \<notin> r_b ` set rs"
    and i: "distinct (i0 # i1 # i2 # chains rs)" "{i0, i1, i2} \<subseteq> {..<NUM}"
  defines "s' \<equiv> submitted b w i0 i1 i2 s" and "r \<equiv> \<lparr>r_i0 = i0, r_i1 = i1, r_i2 = i2, r_b = b, r_write = w\<rparr>"
  shows "drv_inv d s' (r # rs)" "waiting d s' = waiting d s @ [i0]"
proof -
  note f = submitted_fields[where b = b and w = w and ?i0.0 = i0 and ?i1.0 = i1 and ?i2.0 = i2 and s = s, folded s'_def]
  note I = inv[unfolded drv_inv_def]
  have i0q: "i0 \<notin> set (queued d s)"
  proof -
    have "set (queued d s) \<subseteq> set (chains rs)" using I in_chains by blast
    then show ?thesis using i(1) by auto
  qed
  have "length (i0 # queued d s) \<le> NUM"
    using I i0q heads_bound[OF inv] i(2) by (intro queued_length) auto
  then have "length (waiting d s) < NUM" by (simp add: queued_def)
  with I i(2) show wt: "waiting d s' = waiting d s @ [i0]" unfolding s'_def by (intro submitted_waiting) auto
  then have q: "set (queued d s') = insert i0 (set (queued d s))" "distinct (queued d s')"
    using i0q I by (auto simp: queued_def f)
  have o: "owned s' (r # rs)"
  proof -
    have O: "set (chains rs) \<subseteq> {..<NUM}" "distinct (map r_b rs)" "\<forall>i < NUM. v_free s i \<longleftrightarrow> i \<notin> set (chains rs)"
      "\<forall>i < NUM. v_free s i \<longrightarrow> v_desc s i = desc0"
      using I unfolding owned_def by blast+
    have c: "chains (r # rs) = i0 # i1 # i2 # chains rs" by (simp add: chain_def r_def)
    show ?thesis unfolding owned_def c
      using O i b f(7) by (auto simp: f(1) r_def)
  qed
  moreover have "\<forall>x \<in> set (r # rs). formatted s' x"
  proof
    fix x
    assume "x \<in> set (r # rs)"
    then consider "x = r" | "x \<in> set rs" by auto
    then show "formatted s' x"
    proof cases
      case 1
      then show ?thesis using i(1)
        by (simp add: r_def formatted_def s'_def submitted_def rw_notify_def rw_format_def wR_def Let_def)
    next
      case 2
      then have ne: "i \<notin> {i0, i1, i2}" if "i \<in> set (chain x)" for i using i(1) that by auto
      moreover have "r_i0 x \<noteq> i0" using ne[of "r_i0 x"] by (simp add: chain_def)
      moreover have "r_b x \<noteq> b" using 2 b by auto
      ultimately show ?thesis using I 2 f by (intro formatted_cong[of s x s']) auto
    qed
  qed
  moreover have "\<forall>x \<in> set (r # rs). bf_disk (v_bufs s' (r_b x)) \<longleftrightarrow> r_i0 x \<in> set (queued d s')"
  proof
    fix x
    assume "x \<in> set (r # rs)"
    then consider "x = r" | "x \<in> set rs" by auto
    then show "bf_disk (v_bufs s' (r_b x)) \<longleftrightarrow> r_i0 x \<in> set (queued d s')"
    proof cases
      case 2
      then have "r_i0 x \<noteq> i0" "r_b x \<noteq> b" using i(1) b in_chains[of x rs] by auto
      then show ?thesis using 2 I by (simp add: f q)
    qed (simp add: f q r_def)
  qed
  moreover have "\<forall>j \<in> set (served s'). in_status (v_info s' j) = 0"
    using I i0q by (auto simp: f queued_def)
  moreover have "set (queued d s') \<subseteq> r_i0 ` set (r # rs)" using I by (auto simp: q r_def)
  ultimately show "drv_inv d s' (r # rs)" using I q(2) by (simp add: drv_inv_def f)
qed


lemma fetch_drv:
  assumes "drv_inv d s rs" "dv_seen d \<noteq> v_avail_idx s"
  shows "drv_inv (dev_fetch d s) s rs"
    "set (waiting (dev_fetch d s) s @ dv_inflight (dev_fetch d s)) = set (waiting d s @ dv_inflight d)"
proof -
  let ?x = "unat (v_avail s ! (unat (dv_seen d) mod NUM))"
  have w: "waiting d s = ?x # waiting (dev_fetch d s) s" by (rule waiting_fetch[OF assms(2)])
  have f: "dv_inflight (dev_fetch d s) = dv_inflight d @ [?x]" by (simp add: dev_fetch_def)
  then show "set (waiting (dev_fetch d s) s @ dv_inflight (dev_fetch d s)) = set (waiting d s @ dv_inflight d)"
    unfolding w by auto
  have q: "set (queued (dev_fetch d s) s) = set (queued d s)" "distinct (queued (dev_fetch d s) s) = distinct (queued d s)"
    unfolding queued_def w f by auto
  show "drv_inv (dev_fetch d s) s rs" using assms(1) unfolding drv_inv_def q .
qed

lemma unat_index: "i < NUM \<Longrightarrow> unat (of_nat i :: u16) = i"
  by (simp add: unat_of_nat)

lemma dev_serve_formatted:
  assumes "formatted s r" "set (chain r) \<subseteq> {..<NUM}"
  shows "dev_serve (r_i0 r) d s =
    (let d' = d\<lparr>dv_inflight := remove1 (r_i0 r) (dv_inflight d)\<rparr>; sec = ucast (r_block s r * 2)
     in if r_write r
        then Some (d'\<lparr>dv_image := write_sectors (dv_image d) sec 2 (bf_data (v_bufs s (r_b r)))\<rparr>,
                   dev_complete (r_i0 r) (r_i0 r) s)
        else Some (d', dev_complete (r_i0 r) (r_i0 r) (s\<lparr>v_bufs := (v_bufs s)(r_b r := (v_bufs s (r_b r))
               \<lparr>bf_data := read_sectors (dv_image d) sec 2\<rparr>)\<rparr>)))"
proof -
  have "unat (of_nat (r_i1 r) :: u16) = r_i1 r" "unat (of_nat (r_i2 r) :: u16) = r_i2 r"
    using assms(2) by (intro unat_index; simp add: chain_def)+
  then show ?thesis using assms(1) by (simp add: dev_serve_def formatted_def Let_def)
qed

lemma complete_drv:
  fixes img :: "u64 \<Rightarrow> u8 list"
  assumes inv: "drv_inv d s rs" and h: "h \<in> set (dv_inflight d)"
    and B: "\<And>b. bf_disk (B b) = bf_disk (v_bufs s b) \<and> bf_blockno (B b) = bf_blockno (v_bufs s b)"
  defines "d' \<equiv> d\<lparr>dv_inflight := remove1 h (dv_inflight d), dv_image := img\<rparr>"
    and "s' \<equiv> dev_complete h h (s\<lparr>v_bufs := B\<rparr>)"
  shows "drv_inv d' s' rs" "waiting d' s' = waiting d s"
proof -
  note I = inv[unfolded drv_inv_def]
  have f: "v_desc s' = v_desc s" "v_ops s' = v_ops s" "v_free s' = v_free s" "v_bufs s' = B" "v_avail s' = v_avail s"
    "v_info s' = (v_info s)(h := (v_info s h)\<lparr>in_status := 0\<rparr>)" "length (v_used s') = length (v_used s)"
    "dv_inflight d' = remove1 h (dv_inflight d)"
    by (simp_all add: s'_def d'_def dev_complete_def)
  show w: "waiting d' s' = waiting d s" by (simp add: waiting_def s'_def d'_def dev_complete_def)
  have "length (queued d s) \<le> NUM" using I heads_bound[OF inv] by (intro queued_length) auto
  then have len: "length (served s) < NUM" using h by (auto simp: queued_def neq_Nil_conv dest!: length_pos_if_in_set)
  have hN: "h < NUM" using heads_bound[OF inv] h by (auto simp: queued_def)
  have "served (s\<lparr>v_bufs := B\<rparr>) = served s" by (simp add: served_def)
  then have sv: "served s' = served s @ [h]"
    using I len hN unfolding s'_def by (subst served_complete) simp_all
  have q: "set (queued d' s') = set (queued d s)" "distinct (queued d' s')"
    using I h by (auto simp: queued_def w sv f distinct_remove1)
  have "owned s' rs" using I by (simp add: owned_def f)
  moreover have "\<forall>r \<in> set rs. formatted s' r"
    using I B by (auto simp: f intro!: formatted_cong[of s _ s'])
  moreover have "\<forall>r \<in> set rs. bf_disk (v_bufs s' (r_b r)) \<longleftrightarrow> r_i0 r \<in> set (queued d' s')"
    using I B by (simp add: f q)
  moreover have "\<forall>i \<in> set (served s'). in_status (v_info s' i) = 0" using I by (auto simp: sv f)
  ultimately show "drv_inv d' s' rs" using I q by (simp add: drv_inv_def f)
qed

text \<open>One completion in the interrupt handler.\<close>

lemma intr_one:
  assumes inv: "drv_inv d s rs" and ne: "v_used_idx s \<noteq> v_uidx s"
  obtains r s1 where "r \<in> set rs" "intr_loop s = intr_loop s1" "drv_inv d s1 rs" "served s = r_i0 r # served s1"
    "waiting d s1 = waiting d s" "v_bufs s1 = (v_bufs s)(r_b r := (v_bufs s (r_b r))\<lparr>bf_disk := False\<rparr>)"
proof -
  note I = inv[unfolded drv_inv_def]
  let ?id = "unat (v_used s ! (unat (v_used_idx s) mod NUM))"
  define s0 where "s0 = s\<lparr>v_used_idx := v_used_idx s + 1\<rparr>"
  have sv: "served s = ?id # served s0" unfolding s0_def by (rule served_pop[OF ne])
  then have idq: "?id \<in> set (queued d s)" by (simp add: queued_def)
  then obtain r where r: "r \<in> set rs" "r_i0 r = ?id" using I by force
  have idN: "?id < NUM" using heads_bound[OF inv] idq by auto
  have st: "in_status (v_info s ?id) = 0" using I sv by simp
  have ib: "in_b (v_info s ?id) = Some (r_b r)" using I r unfolding formatted_def by metis
  define s1 where "s1 = s\<lparr>v_bufs := (v_bufs s)(r_b r := (v_bufs s (r_b r))\<lparr>bf_disk := False\<rparr>),
      v_wakes := v_wakes s @ [Ch_buf (r_b r)], v_used_idx := v_used_idx s + 1\<rparr>"
  have step: "intr_loop s = intr_loop s1"
    using ne idN st ib by (subst intr_loop.simps) (simp add: Let_def s1_def)
  have f: "v_desc s1 = v_desc s" "v_ops s1 = v_ops s" "v_free s1 = v_free s" "v_avail s1 = v_avail s" "v_info s1 = v_info s"
    "v_used s1 = v_used s" "v_bufs s1 = (v_bufs s)(r_b r := (v_bufs s (r_b r))\<lparr>bf_disk := False\<rparr>)"
    "waiting d s1 = waiting d s" "served s1 = served s0"
    by (simp_all add: s1_def s0_def waiting_def served_def)
  have q: "queued d s = waiting d s @ dv_inflight d @ ?id # served s1" "queued d s1 = waiting d s @ dv_inflight d @ served s1"
    by (simp_all add: queued_def sv f)
  have dq: "distinct (queued d s)" using I by blast
  then have q1: "set (queued d s1) = set (queued d s) - {?id}" "distinct (queued d s1)" unfolding q by auto
  have u: "x = r" if "x \<in> set rs" "r_i0 x = r_i0 r \<or> r_b x = r_b r" for x
    using head_unique[of rs x r "r_i0 r"] r_b_unique[of rs x r] I r(1) that unfolding owned_def by (auto simp: chain_def)
  have "owned s1 rs" using I by (simp add: owned_def f)
  moreover have "\<forall>x \<in> set rs. formatted s1 x" using I by (auto simp: f intro!: formatted_cong[of s _ s1])
  moreover have "\<forall>x \<in> set rs. bf_disk (v_bufs s1 (r_b x)) \<longleftrightarrow> r_i0 x \<in> set (queued d s1)"
  proof
    fix x
    assume x: "x \<in> set rs"
    show "bf_disk (v_bufs s1 (r_b x)) \<longleftrightarrow> r_i0 x \<in> set (queued d s1)"
    proof (cases "x = r")
      case True
      then show ?thesis using r by (simp add: f q1)
    next
      case False
      then have "r_i0 x \<noteq> ?id" "r_b x \<noteq> r_b r" using u[OF x] r(2) by auto
      then show ?thesis using I x by (simp add: f q1)
    qed
  qed
  moreover have "\<forall>i \<in> set (served s1). in_status (v_info s1 i) = 0" using I sv by (simp add: f)
  moreover have "set (queued d s1) \<subseteq> r_i0 ` set rs" using I by (auto simp: q1)
  ultimately have "drv_inv d s1 rs" using I q1(2) by (simp add: drv_inv_def f)
  then show thesis using that[OF r(1) step] sv r(2) f by simp
qed

definition same_but_disk :: "(nat \<Rightarrow> buf) \<Rightarrow> (nat \<Rightarrow> buf) \<Rightarrow> bool" where
  "same_but_disk f g \<longleftrightarrow> (\<forall>b. f b = (g b)\<lparr>bf_disk := bf_disk (f b)\<rparr>)"

lemma intr_drv:
  assumes "drv_inv d s rs"
  shows "\<exists>s'. intr_loop s = Inr ((), s') \<and> drv_inv d s' rs \<and> waiting d s' = waiting d s \<and> served s' = [] \<and>
    same_but_disk (v_bufs s') (v_bufs s) \<and> (\<forall>b. b \<notin> r_b ` set rs \<longrightarrow> v_bufs s' b = v_bufs s b)"
  using assms
proof (induction "length (served s)" arbitrary: s rule: less_induct)
  case less
  show ?case
  proof (cases "v_used_idx s = v_uidx s")
    case True
    then have "intr_loop s = Inr ((), s)" by (subst intr_loop.simps) simp
    moreover have "served s = []" using True by (simp add: served_def)
    ultimately show ?thesis using less.prems by (simp add: same_but_disk_def)
  next
    case False
    obtain r s1 where 1: "r \<in> set rs" "intr_loop s = intr_loop s1" "drv_inv d s1 rs" "served s = r_i0 r # served s1"
      "waiting d s1 = waiting d s" "v_bufs s1 = (v_bufs s)(r_b r := (v_bufs s (r_b r))\<lparr>bf_disk := False\<rparr>)"
      using intr_one[OF less.prems False] .
    have "length (served s1) < length (served s)" using 1(4) by simp
    from less.hyps[OF this 1(3)] obtain s' where 2: "intr_loop s1 = Inr ((), s')" "drv_inv d s' rs" "waiting d s' = waiting d s1" "served s' = []"
      "same_but_disk (v_bufs s') (v_bufs s1)" "\<forall>b. b \<notin> r_b ` set rs \<longrightarrow> v_bufs s' b = v_bufs s1 b" by blast
    have "same_but_disk (v_bufs s') (v_bufs s)"
      unfolding same_but_disk_def
    proof
      fix b
      have "v_bufs s' b = (v_bufs s1 b)\<lparr>bf_disk := bf_disk (v_bufs s' b)\<rparr>" using 2(5) unfolding same_but_disk_def by blast
      then show "v_bufs s' b = (v_bufs s b)\<lparr>bf_disk := bf_disk (v_bufs s' b)\<rparr>"
        unfolding 1(6) by (cases "b = r_b r") (metis fun_upd_apply buf.update_convs(2) buf.surjective)+
    qed
    moreover have "\<forall>b. b \<notin> r_b ` set rs \<longrightarrow> v_bufs s' b = v_bufs s b" using 2(6) 1(1,6) by auto
    ultimately show ?thesis using 1 2 by auto
  qed
qed


text \<open>The return of \<^verbatim>\<open>virtio_disk_rw\<close>.\<close>

lemma free_chain_step:
  assumes "i < NUM" "\<not> v_free s i"
  shows "free_chain i s =
    (let t = s\<lparr>v_desc := (v_desc s)(i := desc0), v_free := (v_free s)(i := True), v_wakes := v_wakes s @ [Ch_free]\<rparr>
     in if vq_flags (v_desc s i) AND VRING_DESC_F_NEXT \<noteq> 0 then free_chain (unat (vq_next (v_desc s i))) t else Inr ((), t))"
  using assms by (subst free_chain.simps) (simp add: free_desc_def Let_def)

definition finished :: "vreq \<Rightarrow> vdisk \<Rightarrow> vdisk" where
  "finished r s = s\<lparr>v_info := (v_info s)(r_i0 r := (v_info s (r_i0 r))\<lparr>in_b := None\<rparr>),
     v_desc := (v_desc s)(r_i0 r := desc0, r_i1 r := desc0, r_i2 r := desc0),
     v_free := (v_free s)(r_i0 r := True, r_i1 r := True, r_i2 r := True),
     v_wakes := v_wakes s @ [Ch_free, Ch_free, Ch_free]\<rparr>"

lemma rw_finish_request:
  assumes "formatted s r" "set (chain r) \<subseteq> {..<NUM}" "distinct (chain r)" "\<And>i. i \<in> set (chain r) \<Longrightarrow> \<not> v_free s i"
    "\<not> bf_disk (v_bufs s (r_b r))"
  shows "rw_finish (r_i0 r) (r_b r) s = Inr (True, finished r s)"
proof -
  let ?s1 = "s\<lparr>v_info := (v_info s)(r_i0 r := (v_info s (r_i0 r))\<lparr>in_b := None\<rparr>)\<rparr>"
  have c: "r_i0 r < NUM" "r_i1 r < NUM" "r_i2 r < NUM" "r_i0 r \<noteq> r_i1 r" "r_i0 r \<noteq> r_i2 r" "r_i1 r \<noteq> r_i2 r"
    "\<not> v_free s (r_i0 r)" "\<not> v_free s (r_i1 r)" "\<not> v_free s (r_i2 r)"
    using assms(2-4) by (simp_all add: chain_def)
  have d: "v_desc s (r_i0 r) = \<lparr>vq_addr = OpHdr (r_i0 r), vq_len = 16, vq_flags = VRING_DESC_F_NEXT, vq_next = of_nat (r_i1 r)\<rparr>"
    "vq_flags (v_desc s (r_i1 r)) AND VRING_DESC_F_NEXT \<noteq> 0" "vq_next (v_desc s (r_i1 r)) = of_nat (r_i2 r)"
    "vq_flags (v_desc s (r_i2 r)) AND VRING_DESC_F_NEXT = 0"
    using assms(1) by (simp_all add: formatted_def)
  have "free_chain (r_i0 r) ?s1 = Inr ((), finished r s)"
    using c d by (simp add: free_chain_step Let_def unat_index finished_def)
  then show ?thesis using assms(5) by (simp add: rw_finish_def kmon_defs)
qed

lemma remove1_chains:
  assumes "distinct (chains rs)" "r \<in> set rs"
  shows "distinct (chains (remove1 r rs))" "set (chains (remove1 r rs)) = set (chains rs) - set (chain r)"
    "set (remove1 r rs) = set rs - {r}"
proof -
  obtain xs ys where s: "rs = xs @ r # ys" "r \<notin> set xs" using split_list_first[OF assms(2)] by blast
  have rm: "remove1 r rs = xs @ ys" using s by (simp add: remove1_append)
  show "distinct (chains (remove1 r rs))" "set (chains (remove1 r rs)) = set (chains rs) - set (chain r)"
    using assms(1) unfolding rm by (auto simp: s)
  have "r \<notin> set ys" using assms(1) by (auto simp: s chain_def)
  then show "set (remove1 r rs) = set rs - {r}" unfolding rm using s by auto
qed

lemma finish_drv:
  assumes inv: "drv_inv d s rs" and r: "r \<in> set rs" and nd: "\<not> bf_disk (v_bufs s (r_b r))"
  shows "rw_finish (r_i0 r) (r_b r) s = Inr (True, finished r s)" "drv_inv d (finished r s) (remove1 r rs)"
    "set (remove1 r rs) = set rs - {r}"
proof -
  note I = inv[unfolded drv_inv_def]
  have O: "distinct (chains rs)" "set (chains rs) \<subseteq> {..<NUM}" "distinct (map r_b rs)" "\<forall>i < NUM. v_free s i \<longleftrightarrow> i \<notin> set (chains rs)"
    "\<forall>i < NUM. v_free s i \<longrightarrow> v_desc s i = desc0" using I unfolding owned_def by blast+
  have sub: "set (chain r) \<subseteq> set (chains rs)" using r by auto
  have "distinct (chain r)" using O(1) r by (auto dest!: split_list)
  moreover have "\<not> v_free s i" if "i \<in> set (chain r)" for i using that sub O(2,4) by auto
  ultimately show "rw_finish (r_i0 r) (r_b r) s = Inr (True, finished r s)"
    using I r nd sub O(2) by (intro rw_finish_request) auto
  note rm = remove1_chains[OF O(1) r]
  show "set (remove1 r rs) = set rs - {r}" by (rule rm(3))
  let ?t = "finished r s"
  have f: "v_bufs ?t = v_bufs s" "v_ops ?t = v_ops s" "v_avail ?t = v_avail s" "v_used ?t = v_used s"
    "queued d ?t = queued d s" "served ?t = served s" "in_status (v_info ?t i) = in_status (v_info s i)"
    "v_free ?t i = (i \<in> set (chain r) \<or> v_free s i)" "v_desc ?t i = (if i \<in> set (chain r) then desc0 else v_desc s i)"
    "i \<noteq> r_i0 r \<Longrightarrow> v_info ?t i = v_info s i" for i
    by (auto simp: finished_def queued_def waiting_def served_def chain_def)
  have nq: "r_i0 r \<notin> set (queued d s)" using I r nd by blast
  have "owned ?t (remove1 r rs)"
    unfolding owned_def rm(2) using O rm(1) sub
    by (auto simp: f distinct_map rm(3) distinct_remove1 inj_on_def)
  moreover have "formatted ?t x" if x: "x \<in> set rs" "x \<noteq> r" for x
  proof -
    have "i \<notin> set (chain r)" if "i \<in> set (chain x)" for i
      using head_unique[OF O(1) x(1) r that] x(2) by blast
    moreover from this[of "r_i0 x"] have "r_i0 x \<noteq> r_i0 r" by (auto simp: chain_def)
    ultimately show ?thesis using I x by (intro formatted_cong[of s x ?t]) (auto simp: f)
  qed
  moreover have "set (queued d s) \<subseteq> r_i0 ` (set rs - {r})" using I nq by fastforce
  ultimately show "drv_inv d ?t (remove1 r rs)" using I by (auto simp: drv_inv_def f rm(3))
qed


subsection \<open>The data\<close>

definition block_at :: "(u64 \<Rightarrow> u8 list) \<Rightarrow> u32 \<Rightarrow> u8 list" where
  "block_at img n = read_sectors img (ucast (n * 2)) 2"

lemma two_sectors:
  "read_sectors img sec 2 = img sec @ img (sec + 1)"
  "write_sectors img sec 2 bs = img(sec := take 512 bs, sec + 1 := take 512 (drop 512 bs))"
  by (simp_all add: read_sectors_def write_sectors_def numeral_2_eq_2)

lemma sector_unat: "n < 0x80000000 \<Longrightarrow> unat (ucast (n * 2 :: u32) :: u64) = 2 * unat n"
  by (simp add: word_less_nat_alt unat_word_ariths)

lemma block_at_write:
  assumes "length bs = 1024"
  shows "block_at (write_sectors img (ucast (n * 2)) 2 bs) n = bs"
  using assms append_take_drop_id[of 512 bs] by (simp add: block_at_def two_sectors)

lemma block_at_other:
  assumes "n < 0x80000000" "m < 0x80000000" "m \<noteq> n"
  shows "block_at (write_sectors img (ucast (n * 2)) 2 bs) m = block_at img m"
proof -
  let ?n = "ucast (n * 2) :: u64" and ?m = "ucast (m * 2) :: u64"
  have u: "unat ?n = 2 * unat n" "unat ?m = 2 * unat m" using assms sector_unat by simp_all
  have "unat n < 0x80000000" "unat m < 0x80000000" using assms by (simp_all add: word_less_nat_alt)
  then have u1: "unat (?n + 1) = 2 * unat n + 1" "unat (?m + 1) = 2 * unat m + 1"
    by (simp_all add: unat_word_ariths u)
  have ne: "unat m \<noteq> unat n" using assms(3) by (simp add: word_unat_eq_iff)
  have by_unat: "x \<noteq> y" if "unat x \<noteq> unat y" for x y :: u64 using that by auto
  have "?m \<noteq> ?n" "?m \<noteq> ?n + 1" "?m + 1 \<noteq> ?n" "?m + 1 \<noteq> ?n + 1"
    by (rule by_unat, unfold u u1, use ne in presburger)+
  then show ?thesis by (simp add: block_at_def two_sectors)
qed

text \<open>
  Cache and specification agree on every buffer without a request and, up to the data that is being read,
  on the others. The image agrees with the specification except on blocks that are being written.
\<close>

definition bufs_inv :: "vdisk \<Rightarrow> vreq list \<Rightarrow> bio \<Rightarrow> bool" where
  "bufs_inv s rs a \<longleftrightarrow>
     (\<forall>b. b \<notin> r_b ` set rs \<longrightarrow> bio_buf a b = v_bufs s b \<and> \<not> bf_disk (v_bufs s b)) \<and>
     (\<forall>r \<in> set rs. bio_buf a (r_b r) = (v_bufs s (r_b r))\<lparr>bf_disk := False, bf_data := bf_data (bio_buf a (r_b r))\<rparr>) \<and>
     (\<forall>r \<in> set rs. r_write r \<longrightarrow> bf_data (bio_buf a (r_b r)) = bf_data (v_bufs s (r_b r)) \<and>
        length (bf_data (v_bufs s (r_b r))) = 1024)"

definition blocknos_inv :: "vdisk \<Rightarrow> vreq list \<Rightarrow> bool" where
  "blocknos_inv s rs \<longleftrightarrow> (\<forall>r \<in> set rs. r_block s r < 0x80000000) \<and> inj_on (r_block s) (set rs)"

definition moved_inv :: "vdev \<Rightarrow> vdisk \<Rightarrow> vreq list \<Rightarrow> bio \<Rightarrow> bool" where
  "moved_inv d s rs a \<longleftrightarrow>
     (\<forall>r \<in> set rs. r_i0 r \<notin> set (waiting d s @ dv_inflight d) \<longrightarrow>
        bf_data (v_bufs s (r_b r)) = (if r_write r then block_at (dv_image d) else bio_disk a) (r_block s r))"

definition image_inv :: "vdev \<Rightarrow> vdisk \<Rightarrow> vreq list \<Rightarrow> bio \<Rightarrow> bool" where
  "image_inv d s rs a \<longleftrightarrow>
     (\<forall>n < 0x80000000. (\<forall>r \<in> set rs. r_write r \<longrightarrow> r_block s r \<noteq> n) \<longrightarrow> block_at (dv_image d) n = bio_disk a n)"

definition data_inv :: "vdev \<Rightarrow> vdisk \<Rightarrow> vreq list \<Rightarrow> bio \<Rightarrow> bool" where
  "data_inv d s rs a \<longleftrightarrow> bufs_inv s rs a \<and> blocknos_inv s rs \<and> moved_inv d s rs a \<and> image_inv d s rs a"

text \<open>A step that touches neither the data nor the image.\<close>

lemma data_inv_cong:
  assumes "data_inv d s rs a" "\<And>b. v_bufs s' b = (v_bufs s b)\<lparr>bf_disk := bf_disk (v_bufs s' b)\<rparr>"
    "\<And>b. b \<notin> r_b ` set rs \<Longrightarrow> v_bufs s' b = v_bufs s b" "dv_image d' = dv_image d"
    "set (waiting d' s' @ dv_inflight d') = set (waiting d s @ dv_inflight d)"
  shows "data_inv d' s' rs a"
proof -
  have B: "bf_blockno (v_bufs s' b) = bf_blockno (v_bufs s b)" "bf_data (v_bufs s' b) = bf_data (v_bufs s b)"
    "(v_bufs s' b)\<lparr>bf_disk := False, bf_data := x\<rparr> = (v_bufs s b)\<lparr>bf_disk := False, bf_data := x\<rparr>" for b x
    by (subst assms(2), simp)+
  have "bufs_inv s' rs a" using assms(1,3) unfolding data_inv_def bufs_inv_def B by simp
  then show ?thesis
    using assms(1) unfolding data_inv_def blocknos_inv_def moved_inv_def image_inv_def B assms(4,5) by simp
qed

lemma submit_data:
  assumes inv: "data_inv d s rs a" and b: "b \<notin> r_b ` set rs" "bf_blockno (v_bufs s b) \<notin> r_block s ` set rs"
      "bf_blockno (v_bufs s b) < 0x80000000" "length (bf_data (v_bufs s b)) = 1024"
    and f: "v_bufs s' = (v_bufs s)(b := (v_bufs s b)\<lparr>bf_disk := True\<rparr>)" "waiting d s' = waiting d s @ [r_i0 r]"
    and r: "r_b r = b"
  shows "data_inv d s' (r # rs) a"
proof -
  note I = inv[unfolded data_inv_def]
  have nb: "v_bufs s' (r_b x) = v_bufs s (r_b x)" if "x \<in> set rs" for x using that b(1) by (auto simp: f)
  have bl: "r_block s' x = r_block s x" for x by (simp add: f(1))
  have a: "bio_buf a b = v_bufs s b" "\<not> bf_disk (v_bufs s b)" using I b(1) unfolding bufs_inv_def by blast+
  have "bufs_inv s' (r # rs) a"
    using I b(4) a unfolding bufs_inv_def by (auto simp: nb r) (simp_all add: f)
  moreover have "blocknos_inv s' (r # rs)"
  proof -
    have "blocknos_inv s rs" "r_block s r \<notin> r_block s ` (set rs - {r})" using I b(2) r by blast+
    then show ?thesis using b(3) r unfolding blocknos_inv_def bl by simp
  qed
  moreover have "moved_inv d s' (r # rs) a"
    using I unfolding moved_inv_def bl f(2) by (simp add: nb)
  moreover have "image_inv d s' (r # rs) a" using I unfolding image_inv_def bl by simp
  ultimately show ?thesis by (simp add: data_inv_def)
qed

lemma transfer_fields:
  "bio_disk (disk_transfer b w a) = (if w then (bio_disk a)(bf_blockno (bio_buf a b) := bf_data (bio_buf a b)) else bio_disk a)"
  "bio_buf (disk_transfer b w a) b = (if w then (bio_buf a b)\<lparr>bf_disk := False\<rparr>
     else (bio_buf a b)\<lparr>bf_data := bio_disk a (bf_blockno (bio_buf a b)), bf_disk := False\<rparr>)"
  "c \<noteq> b \<Longrightarrow> bio_buf (disk_transfer b w a) c = bio_buf a c"
  by (simp_all add: disk_transfer_def Let_def upd_buf_def)

text \<open>The two ways in which a request is served.\<close>

lemma write_data:
  assumes inv: "data_inv d s rs a" and r: "r \<in> set rs" "r_write r" and un: "\<And>x. x \<in> set rs \<Longrightarrow> r_i0 x = r_i0 r \<Longrightarrow> x = r"
    and img: "dv_image d' = write_sectors (dv_image d) (ucast (r_block s r * 2)) 2 (bf_data (v_bufs s (r_b r)))"
    and bufs: "v_bufs s' = v_bufs s"
    and w: "set (waiting d' s' @ dv_inflight d') = set (waiting d s @ dv_inflight d) - {r_i0 r}"
  shows "data_inv d' s' rs a"
proof -
  note I = inv[unfolded data_inv_def]
  have R: "r_block s r < 0x80000000" "length (bf_data (v_bufs s (r_b r))) = 1024"
    using I r unfolding blocknos_inv_def bufs_inv_def by blast+
  have other: "block_at (dv_image d') n = block_at (dv_image d) n" if "n < 0x80000000" "n \<noteq> r_block s r" for n
    unfolding img by (rule block_at_other[OF R(1) that])
  have own: "block_at (dv_image d') (r_block s r) = bf_data (v_bufs s (r_b r))"
    unfolding img by (rule block_at_write[OF R(2)])
  have "moved_inv d' s' rs a"
    unfolding moved_inv_def w bufs
  proof (intro ballI impI)
    fix x
    assume x: "x \<in> set rs" "r_i0 x \<notin> set (waiting d s @ dv_inflight d) - {r_i0 r}"
    show "bf_data (v_bufs s (r_b x)) = (if r_write x then block_at (dv_image d') else bio_disk a) (r_block s x)"
    proof (cases "x = r")
      case True
      then show ?thesis using own r by simp
    next
      case False
      then have "r_i0 x \<notin> set (waiting d s @ dv_inflight d)" using un[OF x(1)] x(2) by auto
      then have "bf_data (v_bufs s (r_b x)) = (if r_write x then block_at (dv_image d) else bio_disk a) (r_block s x)"
        using I x(1) unfolding moved_inv_def by blast
      moreover have "r_block s x \<noteq> r_block s r" "r_block s x < 0x80000000"
        using I x(1) r(1) False unfolding blocknos_inv_def inj_on_def by blast+
      ultimately show ?thesis using other by simp
    qed
  qed
  moreover have "image_inv d' s' rs a"
    using I r other unfolding image_inv_def bufs by metis
  ultimately show ?thesis using I unfolding data_inv_def bufs_inv_def blocknos_inv_def bufs by blast
qed

lemma read_data:
  assumes inv: "data_inv d s rs a" and r: "r \<in> set rs" "\<not> r_write r" and un: "\<And>x. x \<in> set rs \<Longrightarrow> r_i0 x = r_i0 r \<or> r_b x = r_b r \<Longrightarrow> x = r"
    and img: "dv_image d' = dv_image d"
    and bufs: "v_bufs s' = (v_bufs s)(r_b r := (v_bufs s (r_b r))\<lparr>bf_data := block_at (dv_image d) (r_block s r)\<rparr>)"
    and w: "set (waiting d' s' @ dv_inflight d') = set (waiting d s @ dv_inflight d) - {r_i0 r}"
  shows "data_inv d' s' rs a"
proof -
  note I = inv[unfolded data_inv_def]
  have bl: "r_block s' x = r_block s x" for x by (simp add: bufs)
  have nb: "v_bufs s' (r_b x) = v_bufs s (r_b x)" if "x \<in> set rs" "x \<noteq> r" for x using un that by (auto simp: bufs)
  have B: "blocknos_inv s rs" "r_block s r < 0x80000000" using I r(1) unfolding blocknos_inv_def by blast+
  have "\<forall>x \<in> set rs. r_write x \<longrightarrow> r_block s x \<noteq> r_block s r"
    using B(1) r unfolding blocknos_inv_def inj_on_def by metis
  then have now: "block_at (dv_image d) (r_block s r) = bio_disk a (r_block s r)"
    using I B(2) unfolding image_inv_def by blast
  have "bufs_inv s' rs a"
    unfolding bufs_inv_def
  proof (intro conjI ballI allI impI)
    fix b
    assume "b \<notin> r_b ` set rs"
    then show "bio_buf a b = v_bufs s' b" "\<not> bf_disk (v_bufs s' b)"
      using I r(1) unfolding bufs_inv_def bufs by (metis fun_upd_other image_eqI)+
  next
    fix x
    assume x: "x \<in> set rs"
    have "bio_buf a (r_b x) = (v_bufs s (r_b x))\<lparr>bf_disk := False, bf_data := bf_data (bio_buf a (r_b x))\<rparr>"
      using I x unfolding bufs_inv_def by blast
    then show "bio_buf a (r_b x) = (v_bufs s' (r_b x))\<lparr>bf_disk := False, bf_data := bf_data (bio_buf a (r_b x))\<rparr>"
      using nb[OF x] by (cases "x = r") (simp_all add: bufs)
    assume "r_write x"
    then have "x \<noteq> r" using r(2) by auto
    with nb[OF x this] I x \<open>r_write x\<close> show "bf_data (bio_buf a (r_b x)) = bf_data (v_bufs s' (r_b x))"
      "length (bf_data (v_bufs s' (r_b x))) = 1024" unfolding bufs_inv_def by simp_all
  qed
  moreover have "moved_inv d' s' rs a"
    unfolding moved_inv_def w bl img
  proof (intro ballI impI)
    fix x
    assume x: "x \<in> set rs" "r_i0 x \<notin> set (waiting d s @ dv_inflight d) - {r_i0 r}"
    show "bf_data (v_bufs s' (r_b x)) = (if r_write x then block_at (dv_image d) else bio_disk a) (r_block s x)"
    proof (cases "x = r")
      case True
      then show ?thesis using now r by (simp add: bufs)
    next
      case False
      then have "r_i0 x \<notin> set (waiting d s @ dv_inflight d)" using un[OF x(1)] x(2) by auto
      then show ?thesis using I x(1) nb[OF x(1) False] unfolding moved_inv_def by simp
    qed
  qed
  moreover have "image_inv d' s' rs a" "blocknos_inv s' rs"
    using I unfolding image_inv_def blocknos_inv_def bl img by blast+
  ultimately show ?thesis by (simp add: data_inv_def)
qed

text \<open>When a call returns, the specification has made the same transfer.\<close>

lemma finish_data:
  assumes inv: "data_inv d s rs a" and r: "r \<in> set rs" and nd: "\<not> bf_disk (v_bufs s (r_b r))"
    and un: "\<And>x. x \<in> set rs \<Longrightarrow> r_b x = r_b r \<Longrightarrow> x = r" and nw: "r_i0 r \<notin> set (waiting d s @ dv_inflight d)"
    and f: "v_bufs s' = v_bufs s" "waiting d s' = waiting d s" and rs': "set rs' = set rs - {r}"
  shows "data_inv d s' rs' (disk_transfer (r_b r) (r_write r) a)"
proof -
  note I = inv[unfolded data_inv_def]
  let ?a = "disk_transfer (r_b r) (r_write r) a" and ?n = "r_block s r"
  define dat where "dat = bf_data (bio_buf a (r_b r))"
  have "bio_buf a (r_b r) = (v_bufs s (r_b r))\<lparr>bf_disk := False, bf_data := bf_data (bio_buf a (r_b r))\<rparr>"
    using I r unfolding bufs_inv_def by blast
  then have B: "bio_buf a (r_b r) = (v_bufs s (r_b r))\<lparr>bf_disk := False, bf_data := dat\<rparr>" by (simp only: dat_def)
  have wd: "dat = bf_data (v_bufs s (r_b r))" if "r_write r" using I r that unfolding bufs_inv_def dat_def by blast
  have bn: "bf_blockno (bio_buf a (r_b r)) = ?n" by (simp add: B)
  have D: "bf_data (v_bufs s (r_b r)) = (if r_write r then block_at (dv_image d) else bio_disk a) ?n"
    using I r nw unfolding moved_inv_def by blast
  have "bio_buf ?a (r_b r) = (v_bufs s (r_b r))\<lparr>bf_disk := False, bf_data := bf_data (v_bufs s (r_b r))\<rparr>"
    using D wd by (cases "r_write r") (simp_all add: transfer_fields B)
  also have "\<dots> = v_bufs s (r_b r)" using nd by (cases "v_bufs s (r_b r)") simp
  finally have own: "bio_buf ?a (r_b r) = v_bufs s (r_b r)" .
  have dif: "r_block s x \<noteq> ?n" if "x \<in> set rs'" for x
    using I r that unfolding rs' blocknos_inv_def inj_on_def by blast
  have oth: "bio_buf ?a (r_b x) = bio_buf a (r_b x)" if "x \<in> set rs'" for x
    using un that unfolding rs' by (intro transfer_fields(3)) auto
  have dsk: "bio_disk ?a n = bio_disk a n" if "n \<noteq> ?n" for n using that by (simp add: transfer_fields bn)
  have "bufs_inv s' rs' ?a"
    unfolding bufs_inv_def f
  proof (intro conjI ballI allI impI)
    fix b
    assume b: "b \<notin> r_b ` set rs'"
    have "bio_buf ?a b = v_bufs s b \<and> \<not> bf_disk (v_bufs s b)"
    proof (cases "b = r_b r")
      case True
      then show ?thesis using own nd by simp
    next
      case False
      then have "b \<notin> r_b ` set rs" using b unfolding rs' by auto
      then have "bio_buf a b = v_bufs s b" "\<not> bf_disk (v_bufs s b)" using I unfolding bufs_inv_def by blast+
      then show ?thesis using False by (simp add: transfer_fields(3))
    qed
    then show "bio_buf ?a b = v_bufs s b" "\<not> bf_disk (v_bufs s b)" by blast+
  next
    fix x
    assume x: "x \<in> set rs'"
    then have "x \<in> set rs" unfolding rs' by simp
    with I show "bio_buf ?a (r_b x) = (v_bufs s (r_b x))\<lparr>bf_disk := False, bf_data := bf_data (bio_buf ?a (r_b x))\<rparr>"
      and "r_write x \<Longrightarrow> bf_data (bio_buf ?a (r_b x)) = bf_data (v_bufs s (r_b x))"
      and "r_write x \<Longrightarrow> length (bf_data (v_bufs s (r_b x))) = 1024"
      unfolding oth[OF x] bufs_inv_def by blast+
  qed
  moreover have "moved_inv d s' rs' ?a"
    using I dif dsk unfolding moved_inv_def f by (simp add: rs')
  moreover have "image_inv d s' rs' ?a"
    unfolding image_inv_def f
  proof (intro allI impI)
    fix n :: u32
    assume n: "n < 0x80000000" "\<forall>x \<in> set rs'. r_write x \<longrightarrow> r_block s x \<noteq> n"
    show "block_at (dv_image d) n = bio_disk ?a n"
    proof (cases "r_write r \<and> n = ?n")
      case True
      then show ?thesis using D wd by (simp add: transfer_fields B)
    next
      case False
      then have "\<forall>x \<in> set rs. r_write x \<longrightarrow> r_block s x \<noteq> n" using n(2) unfolding rs' by auto
      then have "block_at (dv_image d) n = bio_disk a n" using I n(1) unfolding image_inv_def by blast
      moreover have "bio_disk ?a n = bio_disk a n" using False by (auto simp: transfer_fields bn)
      ultimately show ?thesis by simp
    qed
  qed
  moreover have "blocknos_inv s' rs'" using I unfolding blocknos_inv_def f rs' by (auto intro: inj_on_subset)
  ultimately show ?thesis by (simp add: data_inv_def)
qed

lemma serve_inv:
  assumes drv: "drv_inv d s rs" and dat: "data_inv d s rs a" and h: "h \<in> set (dv_inflight d)"
  obtains d' s' where "dev_serve h d s = Some (d', s')" "drv_inv d' s' rs" "data_inv d' s' rs a"
proof -
  note I = drv[unfolded drv_inv_def]
  have "h \<in> r_i0 ` set rs" using I h unfolding queued_def by auto
  then obtain r where r: "r \<in> set rs" "h = r_i0 r" by auto
  have un: "x = r" if "x \<in> set rs" "r_i0 x = r_i0 r \<or> r_b x = r_b r" for x
    using head_unique[of rs x r "r_i0 r"] r_b_unique[of rs x r] I r(1) that unfolding owned_def by (auto simp: chain_def)
  have "set (chain r) \<subseteq> set (chains rs)" using r by auto
  then have "set (chain r) \<subseteq> {..<NUM}" using I unfolding owned_def by blast
  note sv = dev_serve_formatted[OF _ this, of s d, folded r(2)]
  have fm: "formatted s r" using I r(1) by blast
  have "distinct (queued d s)" using I by blast
  then have dis: "distinct (waiting d s @ dv_inflight d)" by (auto simp: queued_def)
  have w: "set (waiting d s @ remove1 h (dv_inflight d)) = set (waiting d s @ dv_inflight d) - {r_i0 r}"
    using dis h by (auto simp: r(2)[symmetric])
  show thesis
  proof (cases "r_write r")
    case True
    let ?img = "write_sectors (dv_image d) (ucast (r_block s r * 2)) 2 (bf_data (v_bufs s (r_b r)))"
    let ?d = "d\<lparr>dv_inflight := remove1 h (dv_inflight d), dv_image := ?img\<rparr>" and ?s = "dev_complete h h s"
    have c: "drv_inv ?d ?s rs" "waiting ?d ?s = waiting d s"
      using complete_drv[OF drv h, of "v_bufs s" ?img] by simp_all
    have "data_inv ?d ?s rs a"
      by (rule write_data[OF dat r(1) True]) (use un w c(2) in \<open>simp_all add: dev_complete_def\<close>)
    then show thesis using that[of ?d ?s] sv[OF fm] True c(1) by (simp add: Let_def r(2))
  next
    case False
    let ?B = "(v_bufs s)(r_b r := (v_bufs s (r_b r))\<lparr>bf_data := block_at (dv_image d) (r_block s r)\<rparr>)"
    let ?d = "d\<lparr>dv_inflight := remove1 h (dv_inflight d), dv_image := dv_image d\<rparr>"
      and ?s = "dev_complete h h (s\<lparr>v_bufs := ?B\<rparr>)"
    have c: "drv_inv ?d ?s rs" "waiting ?d ?s = waiting d s"
      by (rule complete_drv[OF drv h]; simp)+
    have "data_inv ?d ?s rs a"
      by (rule read_data[OF dat r(1) False un]) (use w c(2) in \<open>simp_all add: dev_complete_def\<close>)
    then show thesis using that[of ?d ?s] sv[OF fm] False c(1) by (simp add: Let_def r(2) block_at_def)
  qed
qed

subsection \<open>All interleavings\<close>

definition disk_inv :: "vconf \<Rightarrow> bool" where
  "disk_inv c = (case c of (d, s, rs, a) \<Rightarrow> drv_inv d s rs \<and> data_inv d s rs a)"

lemma submit_inv:
  assumes "drv_inv d s rs" "data_inv d s rs a" "b \<notin> r_b ` set rs" "bf_blockno (v_bufs s b) \<notin> r_block s ` set rs"
    "bf_blockno (v_bufs s b) < 0x80000000" "length (bf_data (v_bufs s b)) = 1024"
    "rw_submit b w s = Inr (Some (i0, i1, i2), s')"
  shows "disk_inv (d, s', \<lparr>r_i0 = i0, r_i1 = i1, r_i2 = i2, r_b = b, r_write = w\<rparr> # rs, a)"
proof -
  have "owned s rs" using assms(1) unfolding drv_inv_def by blast
  then show ?thesis
  proof (cases rule: rw_submit_cases[of s rs b w])
    case (1 j0 j1 j2)
    then have e: "j0 = i0" "j1 = i1" "j2 = i2" "s' = submitted b w i0 i1 i2 s" using assms(7) by auto
    note S = submit_drv[OF assms(1,3) 1(1,2), of w, unfolded e(1-3)]
    have "data_inv d s' (\<lparr>r_i0 = i0, r_i1 = i1, r_i2 = i2, r_b = b, r_write = w\<rparr> # rs) a"
      by (rule submit_data[OF assms(2-6)]) (simp_all add: e(4) S(2) submitted_fields(2))
    then show ?thesis using S(1) by (simp add: disk_inv_def e(4))
  qed (use assms(7) in auto)
qed

lemma submit_full_inv:
  assumes I: "drv_inv d s rs" "data_inv d s rs a" and run: "rw_submit b w s = Inr (None, s')"
  shows "disk_inv (d, s', rs, a)"
proof -
  from I(1) have "owned s rs" unfolding drv_inv_def by blast
  then obtain ws where s': "s' = s\<lparr>v_wakes := ws\<rparr>"
    using run by (cases rule: rw_submit_cases[of s rs b w]) auto
  have "drv_inv d s' rs"
    using I(1) unfolding s' drv_inv_def owned_def formatted_def queued_def waiting_def served_def by simp
  moreover have "data_inv d s' rs a"
    by (rule data_inv_cong[OF I(2)]) (simp_all add: s' waiting_def)
  ultimately show ?thesis by (simp add: disk_inv_def)
qed

lemma device_inv:
  assumes I: "drv_inv d s rs" "data_inv d s rs a" and dev: "virtio_device dev" and step: "dev (d, s) (d', s')"
  shows "disk_inv (d', s', rs, a)"
proof -
  consider "dv_seen d \<noteq> v_avail_idx s" "d' = dev_fetch d s" "s' = s"
    | h where "h \<in> set (dv_inflight d)" "dev_serve h d s = None \<or> dev_serve h d s = Some (d', s')"
    using dev step unfolding virtio_device_def by blast
  then show ?thesis
  proof cases
    case 1
    note F = fetch_drv[OF I(1) 1(1)]
    have "data_inv d' s' rs a"
      unfolding 1 by (rule data_inv_cong[OF I(2)]) (use F(2) in \<open>simp_all add: dev_fetch_def\<close>)
    then show ?thesis using F(1) by (simp add: disk_inv_def 1)
  next
    case (2 h)
    obtain d1 s1 where "dev_serve h d s = Some (d1, s1)" "drv_inv d1 s1 rs" "data_inv d1 s1 rs a"
      using serve_inv[OF I 2(1)] .
    with 2(2) show ?thesis by (simp add: disk_inv_def)
  qed
qed

lemma interrupt_inv:
  assumes I: "drv_inv d s rs" "data_inv d s rs a" and run: "virtio_disk_intr v s = Inr (u, s')"
  shows "disk_inv (d, s', rs, a)" "r \<in> set rs \<Longrightarrow> bf_disk (v_bufs s' (r_b r)) \<longleftrightarrow> r_i0 r \<in> set (waiting d s @ dv_inflight d)"
proof -
  have W: "drv_inv d (wR 0x064 (v AND 3) s) rs" "data_inv d (wR 0x064 (v AND 3) s) rs a"
    using I
    by (simp_all add: wR_def drv_inv_def owned_def formatted_def queued_def waiting_def served_def data_inv_def
        bufs_inv_def blocknos_inv_def moved_inv_def image_inv_def)
  have r: "intr_loop (wR 0x064 (v AND 3) s) = Inr (u, s')" using run by (simp add: virtio_disk_intr_def kmon_defs)
  from intr_drv[OF W(1)] r have J: "drv_inv d s' rs" "waiting d s' = waiting d s" "served s' = []"
    "same_but_disk (v_bufs s') (v_bufs (wR 0x064 (v AND 3) s))"
    "\<forall>b. b \<notin> r_b ` set rs \<longrightarrow> v_bufs s' b = v_bufs (wR 0x064 (v AND 3) s) b" by (auto simp: waiting_def wR_def)
  have "data_inv d s' rs a"
    by (rule data_inv_cong[OF W(2)]) (use J(2,4,5) in \<open>auto simp: same_but_disk_def waiting_def wR_def\<close>)
  then show "disk_inv (d, s', rs, a)" using J(1) by (simp add: disk_inv_def)
  assume "r \<in> set rs"
  then have "bf_disk (v_bufs s' (r_b r)) \<longleftrightarrow> r_i0 r \<in> set (queued d s')" using J(1) unfolding drv_inv_def by blast
  then show "bf_disk (v_bufs s' (r_b r)) \<longleftrightarrow> r_i0 r \<in> set (waiting d s @ dv_inflight d)" by (simp add: queued_def J(2,3))
qed

lemma finish_inv:
  assumes I: "drv_inv d s rs" "data_inv d s rs a" and r: "r \<in> set rs" and run: "rw_finish (r_i0 r) (r_b r) s = Inr (True, s')"
  shows "disk_inv (d, s', remove1 r rs, disk_transfer (r_b r) (r_write r) a)"
proof -
  have nd: "\<not> bf_disk (v_bufs s (r_b r))" using run by (auto simp: rw_finish_def split: if_splits)
  note F = finish_drv[OF I(1) r nd]
  have s': "s' = finished r s" using F(1) run by simp
  have "r_i0 r \<notin> set (queued d s)" using I(1) r nd unfolding drv_inv_def by blast
  then have nw: "r_i0 r \<notin> set (waiting d s @ dv_inflight d)" by (simp add: queued_def)
  have "distinct (map r_b rs)" using I(1) unfolding drv_inv_def owned_def by blast
  then have "data_inv d s' (remove1 r rs) (disk_transfer (r_b r) (r_write r) a)"
    using r by (intro finish_data[OF I(2) r nd _ nw])
      (auto simp: s' finished_def waiting_def F(3) intro: r_b_unique)
  then show ?thesis using F(2) by (simp add: disk_inv_def s')
qed

lemma owner_inv:
  assumes I: "drv_inv d s rs" "data_inv d s rs a" and b: "b \<notin> r_b ` set rs" and y: "\<not> bf_disk y"
  shows "disk_inv (d, s\<lparr>v_bufs := (v_bufs s)(b := y)\<rparr>, rs, a\<lparr>bio_buf := (bio_buf a)(b := y)\<rparr>)"
proof -
  let ?s = "s\<lparr>v_bufs := (v_bufs s)(b := y)\<rparr>" and ?a = "a\<lparr>bio_buf := (bio_buf a)(b := y)\<rparr>"
  have nb: "v_bufs ?s (r_b r) = v_bufs s (r_b r)" "bio_buf ?a (r_b r) = bio_buf a (r_b r)" if "r \<in> set rs" for r
    using that b by auto
  have w: "waiting d ?s = waiting d s" "queued d ?s = queued d s" "served ?s = served s"
    by (simp_all add: waiting_def queued_def served_def)
  have "owned ?s rs" using I(1) by (simp add: drv_inv_def owned_def)
  moreover have "\<forall>r \<in> set rs. formatted ?s r"
  proof
    fix r
    assume "r \<in> set rs"
    then show "formatted ?s r"
      using I(1) nb[of r] unfolding drv_inv_def by (intro formatted_cong[of s r ?s]) auto
  qed
  ultimately have "drv_inv d ?s rs" using I(1) nb unfolding drv_inv_def w by simp
  moreover have "data_inv d ?s rs ?a"
    unfolding data_inv_def
  proof (intro conjI)
    note D = I(2)[unfolded data_inv_def]
    show "bufs_inv ?s rs ?a" using D y nb unfolding bufs_inv_def by simp
    show "blocknos_inv ?s rs" using D nb unfolding blocknos_inv_def inj_on_def by simp
    show "moved_inv d ?s rs ?a" using D nb unfolding moved_inv_def w by simp
    show "image_inv d ?s rs ?a" using D nb unfolding image_inv_def by simp
  qed
  ultimately show ?thesis by (simp add: disk_inv_def)
qed

lemma disk_invD: "disk_inv (d, s, rs, a) \<Longrightarrow> drv_inv d s rs" "disk_inv (d, s, rs, a) \<Longrightarrow> data_inv d s rs a"
  by (simp_all add: disk_inv_def)

lemma vstep_inv:
  assumes "vstep dev c c'" "virtio_device dev" "disk_inv c"
  shows "disk_inv c'"
  using assms
proof (induction rule: vstep.induct)
  case (submit b rs s w i0 i1 i2 s' d a)
  then show ?case by - (rule submit_inv[OF disk_invD], assumption+)
next
  case (submit_full b w s s' d rs a)
  then show ?case by - (rule submit_full_inv[OF disk_invD], assumption+)
next
  case (device d s d' s' rs a)
  then show ?case by - (rule device_inv[OF disk_invD], assumption+)
next
  case (interrupt v s u s' d rs a)
  then show ?case by - (rule interrupt_inv(1)[OF disk_invD], assumption+)
next
  case (finish r rs s s' d a)
  then show ?case by - (rule finish_inv[OF disk_invD], assumption+)
next
  case (owner b rs x d s a)
  then show ?case by - (rule owner_inv[OF disk_invD], assumption+)
qed

lemma reach_inv:
  assumes "(vstep dev)\<^sup>*\<^sup>* c c'" "virtio_device dev" "disk_inv c"
  shows "disk_inv c'"
  using assms by (induction rule: rtranclp_induct) (blast intro: vstep_inv)+

lemma init_inv:
  assumes "virtio_disk_init R pages s = Inr (u, s0)" "v_used_idx s = 0" "\<forall>b. \<not> bf_disk (v_bufs s b)"
    "bio_buf a = v_bufs s" "\<forall>n < 0x80000000. bio_disk a n = block_at img n"
  shows "disk_inv (\<lparr>dv_seen = 0, dv_inflight = [], dv_image = img\<rparr>, s0, [], a)"
proof -
  have f: "v_desc s0 = (\<lambda>_. desc0)" "v_avail_idx s0 = 0" "v_avail s0 = replicate NUM 0" "v_uidx s0 = 0"
    "v_used s0 = replicate NUM 0" "v_free s0 = (\<lambda>_. True)" "v_bufs s0 = v_bufs s" "v_used_idx s0 = 0"
    using assms(1,2) by (auto simp: virtio_disk_init_def wR_def split: if_splits)
  have "drv_inv \<lparr>dv_seen = 0, dv_inflight = [], dv_image = img\<rparr> s0 []"
    by (simp add: drv_inv_def owned_def queued_def waiting_def served_def f ring_list_def)
  then show ?thesis
    using assms(3-5) by (simp add: disk_inv_def data_inv_def bufs_inv_def blocknos_inv_def moved_inv_def image_inv_def f)
qed



subsection \<open>An example\<close>

text \<open>A device that serves requests in order, and a read request for block 5 on it.\<close>

definition fifo_device :: "vdev \<times> vdisk \<Rightarrow> vdev \<times> vdisk \<Rightarrow> bool" where
  "fifo_device c c' = (case c of (d, s) \<Rightarrow>
     (case dv_inflight d of [] \<Rightarrow> dv_seen d \<noteq> v_avail_idx s \<and> c' = (dev_fetch d s, s) | h # _ \<Rightarrow> dev_serve h d s = Some c'))"

lemma fifo_device_ok: "virtio_device fifo_device"
  by (auto simp: virtio_device_def fifo_device_def split: list.splits)

definition ex_regs :: "u32 \<Rightarrow> u32" where
  "ex_regs r = (if r = 0 then 0x74726976 else if r = 4 then 1 else if r = 8 then 2 else if r = 0xc then 0x554d4551 else 1024)"

definition ex_buf :: buf where
  "ex_buf = \<lparr>bf_valid = False, bf_disk = False, bf_dev = 1, bf_blockno = 5, bf_lock = initsleeplock, bf_refcnt = 1,
     bf_prev = 0, bf_next = 0, bf_data = replicate 1024 0\<rparr>"

definition ex_disk :: vdisk where
  "ex_disk = \<lparr>v_desc = \<lambda>_. desc0, v_avail_idx = 0, v_avail = [], v_uidx = 0, v_used = [], v_free = \<lambda>_. False, v_used_idx = 0,
     v_info = \<lambda>_. \<lparr>in_b = None, in_status = 0\<rparr>, v_ops = \<lambda>_. \<lparr>rq_type = 0, rq_reserved = 0, rq_sector = 0\<rparr>,
     v_bufs = \<lambda>_. ex_buf, v_wakes = [], v_mmio = []\<rparr>"

definition ex_bio :: bio where
  "ex_bio = \<lparr>bio_buf = \<lambda>_. ex_buf, bio_disk = \<lambda>_. replicate 1024 7, bio_writes = []\<rparr>"

definition ex_img :: "u64 \<Rightarrow> u8 list" where
  "ex_img _ = replicate 512 7"

lemma ex_img_block: "block_at ex_img n = replicate 1024 7"
  by (simp add: block_at_def two_sectors ex_img_def flip: replicate_add)

lemma ex_init:
  obtains s0 where "virtio_disk_init ex_regs 0x80009000 ex_disk = Inr ((), s0)" "v_bufs s0 = (\<lambda>_. ex_buf)" "owned s0 []"
    "v_free s0 = (\<lambda>_. True)"
proof -
  have "\<exists>s0. virtio_disk_init ex_regs 0x80009000 ex_disk = Inr ((), s0) \<and> v_bufs s0 = (\<lambda>_. ex_buf) \<and> owned s0 [] \<and> v_free s0 = (\<lambda>_. True)"
    by (simp add: virtio_disk_init_def ex_regs_def kmon_defs wR_def owned_def ex_disk_def)
  then show thesis using that by blast
qed

lemma ex_run:
  obtains s0 s i0 i1 i2 where "virtio_disk_init ex_regs 0x80009000 ex_disk = Inr ((), s0)"
    "(vstep fifo_device)\<^sup>*\<^sup>* (\<lparr>dv_seen = 0, dv_inflight = [], dv_image = ex_img\<rparr>, s0, [], ex_bio)
       (\<lparr>dv_seen = 0, dv_inflight = [], dv_image = ex_img\<rparr>, s,
        [\<lparr>r_i0 = i0, r_i1 = i1, r_i2 = i2, r_b = 0, r_write = False\<rparr>], ex_bio)"
proof -
  obtain s0 where s0: "virtio_disk_init ex_regs 0x80009000 ex_disk = Inr ((), s0)" "v_bufs s0 = (\<lambda>_. ex_buf)" "owned s0 []"
    "v_free s0 = (\<lambda>_. True)" using ex_init .
  obtain i0 i1 i2 where "rw_submit 0 False s0 = Inr (Some (i0, i1, i2), submitted 0 False i0 i1 i2 s0)"
  proof (cases rule: rw_submit_cases[OF s0(3), of 0 False])
    case (2 ws)
    moreover have "find_slot (\<lambda>_. True) (i # xs) = Some (0 :: nat)" for i :: nat and xs by simp
    ultimately show thesis
      using s0(4) by (simp add: rw_submit_def alloc3_desc_def alloc_desc_def numeral_3_eq_3 kmon_defs upt_rec)
  qed (rule that)
  then have "vstep fifo_device (\<lparr>dv_seen = 0, dv_inflight = [], dv_image = ex_img\<rparr>, s0, [], ex_bio)
      (\<lparr>dv_seen = 0, dv_inflight = [], dv_image = ex_img\<rparr>, submitted 0 False i0 i1 i2 s0,
        [\<lparr>r_i0 = i0, r_i1 = i1, r_i2 = i2, r_b = 0, r_write = False\<rparr>], ex_bio)"
    by (intro vstep.submit) (simp_all add: s0(2) ex_buf_def)
  then show thesis using that[OF s0(1)] r_into_rtranclp by metis
qed

lemma ex_hyps: "v_used_idx ex_disk = 0" "\<forall>b. \<not> bf_disk (v_bufs ex_disk b)" "bio_buf ex_bio = v_bufs ex_disk"
  "\<forall>n < 0x80000000. bio_disk ex_bio n = block_at ex_img n"
  by (simp_all add: ex_disk_def ex_buf_def ex_bio_def ex_img_block)



end
