(* ===== verification/Balloc.thy ===== *)
theory Balloc
  imports Fs
begin

text \<open>
  The block allocator of \<^verbatim>\<open>src/kernel/fs.c\<close> (\<^verbatim>\<open>balloc\<close>, \<^verbatim>\<open>bfree\<close>, \<^verbatim>\<open>bzero\<close>) as a set of used blocks: the
  bitmap on the disk is read as the set of the block numbers whose bit is set.
\<close>

subsection \<open>Bits of a bitmap block\<close>

definition bm :: "block \<Rightarrow> nat \<Rightarrow> bool" where
  "bm d bi = bit (d ! (bi div 8)) (bi mod 8)"

lemma bit_mask_exp: "bit_mask bi = 2 ^ (bi mod 8)"
  by (simp add: bit_mask_def push_bit_eq_mult)

lemma and_mask_0: "w AND bit_mask bi = 0 \<longleftrightarrow> \<not> bit w (bi mod 8)" for w :: u8
  by (simp add: bit_mask_exp and_exp_eq_0_iff_not_bit)

lemma bit_bit_mask: "bit (bit_mask bi) n \<longleftrightarrow> n = bi mod 8"
  by (auto simp: bit_mask_exp bit_exp_iff possible_bit_word)

lemma bit_or_mask: "bit (w OR bit_mask bi) n \<longleftrightarrow> bit w n \<or> n = bi mod 8" for w :: u8
  by (auto simp: bit_or_iff bit_bit_mask)

lemma bit_and_not_mask: "n < 8 \<Longrightarrow> bit (w AND NOT (bit_mask bi)) n \<longleftrightarrow> bit w n \<and> n \<noteq> bi mod 8" for w :: u8
  by (auto simp: bit_and_iff bit_not_iff bit_bit_mask possible_bit_word)

lemma div_mod_eq: "a div 8 = b div 8 \<Longrightarrow> a mod 8 = b mod 8 \<Longrightarrow> a = (b :: nat)"
  by (metis div_mult_mod_eq)

lemma bm_set:
  assumes "length d = BSIZE" "bi < BPB"
  shows "bm (d[bi div 8 := d ! (bi div 8) OR bit_mask bi]) c \<longleftrightarrow> c = bi \<or> bm d c"
proof (cases "c div 8 = bi div 8")
  case True
  have "bi div 8 < BSIZE" using assms(2) by simp
  then show ?thesis using assms(1) True div_mod_eq[of c bi] by (auto simp: bm_def bit_or_mask)
next
  case False
  then show ?thesis by (auto simp: bm_def)
qed

lemma bm_clear:
  assumes "length d = BSIZE" "bi < BPB"
  shows "bm (d[bi div 8 := d ! (bi div 8) AND NOT (bit_mask bi)]) c \<longleftrightarrow> c \<noteq> bi \<and> bm d c"
proof (cases "c div 8 = bi div 8")
  case True
  have "bi div 8 < BSIZE" using assms(2) by simp
  then show ?thesis using assms(1) True div_mod_eq[of c bi] by (auto simp: bm_def bit_and_not_mask)
next
  case False
  then show ?thesis by (auto simp: bm_def)
qed

text \<open>The inner loop finds the first clear bit.\<close>

lemma free_bit_Some:
  "free_bit d b sz bi = Some k \<Longrightarrow> bi \<le> k \<and> k < BPB \<and> b + k < sz \<and> \<not> bm d k \<and> (\<forall>j. bi \<le> j \<and> j < k \<longrightarrow> bm d j)"
proof (induction d b sz bi rule: free_bit.induct)
  case (1 d b sz bi)
  show ?case
  proof (cases "d ! (bi div 8) AND bit_mask bi = 0")
    case True
    then show ?thesis using "1.prems" by (subst (asm) free_bit.simps) (auto simp: and_mask_0 bm_def split: if_splits)
  next
    case False
    then have c: "bi < BPB" "b + bi < sz" "free_bit d b sz (Suc bi) = Some k"
      using "1.prems" by (subst (asm) free_bit.simps, simp split: if_splits)+
    have "bm d bi" using False by (simp add: and_mask_0 bm_def)
    then show ?thesis using "1.IH"[OF conjI[OF c(1,2)] False c(3)] by (metis Suc_le_eq le_neq_implies_less less_imp_le_nat)
  qed
qed

lemma free_bit_None:
  "free_bit d b sz bi = None \<Longrightarrow> bi \<le> j \<Longrightarrow> j < BPB \<Longrightarrow> b + j < sz \<Longrightarrow> bm d j"
proof (induction d b sz bi rule: free_bit.induct)
  case (1 d b sz bi)
  then have c: "bi < BPB \<and> b + bi < sz" by simp
  then have nz: "d ! (bi div 8) AND bit_mask bi \<noteq> 0" "free_bit d b sz (Suc bi) = None"
    using "1.prems"(1) by (subst (asm) free_bit.simps, simp split: if_splits)+
  show ?case
  proof (cases "j = bi")
    case True
    then show ?thesis using nz by (simp add: and_mask_0 bm_def)
  next
    case False
    then show ?thesis using "1.IH"[OF c nz] "1.prems" by simp
  qed
qed

subsection \<open>The bitmap as a set of blocks\<close>

abbreviation bsize :: "'a fsys_scheme \<Rightarrow> nat" where
  "bsize s \<equiv> unat (sb_size (fs_sb s))"

definition bitmap_block :: "'a fsys_scheme \<Rightarrow> nat \<Rightarrow> u32" where
  "bitmap_block s b = BBLOCK (of_nat b) (fs_sb s)"

definition used :: "'a fsys_scheme \<Rightarrow> u32 \<Rightarrow> nat \<Rightarrow> bool" where
  "used s dev b = bm (fs_blocks s dev (bitmap_block s b)) (b mod BPB)"

text \<open>
  The bitmap covers all blocks, lies inside the file system, and the blocks that hold it are in use, as
  \<^verbatim>\<open>mkfs\<close> leaves it.
\<close>

definition bitmap_ok :: "'a fsys_scheme \<Rightarrow> u32 \<Rightarrow> bool" where
  "bitmap_ok s dev \<longleftrightarrow>
     unat (sb_bmapstart (fs_sb s)) + (bsize s - 1) div BPB < bsize s \<and>
     (\<forall>b < bsize s. length (fs_blocks s dev (bitmap_block s b)) = BSIZE \<and> used s dev (unat (bitmap_block s b)))"

lemma bitmap_block_unat:
  assumes "bitmap_ok s dev" "b < bsize s"
  shows "unat (bitmap_block s b) = unat (sb_bmapstart (fs_sb s)) + b div BPB"
proof -
  have b: "b < 2 ^ 32" using assms(2) unat_u32[of "sb_size (fs_sb s)"] by simp
  then have "unat (of_nat b div 8192 :: u32) = b div BPB" by (simp add: unat_div_distrib unat_of_nat)
  moreover have "b div BPB \<le> (bsize s - 1) div BPB" using assms(2) by (intro div_le_mono) simp
  then have "unat (sb_bmapstart (fs_sb s)) + b div BPB < 2 ^ 32"
    using assms(1) unat_u32[of "sb_size (fs_sb s)"] unfolding bitmap_ok_def by simp
  ultimately show ?thesis by (simp add: bitmap_block_def BBLOCK_def unat_word_ariths)
qed

lemma bitmap_block_eq:
  assumes "bitmap_ok s dev" "b < bsize s" "c < bsize s"
  shows "bitmap_block s b = bitmap_block s c \<longleftrightarrow> b div BPB = c div BPB"
  using bitmap_block_unat[OF assms(1,2)] bitmap_block_unat[OF assms(1,3)] by (simp add: word_unat_eq_iff)

lemma bitmap_block_less:
  assumes "bitmap_ok s dev" "b < bsize s"
  shows "unat (bitmap_block s b) < bsize s"
proof -
  have "b div BPB \<le> (bsize s - 1) div BPB" using assms(2) by (intro div_le_mono) simp
  then show ?thesis using assms(1) unfolding bitmap_block_unat[OF assms] bitmap_ok_def by simp
qed


subsection \<open>Allocation and release\<close>

definition mark_bit :: "bool \<Rightarrow> u32 \<Rightarrow> nat \<Rightarrow> 'a fsys_scheme \<Rightarrow> 'a fsys_scheme" where
  "mark_bit v dev b s =
     (let d = fs_blocks s dev (bitmap_block s b); bi = b mod BPB
      in set_block dev (bitmap_block s b)
           (d[bi div 8 := if v then d ! (bi div 8) OR bit_mask bi else d ! (bi div 8) AND NOT (bit_mask bi)]) s)"

lemma set_block_apply:
  "fs_blocks (set_block dev n d s) dev' m = (if dev' = dev \<and> m = n then d else fs_blocks s dev' m)"
  "fs_sb (set_block dev n d s) = fs_sb s" "fs_outstanding (set_block dev n d s) = fs_outstanding s"
  "bitmap_block (set_block dev n d s) b = bitmap_block s b"
  by (simp_all add: set_block_def bitmap_block_def)

lemma mark_bit_used:
  assumes ok: "bitmap_ok s dev" and b: "b < bsize s" and c: "c < bsize s"
  shows "used (mark_bit v dev b s) dev c \<longleftrightarrow> (if c = b then v else used s dev c)"
proof -
  let ?d = "fs_blocks s dev (bitmap_block s b)"
  have len: "length ?d = BSIZE" using ok b unfolding bitmap_ok_def by blast
  have m: "b mod BPB < BPB" by simp
  show ?thesis
  proof (cases "bitmap_block s c = bitmap_block s b")
    case True
    then have "c div BPB = b div BPB" using bitmap_block_eq[OF ok c b] by simp
    then have "c mod BPB = b mod BPB \<longleftrightarrow> c = b" by (metis div_mult_mod_eq)
    then show ?thesis using True bm_set[OF len m] bm_clear[OF len m]
      by (auto simp: used_def mark_bit_def Let_def set_block_apply)
  next
    case False
    then show ?thesis by (auto simp: used_def mark_bit_def Let_def set_block_apply)
  qed
qed

lemma mark_bit_frame:
  "fs_sb (mark_bit v dev b s) = fs_sb s" "fs_outstanding (mark_bit v dev b s) = fs_outstanding s"
  "bitmap_block (mark_bit v dev b s) c = bitmap_block s c"
  "dev' \<noteq> dev \<or> n \<noteq> bitmap_block s b \<Longrightarrow> fs_blocks (mark_bit v dev b s) dev' n = fs_blocks s dev' n"
  "length (fs_blocks (mark_bit v dev b s) dev' n) = length (fs_blocks s dev' n)"
  by (auto simp: mark_bit_def Let_def set_block_apply)

lemma mark_bit_ok:
  assumes "bitmap_ok s dev" "b < bsize s" "v \<or> (\<forall>c < bsize s. unat (bitmap_block s c) \<noteq> b)"
  shows "bitmap_ok (mark_bit v dev b s) dev"
  using assms bitmap_block_less[OF assms(1)] mark_bit_used[OF assms(1,2)]
  by (auto simp: bitmap_ok_def mark_bit_frame)

text \<open>Zeroing a block that is not part of the bitmap.\<close>

lemma zero_block_used:
  assumes "bitmap_ok s dev" "\<forall>c < bsize s. bitmap_block s c \<noteq> n" "c < bsize s"
  shows "used (set_block dev n d s) dev c = used s dev c"
  using assms by (simp add: used_def set_block_apply)

lemma zero_block_ok:
  assumes "bitmap_ok s dev" "\<forall>c < bsize s. bitmap_block s c \<noteq> n"
  shows "bitmap_ok (set_block dev n d s) dev"
  using assms zero_block_used[OF assms] bitmap_block_less[OF assms(1)] by (simp add: bitmap_ok_def set_block_apply)

definition alloc_block :: "u32 \<Rightarrow> nat \<Rightarrow> 'a fsys_scheme \<Rightarrow> 'a fsys_scheme" where
  "alloc_block dev b s = set_block dev (of_nat b) (replicate BSIZE 0) (mark_bit True dev b s)"

lemma unat_block: "b < bsize s \<Longrightarrow> unat (of_nat b :: u32) = b"
  using unat_u32[of "sb_size (fs_sb s)"] by (simp add: unat_of_nat)

lemma alloc_block_ok:
  assumes ok: "bitmap_ok s dev" and b: "b < bsize s" "\<not> used s dev b"
  shows "bitmap_ok (alloc_block dev b s) dev" "c < bsize s \<Longrightarrow> used (alloc_block dev b s) dev c \<longleftrightarrow> c = b \<or> used s dev c"
proof -
  have "bitmap_block s c \<noteq> of_nat b" if "c < bsize s" for c
    using ok b that unat_block[OF b(1)] unfolding bitmap_ok_def by metis
  then have n: "\<forall>c < bsize (mark_bit True dev b s). bitmap_block (mark_bit True dev b s) c \<noteq> of_nat b"
    by (simp add: mark_bit_frame)
  have m: "bitmap_ok (mark_bit True dev b s) dev" by (rule mark_bit_ok[OF ok b(1)]) simp
  show "bitmap_ok (alloc_block dev b s) dev" unfolding alloc_block_def by (rule zero_block_ok[OF m n])
  show "used (alloc_block dev b s) dev c \<longleftrightarrow> c = b \<or> used s dev c" if "c < bsize s"
    unfolding alloc_block_def using zero_block_used[OF m n] mark_bit_used[OF ok b(1) that, of True] that
    by (simp add: mark_bit_frame)
qed

lemma balloc_loop_finds:
  assumes "bitmap_ok s dev" "1 \<le> fs_outstanding s" "BPB dvd b" "\<forall>c < b. c < bsize s \<longrightarrow> used s dev c"
  shows "(\<exists>m < bsize s. \<not> used s dev m \<and> (\<forall>c < m. used s dev c) \<and> balloc_loop dev b s = Inr (of_nat m, alloc_block dev m s)) \<or>
    (\<forall>c < bsize s. used s dev c) \<and> balloc_loop dev b s = Inl (Panic ''balloc: out of blocks'')"
  using assms(3,4)
proof (induction "bsize s - b" arbitrary: b rule: less_induct)
  case less
  show ?case
  proof (cases "b < bsize s")
    case False
    then have "balloc_loop dev b s = Inl (Panic ''balloc: out of blocks'')"
      by (subst balloc_loop.simps) (simp add: Let_def kmon_defs)
    then show ?thesis using less.prems(2) False by auto
  next
    case True
    let ?d = "fs_blocks s dev (bitmap_block s b)"
    have grp: "used s dev (b + j) = bm ?d j" if "j < BPB" "b + j < bsize s" for j
    proof -
      have "(b + j) div BPB = b div BPB" "(b + j) mod BPB = j" using less.prems(1) that(1) by (auto elim!: dvdE)
      then show ?thesis using bitmap_block_eq[OF assms(1) that(2) True] by (simp add: used_def)
    qed
    show ?thesis
    proof (cases "free_bit ?d b (bsize s) 0")
      case None
      then have "balloc_loop dev b s = balloc_loop dev (b + BPB) s"
        using True by (subst balloc_loop.simps) (simp add: Let_def bitmap_block_def)
      moreover have "used s dev c" if "c < b + BPB" "c < bsize s" for c
      proof (cases "c < b")
        case False
        then show ?thesis using grp[of "c - b"] free_bit_None[OF None, of "c - b"] that by simp
      qed (use less.prems(2) that in blast)
      moreover have "BPB dvd b + BPB" using less.prems(1) by simp
      ultimately show ?thesis using less.hyps[of "b + BPB"] True by simp
    next
      case (Some k)
      have k: "k < BPB" "b + k < bsize s" "\<not> bm ?d k" "\<forall>j < k. bm ?d j" using free_bit_Some[OF Some] by simp_all
      have m: "(b + k) mod BPB = k" "bitmap_block s (b + k) = bitmap_block s b"
        using less.prems(1) k(1) bitmap_block_eq[OF assms(1) k(2) True] by (auto elim!: dvdE)
      have "used s dev c" if "c < b + k" for c
      proof (cases "c < b")
        case False
        then show ?thesis using grp[of "c - b"] k that by simp
      qed (use less.prems(2) that k(2) in simp)
      moreover have "balloc_loop dev b s = Inr (of_nat (b + k), alloc_block dev (b + k) s)"
        using True Some assms(2)
        by (subst balloc_loop.simps)
          (simp add: Let_def bitmap_block_def[symmetric] kmon_defs fs_log_write_def bzero_def set_block_apply alloc_block_def
            mark_bit_def m)
      ultimately show ?thesis using k grp by blast
    qed
  qed
qed


lemma bfree_used:
  assumes "bitmap_ok s dev" "1 \<le> fs_outstanding s" "b < bsize s" "used s dev b"
  shows "bfree dev (of_nat b) s = Inr ((), mark_bit False dev b s)"
  using assms(2,4) unat_block[OF assms(3)]
  by (simp add: bfree_def Let_def used_def bm_def and_mask_0 bitmap_block_def[symmetric] fs_log_write_def mark_bit_def)

lemma bfree_free:
  assumes "b < bsize s" "\<not> used s dev b"
  shows "bfree dev (of_nat b) s = Inl (Panic ''freeing free block'')"
  using assms(2) unat_block[OF assms(1)]
  by (simp add: bfree_def Let_def used_def bm_def and_mask_0 bitmap_block_def[symmetric] kmon_defs)

text \<open>
  C9: inside a transaction and on a well-formed bitmap, \<^verbatim>\<open>balloc\<close> panics only when every block is in use. Otherwise it returns the first
  free block, zeroed and marked, changes no other block than that one and the block of the bitmap that holds its bit, and keeps the bitmap
  well-formed; \<^verbatim>\<open>bfree\<close> of this block restores the set of used blocks.
\<close>

theorem balloc_bfree:
  assumes "bitmap_ok s dev" "1 \<le> fs_outstanding s"
  shows "(\<forall>b < bsize s. used s dev b) \<and> balloc dev s = Inl (Panic ''balloc: out of blocks'') \<or>
    (\<exists>b s' s''. b < bsize s \<and> \<not> used s dev b \<and> (\<forall>c < b. used s dev c) \<and> balloc dev s = Inr (of_nat b, s') \<and> bitmap_ok s' dev \<and>
       fs_blocks s' dev (of_nat b) = replicate BSIZE 0 \<and> (\<forall>c < bsize s. used s' dev c \<longleftrightarrow> c = b \<or> used s dev c) \<and>
       (\<forall>n. n \<noteq> of_nat b \<and> n \<noteq> bitmap_block s b \<longrightarrow> fs_blocks s' dev n = fs_blocks s dev n) \<and>
       bfree dev (of_nat b) s' = Inr ((), s'') \<and> (\<forall>c < bsize s. used s'' dev c = used s dev c))"
proof (cases "\<forall>b < bsize s. used s dev b")
  case True
  then show ?thesis using balloc_loop_finds[OF assms, of 0] by (auto simp: balloc_def)
next
  case False
  then obtain b where b: "b < bsize s" "\<not> used s dev b" "\<forall>c < b. used s dev c" "balloc dev s = Inr (of_nat b, alloc_block dev b s)"
    using balloc_loop_finds[OF assms, of 0] by (auto simp: balloc_def)
  let ?s = "alloc_block dev b s"
  note ok = alloc_block_ok[OF assms(1) b(1,2)]
  have f: "fs_sb ?s = fs_sb s" "fs_outstanding ?s = fs_outstanding s" by (simp_all add: alloc_block_def set_block_apply mark_bit_frame)
  then have "bfree dev (of_nat b) ?s = Inr ((), mark_bit False dev b ?s)"
    using ok b(1) assms(2) by (intro bfree_used) simp_all
  moreover have "\<forall>c < bsize s. used (mark_bit False dev b ?s) dev c = used s dev c"
    using mark_bit_used[OF ok(1)] ok(2) b(1,2) f(1) by simp
  moreover have "fs_blocks ?s dev (of_nat b) = replicate BSIZE 0"
    "\<forall>n. n \<noteq> of_nat b \<and> n \<noteq> bitmap_block s b \<longrightarrow> fs_blocks ?s dev n = fs_blocks s dev n"
    by (simp_all add: alloc_block_def set_block_apply mark_bit_frame)
  ultimately show ?thesis using b ok by blast
qed

text \<open>A file system of four blocks whose bitmap is block 1.\<close>

definition ex_fs :: fsys where
  "ex_fs = \<lparr>km_mem = \<lambda>_. 0, km_freelist = 0, km_end = 0,
     fs_blocks = \<lambda>dev n. if n = 1 then 3 # replicate 1023 0 else replicate 1024 0,
     fs_sb = \<lparr>sb_magic = FSMAGIC, sb_size = 4, sb_nblocks = 2, sb_ninodes = 0, sb_nlog = 0, sb_logstart = 0, sb_inodestart = 0,
              sb_bmapstart = 1\<rparr>,
     fs_outstanding = 1, fs_itable = []\<rparr>"

lemma below_4: "b < 4 \<Longrightarrow> b = 0 \<or> b = 1 \<or> b = 2 \<or> b = (3 :: nat)"
  by auto

lemma ex_fs_used: "b < 4 \<Longrightarrow> used ex_fs 1 b \<longleftrightarrow> b < 2"
  by (drule below_4) (elim disjE; simp add: used_def bm_def ex_fs_def bitmap_block_def BBLOCK_def)

lemma ex_fs_ok: "bitmap_ok ex_fs 1"
proof -
  have "bitmap_block ex_fs b = 1" if "b < 4" for b
    using below_4[OF that] by (elim disjE; simp add: bitmap_block_def BBLOCK_def ex_fs_def)
  moreover have "bsize ex_fs = 4" "length (fs_blocks ex_fs 1 1) = BSIZE" "unat (sb_bmapstart (fs_sb ex_fs)) = 1"
    by (simp_all add: ex_fs_def)
  ultimately show ?thesis using ex_fs_used[of 1] by (simp add: bitmap_ok_def)
qed

theorem balloc_bfree_witness: "\<exists>s'. balloc 1 ex_fs = Inr (2, s') \<and> fs_blocks s' 1 2 = replicate BSIZE 0"
proof -
  have sz: "bsize ex_fs = 4" by (simp add: ex_fs_def)
  have "1 \<le> fs_outstanding ex_fs" by (simp add: ex_fs_def)
  from balloc_bfree[OF ex_fs_ok this]
  obtain b s' where b: "b < 4" "\<not> used ex_fs 1 b" "\<forall>c < b. used ex_fs 1 c" "balloc 1 ex_fs = Inr (of_nat b, s')"
    "fs_blocks s' 1 (of_nat b) = replicate BSIZE 0"
    using ex_fs_used[of 2] unfolding sz by auto
  have "b = 2"
  proof (rule ccontr)
    assume "b \<noteq> 2"
    then have "b = 3" using b(1,2) ex_fs_used[of b] by auto
    then show False using b(3) ex_fs_used[of 2] by auto
  qed
  then show ?thesis using b by auto
qed

end
