(* ===== verification/Contents.thy ===== *)
theory Contents
  imports Balloc
begin

text \<open>
  The contents of files. The block lists of an inode (\<open>bmap\<close>, \<open>src/kernel/fs.c\<close>) are described by the
  block at each of the 269 places; \<open>inode_ok\<close> says that these blocks are distinct, marked used in the
  bitmap and apart from the metadata. \<open>bmap\<close> keeps this when it allocates, and on top of it \<open>writei\<close> and
  \<open>readi\<close> implement writing and reading a byte string: what is written is read back, the rest of the
  file is unchanged.
\<close>


subsection \<open>The blocks of an inode\<close>

text \<open>
  The 269 places at which an inode refers to blocks: twelve data blocks, the indirect block, and the 256
  data blocks that the indirect block lists. A place without a block holds 0.
\<close>

abbreviation inode_of :: "'a fsys_scheme \<Rightarrow> nat \<Rightarrow> inode" where
  "inode_of s ip \<equiv> fs_itable s ! ip"

definition blk :: "'a fsys_scheme \<Rightarrow> nat \<Rightarrow> nat \<Rightarrow> u32" where
  "blk s ip k =
     (let x = inode_of s ip
      in if k \<le> NDIRECT then i_addrs x ! k
         else if i_addrs x ! NDIRECT = 0 then 0
         else of_nat (get 4 (fs_blocks s (i_dev x) (i_addrs x ! NDIRECT)) (4 * (k - 13))))"

definition place :: "nat \<Rightarrow> nat" where
  "place bn = (if bn < NDIRECT then bn else Suc bn)"

abbreviation iblock :: "'a fsys_scheme \<Rightarrow> nat \<Rightarrow> u32" where
  "iblock s ip \<equiv> IBLOCK (i_inum (inode_of s ip)) (fs_sb s)"

text \<open>A block that belongs to the file or may be given to it: used, of full size, and not part of the metadata.\<close>

definition data_block :: "'a fsys_scheme \<Rightarrow> nat \<Rightarrow> u32 \<Rightarrow> bool" where
  "data_block s ip n \<longleftrightarrow> unat n < bsize s \<and> used s (i_dev (inode_of s ip)) (unat n) \<and>
     length (fs_blocks s (i_dev (inode_of s ip)) n) = BSIZE \<and> n \<notin> bitmap_block s ` {..<bsize s} \<and> n \<noteq> iblock s ip"

definition inode_ok :: "'a fsys_scheme \<Rightarrow> nat \<Rightarrow> bool" where
  "inode_ok s ip \<longleftrightarrow> ip < length (fs_itable s) \<and> length (i_addrs (inode_of s ip)) = 13 \<and>
     bitmap_ok s (i_dev (inode_of s ip)) \<and> 0 < bsize s \<and> used s (i_dev (inode_of s ip)) 0 \<and>
     unat (iblock s ip) < bsize s \<and> used s (i_dev (inode_of s ip)) (unat (iblock s ip)) \<and>
     iblock s ip \<notin> bitmap_block s ` {..<bsize s} \<and>
     (\<forall>k < 269. blk s ip k \<noteq> 0 \<longrightarrow> data_block s ip (blk s ip k)) \<and>
     (\<forall>k < 269. \<forall>l < 269. blk s ip k = blk s ip l \<and> blk s ip k \<noteq> 0 \<longrightarrow> k = l)"

text \<open>The byte of the file at a position, if there is a block for it.\<close>

definition fbyte :: "'a fsys_scheme \<Rightarrow> nat \<Rightarrow> nat \<Rightarrow> u8 option" where
  "fbyte s ip x =
     (let n = blk s ip (place (x div BSIZE))
      in if n = 0 then None else Some (fs_blocks s (i_dev (inode_of s ip)) n ! (x mod BSIZE)))"

lemma place_inj: "place a = place b \<longleftrightarrow> a = b"
  by (auto simp: place_def)

lemma place_bound: "bn < MAXFILE \<Longrightarrow> place bn < 269 \<and> place bn \<noteq> NDIRECT"
  by (auto simp: place_def)

text \<open>
  A change of blocks that leaves the blocks of the file, the bitmap and the inode block alone.
\<close>

lemma inode_ok_frame:
  assumes ok: "inode_ok s ip" and it: "fs_itable s' = fs_itable s" "fs_sb s' = fs_sb s"
    and bm: "bitmap_ok s' (i_dev (inode_of s ip))"
    and us: "\<And>c. c < bsize s \<Longrightarrow> used s (i_dev (inode_of s ip)) c \<Longrightarrow> used s' (i_dev (inode_of s ip)) c"
    and ind: "blk s ip NDIRECT \<noteq> 0 \<Longrightarrow> fs_blocks s' (i_dev (inode_of s ip)) (blk s ip NDIRECT) = fs_blocks s (i_dev (inode_of s ip)) (blk s ip NDIRECT)"
    and len: "\<And>k. k < 269 \<Longrightarrow> blk s ip k \<noteq> 0 \<Longrightarrow>
      length (fs_blocks s' (i_dev (inode_of s ip)) (blk s ip k)) = length (fs_blocks s (i_dev (inode_of s ip)) (blk s ip k))"
  shows "inode_ok s' ip" "\<And>k. k < 269 \<Longrightarrow> blk s' ip k = blk s ip k"
proof -
  have b: "blk s' ip k = blk s ip k" if "k < 269" for k
    using ind by (auto simp: blk_def Let_def it)
  then show "\<And>k. k < 269 \<Longrightarrow> blk s' ip k = blk s ip k" .
  have bb: "bitmap_block s' c = bitmap_block s c" for c by (simp add: bitmap_block_def it)
  have "data_block s' ip (blk s ip k)" if "k < 269" "blk s ip k \<noteq> 0" for k
  proof -
    have "data_block s ip (blk s ip k)" using ok that unfolding inode_ok_def by blast
    then show ?thesis using len[OF that] us unfolding data_block_def by (simp add: it bb)
  qed
  then show "inode_ok s' ip" using ok bm us b unfolding inode_ok_def it bb by simp blast
qed

subsection \<open>Giving a block to a file\<close>

definition fresh :: "'a fsys_scheme \<Rightarrow> nat \<Rightarrow> u32 \<Rightarrow> bool" where
  "fresh s ip n \<longleftrightarrow> n \<noteq> 0 \<and> data_block s ip n \<and> (\<forall>k < 269. blk s ip k \<noteq> n) \<and>
     fs_blocks s (i_dev (inode_of s ip)) n = replicate BSIZE 0"

lemma inode_okD:
  assumes "inode_ok s ip"
  shows "ip < length (fs_itable s)" "length (i_addrs (inode_of s ip)) = 13" "bitmap_ok s (i_dev (inode_of s ip))"
    "used s (i_dev (inode_of s ip)) 0" "unat (iblock s ip) < bsize s" "used s (i_dev (inode_of s ip)) (unat (iblock s ip))"
    "iblock s ip \<notin> bitmap_block s ` {..<bsize s}"
    "\<And>k. k < 269 \<Longrightarrow> blk s ip k \<noteq> 0 \<Longrightarrow> data_block s ip (blk s ip k)"
    "\<And>k l. k < 269 \<Longrightarrow> l < 269 \<Longrightarrow> blk s ip k = blk s ip l \<Longrightarrow> blk s ip k \<noteq> 0 \<Longrightarrow> k = l"
  using assms unfolding inode_ok_def by blast+

lemma alloc_inode_ok:
  assumes ok: "inode_ok s ip" and m: "m < bsize s" "\<not> used s (i_dev (inode_of s ip)) m"
  defines "s' \<equiv> alloc_block (i_dev (inode_of s ip)) m s"
  shows "inode_ok s' ip" "\<And>k. k < 269 \<Longrightarrow> blk s' ip k = blk s ip k" "fresh s' ip (of_nat m)"
    "\<And>k. k < 269 \<Longrightarrow> blk s ip k \<noteq> 0 \<Longrightarrow> fs_blocks s' (i_dev (inode_of s ip)) (blk s ip k) = fs_blocks s (i_dev (inode_of s ip)) (blk s ip k)"
proof -
  let ?dev = "i_dev (inode_of s ip)"
  have f: "fs_itable s' = fs_itable s" "fs_sb s' = fs_sb s"
    by (simp_all add: s'_def alloc_block_def mark_bit_def set_block_def Let_def)
  have um: "unat (of_nat m :: u32) = m" by (rule unat_block[OF m(1)])
  note A = alloc_block_ok[OF inode_okD(3)[OF ok] m, folded s'_def]
  have bl: "fs_blocks s' ?dev n = fs_blocks s ?dev n" if "n \<noteq> of_nat m" "n \<noteq> bitmap_block s m" for n
    using that by (simp add: s'_def alloc_block_def set_block_apply mark_bit_frame)
  show keep: "fs_blocks s' ?dev (blk s ip k) = fs_blocks s ?dev (blk s ip k)" if "k < 269" "blk s ip k \<noteq> 0" for k
  proof (rule bl)
    note D = inode_okD(8)[OF ok that, unfolded data_block_def]
    show "blk s ip k \<noteq> of_nat m" using D m(2) um by auto
    show "blk s ip k \<noteq> bitmap_block s m" using D m(1) by auto
  qed
  have us: "used s' ?dev c" if "c < bsize s" "used s ?dev c" for c using A(2)[OF that(1)] that(2) by simp
  have F: "inode_ok s' ip" "\<And>k. k < 269 \<Longrightarrow> blk s' ip k = blk s ip k"
    by (rule inode_ok_frame[OF ok f A(1) us]; simp add: keep)+
  then show "inode_ok s' ip" "\<And>k. k < 269 \<Longrightarrow> blk s' ip k = blk s ip k" by blast+
  have nb: "of_nat m \<notin> bitmap_block s ` {..<bsize s}"
  proof
    assume "of_nat m \<in> bitmap_block s ` {..<bsize s}"
    then have "used s ?dev (unat (of_nat m :: u32))" using inode_okD(3)[OF ok] unfolding bitmap_ok_def by auto
    then show False using m(2) um by simp
  qed
  have z: "fs_blocks s' ?dev (of_nat m) = replicate BSIZE 0" by (simp add: s'_def alloc_block_def set_block_apply)
  have bb: "bitmap_block s' c = bitmap_block s c" for c by (simp add: bitmap_block_def f)
  have "of_nat m \<noteq> iblock s ip" using inode_okD(6)[OF ok] m(2) um by metis
  then have "data_block s' ip (of_nat m)"
    using nb m(1) A(2)[OF m(1)] by (simp add: data_block_def f bb z um)
  moreover have "of_nat m \<noteq> (0 :: u32)" using inode_okD(4)[OF ok] m(2) um by (metis unat_0)
  moreover have "blk s ip k \<noteq> of_nat m" if "k < 269" for k
    using inode_okD(8)[OF ok that] m(2) um calculation(2) by (auto simp: data_block_def)
  ultimately show "fresh s' ip (of_nat m)"
    using F(2) z by (simp add: fresh_def f)
qed

definition set_addr :: "nat \<Rightarrow> nat \<Rightarrow> u32 \<Rightarrow> 'a fsys_scheme \<Rightarrow> 'a fsys_scheme" where
  "set_addr ip k n s = s\<lparr>fs_itable := (fs_itable s)[ip := (inode_of s ip)\<lparr>i_addrs := (i_addrs (inode_of s ip))[k := n]\<rparr>]\<rparr>"

lemma set_addr_fields:
  "fs_blocks (set_addr ip k n s) = fs_blocks s" "fs_sb (set_addr ip k n s) = fs_sb s" "length (fs_itable (set_addr ip k n s)) = length (fs_itable s)"
  "bitmap_block (set_addr ip k n s) c = bitmap_block s c" "used (set_addr ip k n s) dev c = used s dev c"
  "bitmap_ok (set_addr ip k n s) dev = bitmap_ok s dev" "fs_outstanding (set_addr ip k n s) = fs_outstanding s"
  "ip < length (fs_itable s) \<Longrightarrow> inode_of (set_addr ip k n s) ip = (inode_of s ip)\<lparr>i_addrs := (i_addrs (inode_of s ip))[k := n]\<rparr>"
  by (simp_all add: set_addr_def used_def bitmap_ok_def bitmap_block_def)

text \<open>Filling an empty place of the block map with a fresh block.\<close>

lemma assign_inode_ok:
  assumes ok: "inode_ok s ip" and fr: "fresh s ip n"
    and it: "length (fs_itable s') = length (fs_itable s)" "fs_sb s' = fs_sb s" "i_dev (inode_of s' ip) = i_dev (inode_of s ip)"
      "i_inum (inode_of s' ip) = i_inum (inode_of s ip)" "length (i_addrs (inode_of s' ip)) = 13"
    and bm: "bitmap_ok s' (i_dev (inode_of s ip))" "\<And>c. c < bsize s \<Longrightarrow> used s' (i_dev (inode_of s ip)) c = used s (i_dev (inode_of s ip)) c"
    and len: "\<And>m. length (fs_blocks s' (i_dev (inode_of s ip)) m) = length (fs_blocks s (i_dev (inode_of s ip)) m)"
    and bl: "\<And>l. l < 269 \<Longrightarrow> blk s' ip l = (if l = k then n else blk s ip l)"
  shows "inode_ok s' ip"
proof -
  have bb: "bitmap_block s' c = bitmap_block s c" for c by (simp add: bitmap_block_def it)
  have d: "data_block s' ip m = data_block s ip m" for m
    by (cases "unat m < bsize s") (simp_all add: data_block_def it bm(2) len bb)
  note D = inode_okD[OF ok]
  have b1: "\<forall>l < 269. blk s' ip l \<noteq> 0 \<longrightarrow> data_block s ip (blk s' ip l)"
  proof (intro allI impI)
    fix l
    assume l: "l < (269 :: nat)" "blk s' ip l \<noteq> 0"
    show "data_block s ip (blk s' ip l)"
    proof (cases "l = k")
      case True
      then show ?thesis using bl[OF l(1)] fr by (simp add: fresh_def)
    next
      case False
      then show ?thesis using bl[OF l(1)] D(8)[OF l(1)] l(2) by simp
    qed
  qed
  have b2: "\<forall>l < 269. \<forall>j < 269. blk s' ip l = blk s' ip j \<and> blk s' ip l \<noteq> 0 \<longrightarrow> l = j"
  proof (intro allI impI, elim conjE)
    fix l j
    assume l: "l < (269 :: nat)" "j < (269 :: nat)" "blk s' ip l = blk s' ip j" "blk s' ip l \<noteq> 0"
    have "blk s ip i \<noteq> n" if "i < 269" for i using fr that unfolding fresh_def by blast
    then show "l = j" using bl[OF l(1)] bl[OF l(2)] D(9)[OF l(1,2)] l by (metis (full_types))
  qed
  have "used s' (i_dev (inode_of s ip)) 0" "used s' (i_dev (inode_of s ip)) (unat (iblock s ip))"
    using D(4-6) bm(2) by (simp, simp)
  then show ?thesis using D(1,3,5,7) it bm(1) b1 b2 ok unfolding inode_ok_def bb d it by simp
qed

lemma set_addr_ok:
  assumes ok: "inode_ok s ip" and fr: "fresh s ip n" and k: "k \<le> NDIRECT" "blk s ip k = 0"
  shows "inode_ok (set_addr ip k n s) ip" "\<And>l. l < 269 \<Longrightarrow> blk (set_addr ip k n s) ip l = (if l = k then n else blk s ip l)"
proof -
  let ?s = "set_addr ip k n s"
  note D = inode_okD[OF ok]
  have z: "get 4 (replicate BSIZE 0) off = 0" for off by simp
  have e: "blk ?s ip l = (if l = k then n else blk s ip l)" if "l < 269" for l
  proof (cases "l \<le> NDIRECT")
    case True
    then show ?thesis using D(2) k(1) by (simp add: blk_def Let_def set_addr_fields D(1) nth_list_update)
  next
    case False
    have "i_addrs (inode_of s ip) ! k = 0" using k by (simp add: blk_def Let_def)
    then show ?thesis using False D(2) k(1) fr
      by (cases "k = NDIRECT") (simp_all add: blk_def Let_def set_addr_fields D(1) fresh_def)
  qed
  then show "\<And>l. l < 269 \<Longrightarrow> blk ?s ip l = (if l = k then n else blk s ip l)" .
  show "inode_ok ?s ip"
    by (rule assign_inode_ok[OF ok fr _ _ _ _ _ _ _ _ e]) (use D(1-3) in \<open>simp_all add: set_addr_fields\<close>)
qed

lemma set_entry_ok:
  assumes ok: "inode_ok s ip" and fr: "fresh s ip n" and k: "NDIRECT < k" "k < 269" "blk s ip k = 0" and ind: "blk s ip NDIRECT \<noteq> 0"
  defines "dev \<equiv> i_dev (inode_of s ip)"
  defines "s' \<equiv> set_block dev (blk s ip NDIRECT) (put 4 (fs_blocks s dev (blk s ip NDIRECT)) (4 * (k - 13)) (unat n)) s"
  shows "inode_ok s' ip" "\<And>l. l < 269 \<Longrightarrow> blk s' ip l = (if l = k then n else blk s ip l)"
proof -
  let ?i = "blk s ip NDIRECT" and ?a = "fs_blocks s dev (blk s ip NDIRECT)"
  note D = inode_okD[OF ok]
  have "data_block s ip ?i" by (rule D(8)) (use ind in simp_all)
  then have db: "length ?a = BSIZE" "\<forall>c < bsize s. bitmap_block s c \<noteq> ?i"
    unfolding data_block_def dev_def by (blast, metis image_eqI lessThan_iff)
  have f: "fs_itable s' = fs_itable s" "fs_sb s' = fs_sb s" by (simp_all add: s'_def set_block_def)
  have room: "4 * (l - 13) + 4 \<le> BSIZE" if "l < 269" for l using that by simp
  have i: "i_addrs (inode_of s ip) ! NDIRECT = ?i" by (simp add: blk_def Let_def)
  have e: "blk s' ip l = (if l = k then n else blk s ip l)" if l: "l < 269" for l
  proof (cases "l \<le> NDIRECT")
    case True
    then show ?thesis using k(1) by (simp add: blk_def Let_def f)
  next
    case False
    have "get 4 (put 4 ?a (4 * (k - 13)) (unat n)) (4 * (l - 13)) = (if l = k then unat n else get 4 ?a (4 * (l - 13)))"
    proof (cases "l = k")
      case True
      then show ?thesis using get_put_same[of "4 * (k - 13)" 4 ?a "unat n"] room[OF k(2)] db(1) unat_u32[of n] by simp
    next
      case ne: False
      then have "4 * (l - 13) + 4 \<le> 4 * (k - 13) \<or> 4 * (k - 13) + 4 \<le> 4 * (l - 13)" using False k(1) by linarith
      then show ?thesis using get_put_other[of "4 * (k - 13)" 4 ?a "4 * (l - 13)" 4 "unat n"] room[OF k(2)] db(1) ne by simp
    qed
    moreover have "fs_blocks s' dev ?i = put 4 ?a (4 * (k - 13)) (unat n)" by (simp add: s'_def set_block_apply)
    ultimately show ?thesis using False ind i
      by (simp add: blk_def[of s' ip l] blk_def[of s ip l] Let_def f dev_def)
  qed
  then show "\<And>l. l < 269 \<Longrightarrow> blk s' ip l = (if l = k then n else blk s ip l)" .
  have bm: "bitmap_ok s' dev" "\<And>c. c < bsize s \<Longrightarrow> used s' dev c = used s dev c"
    unfolding s'_def by (rule zero_block_ok zero_block_used; use D(3) db(2) in \<open>simp add: dev_def\<close>)+
  have len: "length (fs_blocks s' dev m) = length (fs_blocks s dev m)" for m
    using room[OF k(2)] db(1) by (simp add: s'_def set_block_apply)
  show "inode_ok s' ip"
    by (rule assign_inode_ok[OF ok fr _ _ _ _ _ _ _ _ e]) (use D(1,2) bm len in \<open>simp_all add: f dev_def\<close>)
qed

text \<open>What the block map keeps when a block is added.\<close>

definition grows :: "'a fsys_scheme \<Rightarrow> 'a fsys_scheme \<Rightarrow> nat \<Rightarrow> bool" where
  "grows s s' ip \<longleftrightarrow> fs_sb s' = fs_sb s \<and> fs_outstanding s' = fs_outstanding s \<and>
     inode_of s' ip = (inode_of s ip)\<lparr>i_addrs := i_addrs (inode_of s' ip)\<rparr> \<and>
     (\<forall>k < 269. blk s ip k \<noteq> 0 \<longrightarrow> blk s' ip k = blk s ip k \<and>
        (k \<noteq> NDIRECT \<longrightarrow> fs_blocks s' (i_dev (inode_of s ip)) (blk s ip k) = fs_blocks s (i_dev (inode_of s ip)) (blk s ip k)))"

lemma grows_refl: "grows s s ip"
  by (simp add: grows_def)

lemma grows_dev: "grows s s' ip \<Longrightarrow> i_dev (inode_of s' ip) = i_dev (inode_of s ip)"
  unfolding grows_def by (metis inode.select_convs(1) inode.surjective inode.update_convs(11))

lemma grows_trans:
  assumes "grows s t ip" "grows t u ip"
  shows "grows s u ip"
proof -
  have "inode_of u ip = (inode_of s ip)\<lparr>i_addrs := i_addrs (inode_of u ip)\<rparr>"
  proof -
    have "inode_of t ip = (inode_of s ip)\<lparr>i_addrs := i_addrs (inode_of t ip)\<rparr>"
      "inode_of u ip = (inode_of t ip)\<lparr>i_addrs := i_addrs (inode_of u ip)\<rparr>" using assms unfolding grows_def by blast+
    then show ?thesis by (metis inode.surjective inode.update_convs(11))
  qed
  then show ?thesis using assms grows_dev[OF assms(1)] unfolding grows_def by auto
qed

lemma alloc_grows:
  assumes "inode_ok s ip" "m < bsize s" "\<not> used s (i_dev (inode_of s ip)) m"
  shows "grows s (alloc_block (i_dev (inode_of s ip)) m s) ip"
  using alloc_inode_ok(2,4)[OF assms]
  by (simp add: grows_def alloc_block_def mark_bit_def set_block_def Let_def)

lemma set_addr_grows:
  assumes "inode_ok s ip" "fresh s ip n" "k \<le> NDIRECT" "blk s ip k = 0"
  shows "grows s (set_addr ip k n s) ip"
  using set_addr_ok(2)[OF assms] assms(4) inode_okD(1)[OF assms(1)] by (auto simp: grows_def set_addr_fields)

lemma set_entry_grows:
  assumes ok: "inode_ok s ip" and fr: "fresh s ip n" and k: "NDIRECT < k" "k < 269" "blk s ip k = 0" and ind: "blk s ip NDIRECT \<noteq> 0"
  shows "grows s (set_block (i_dev (inode_of s ip)) (blk s ip NDIRECT)
    (put 4 (fs_blocks s (i_dev (inode_of s ip)) (blk s ip NDIRECT)) (4 * (k - 13)) (unat n)) s) ip"
  using set_entry_ok(2)[OF assms] k(3) inode_okD(9)[OF ok, of _ NDIRECT] ind
  by (auto simp: grows_def set_block_apply) (simp_all add: set_block_def)

subsection \<open>bmap\<close>

abbreviation (input) oob :: "kerr + 'b" where
  "oob \<equiv> Inl (Panic ''balloc: out of blocks'')"

lemma balloc_inode:
  assumes "inode_ok s ip" "1 \<le> fs_outstanding s"
  shows "balloc (i_dev (inode_of s ip)) s = oob \<or>
    (\<exists>n s'. balloc (i_dev (inode_of s ip)) s = Inr (n, s') \<and> inode_ok s' ip \<and> fresh s' ip n \<and> grows s s' ip \<and>
       (\<forall>k < 269. blk s' ip k = blk s ip k))"
  using balloc_loop_finds[OF inode_okD(3)[OF assms(1)] assms(2), of 0] alloc_inode_ok[OF assms(1)] alloc_grows[OF assms(1)]
  unfolding balloc_def by (metis dvd_0_right not_less0)

lemma bmap_direct_ok:
  assumes ok: "inode_ok s ip" and o: "1 \<le> fs_outstanding s" and k: "k \<le> NDIRECT"
  shows "bmap_direct ip k s = oob \<or>
    (\<exists>n s'. bmap_direct ip k s = Inr (n, s') \<and> inode_ok s' ip \<and> grows s s' ip \<and> blk s' ip k = n \<and> n \<noteq> 0)"
proof (cases "blk s ip k = 0")
  case False
  then have "bmap_direct ip k s = Inr (blk s ip k, s)"
    using k by (simp add: bmap_direct_def get_inode_def kmon_defs blk_def Let_def)
  then show ?thesis using ok False grows_refl by blast
next
  case True
  then have z: "i_addrs (inode_of s ip) ! k = 0" using k by (simp add: blk_def Let_def)
  consider "balloc (i_dev (inode_of s ip)) s = oob"
    | n s1 where "balloc (i_dev (inode_of s ip)) s = Inr (n, s1)" "inode_ok s1 ip" "fresh s1 ip n" "grows s s1 ip"
        "\<forall>k < 269. blk s1 ip k = blk s ip k"
    using balloc_inode[OF ok o] by blast
  then show ?thesis
  proof cases
    case 1
    then show ?thesis using z by (simp add: bmap_direct_def get_inode_def kmon_defs)
  next
    case (2 n s1)
    have k0: "blk s1 ip k = 0" using 2(5) True k by simp
    note A = set_addr_ok[OF 2(2,3) k k0] set_addr_grows[OF 2(2,3) k k0]
    have "bmap_direct ip k s = Inr (n, set_addr ip k n s1)"
      using z 2(1) by (simp add: bmap_direct_def get_inode_def kmon_defs upd_inode_def set_addr_def)
    moreover have "n \<noteq> 0" using 2(3) by (simp add: fresh_def)
    moreover have "blk (set_addr ip k n s1) ip k = n" using A(2)[of k] k by simp
    ultimately show ?thesis using A(1,3) grows_trans[OF 2(4)] by blast
  qed
qed

lemma bmap_ok:
  assumes ok: "inode_ok s ip" and o: "1 \<le> fs_outstanding s" and bn: "bn < MAXFILE"
  shows "bmap ip bn s = oob \<or>
    (\<exists>n s'. bmap ip bn s = Inr (n, s') \<and> inode_ok s' ip \<and> grows s s' ip \<and> blk s' ip (place bn) = n \<and> n \<noteq> 0)"
proof (cases "bn < NDIRECT")
  case True
  then show ?thesis using bmap_direct_ok[OF ok o, of bn] by (simp add: bmap_def place_def)
next
  case big: False
  have r: "bn - NDIRECT < NINDIRECT" "NDIRECT < place bn" "place bn < 269" "4 * (place bn - 13) = 4 * (bn - NDIRECT)"
    using bn big by (auto simp: place_def)
  consider "bmap_direct ip NDIRECT s = oob"
    | i s1 where "bmap_direct ip NDIRECT s = Inr (i, s1)" "inode_ok s1 ip" "grows s s1 ip" "blk s1 ip NDIRECT = i" "i \<noteq> 0"
    using bmap_direct_ok[OF ok o, of NDIRECT] by blast
  then show ?thesis
  proof cases
    case 1
    then show ?thesis using big r by (simp add: bmap_def kmon_defs)
  next
    case (2 i s1)
    let ?dev = "i_dev (inode_of s1 ip)"
    have i12: "i_addrs (inode_of s1 ip) ! NDIRECT = i" using 2(4) by (simp add: blk_def Let_def)
    have e: "blk s1 ip (place bn) = of_nat (get 4 (fs_blocks s1 ?dev i) (4 * (bn - NDIRECT)))"
      using r i12 2(5) by (simp add: blk_def Let_def)
    show ?thesis
    proof (cases "blk s1 ip (place bn) = 0")
      case False
      then have "bmap ip bn s = Inr (blk s1 ip (place bn), s1)"
        using 2(1) big r e by (simp add: bmap_def kmon_defs get_inode_def fs_bread_def Let_def)
      then show ?thesis using 2(2,3) False by blast
    next
      case True
      have run: "bmap ip bn s = kbind (balloc ?dev) (\<lambda>addr. kbind (fs_bread ?dev i) (\<lambda>a.
          kseq (fs_log_write ?dev i (put 4 a (4 * (bn - NDIRECT)) (unat addr))) (kret addr))) s1"
        using 2(1) big r e True by (simp add: bmap_def kmon_defs get_inode_def fs_bread_def Let_def)
      have o1: "1 \<le> fs_outstanding s1" using 2(3) o unfolding grows_def by simp
      consider "balloc ?dev s1 = oob"
        | n s2 where "balloc ?dev s1 = Inr (n, s2)" "inode_ok s2 ip" "fresh s2 ip n" "grows s1 s2 ip" "\<forall>k < 269. blk s2 ip k = blk s1 ip k"
        using balloc_inode[OF 2(2) o1] by blast
      then show ?thesis
      proof cases
        case 1
        then show ?thesis unfolding run by (simp add: kmon_defs)
      next
        case a: (2 n s2)
        have b: "blk s2 ip (place bn) = 0" "blk s2 ip NDIRECT = i" using a(5) True r 2(4) by simp_all
        note dv = grows_dev[OF a(4)]
        let ?s3 = "set_block ?dev i (put 4 (fs_blocks s2 ?dev i) (4 * (bn - NDIRECT)) (unat n)) s2"
        have "\<not> fs_outstanding s2 < 1" using a(4) o1 unfolding grows_def by simp
        then have "bmap ip bn s = Inr (n, ?s3)" unfolding run using a(1) by (simp add: kmon_defs fs_bread_def fs_log_write_def)
        moreover have "blk s2 ip NDIRECT \<noteq> 0" using b 2(5) by simp
        note E = set_entry_ok[OF a(2,3) r(2,3) b(1) this] set_entry_grows[OF a(2,3) r(2,3) b(1) this]
        have "inode_ok ?s3 ip" "blk ?s3 ip (place bn) = n" "grows s2 ?s3 ip" using E r(3,4) b(2) dv by simp_all
        moreover have "n \<noteq> 0" using a(3) by (simp add: fresh_def)
        ultimately show ?thesis using grows_trans[OF grows_trans[OF 2(3) a(4)]] by blast
      qed
    qed
  qed
qed

text \<open>Where there is a block, \<^verbatim>\<open>bmap\<close> only looks it up.\<close>

lemma bmap_lookup:
  assumes "inode_ok s ip" "bn < MAXFILE" "blk s ip (place bn) \<noteq> 0"
  shows "bmap ip bn s = Inr (blk s ip (place bn), s)"
proof (cases "bn < NDIRECT")
  case True
  then show ?thesis using assms(3) by (simp add: bmap_def bmap_direct_def get_inode_def kmon_defs blk_def Let_def place_def)
next
  case False
  then have i: "i_addrs (inode_of s ip) ! NDIRECT \<noteq> 0" using assms(3) by (auto simp: blk_def Let_def place_def split: if_splits)
  then show ?thesis using False assms(2,3)
    by (simp add: bmap_def bmap_direct_def get_inode_def kmon_defs blk_def Let_def place_def fs_bread_def)
qed

subsection \<open>Writing and reading\<close>

abbreviation (input) MAXBYTES :: nat where "MAXBYTES \<equiv> MAXFILE * BSIZE"

lemma block_of_pos: "x < MAXBYTES \<Longrightarrow> x div BSIZE < MAXFILE"
  by (simp add: div_less_iff_less_mult)

lemma grows_fbyte:
  assumes "grows s s' ip" "fbyte s ip x = Some v" "x < MAXBYTES"
  shows "fbyte s' ip x = Some v"
proof -
  let ?k = "place (x div BSIZE)"
  have k: "?k < 269" "?k \<noteq> NDIRECT" using place_bound[OF block_of_pos[OF assms(3)]] by simp_all
  have "blk s ip ?k \<noteq> 0" using assms(2) by (auto simp: fbyte_def Let_def split: if_splits)
  then have "blk s' ip ?k = blk s ip ?k"
    "fs_blocks s' (i_dev (inode_of s ip)) (blk s ip ?k) = fs_blocks s (i_dev (inode_of s ip)) (blk s ip ?k)"
    using assms(1) k unfolding grows_def by blast+
  then show ?thesis using assms(2) grows_dev[OF assms(1)] by (simp add: fbyte_def Let_def split: if_splits)
qed

text \<open>Storing into a data block of the file.\<close>

lemma store_block_ok:
  assumes ok: "inode_ok s ip" and bn: "bn < MAXFILE" and n: "blk s ip (place bn) = n" "n \<noteq> 0" and d: "length d = BSIZE"
  defines "s' \<equiv> set_block (i_dev (inode_of s ip)) n d s"
  shows "inode_ok s' ip" "x < MAXBYTES \<Longrightarrow> fbyte s' ip x = (if x div BSIZE = bn then Some (d ! (x mod BSIZE)) else fbyte s ip x)"
    "\<And>k. k < 269 \<Longrightarrow> blk s' ip k = blk s ip k"
proof -
  let ?dev = "i_dev (inode_of s ip)"
  note pb = place_bound[OF bn]
  have db: "data_block s ip n" using inode_okD(8)[OF ok, of "place bn"] n pb by simp
  then have nb: "\<forall>c < bsize s. bitmap_block s c \<noteq> n" by (force simp: data_block_def)
  have f: "fs_itable s' = fs_itable s" "fs_sb s' = fs_sb s" by (simp_all add: s'_def set_block_def)
  have bm: "bitmap_ok s' ?dev" unfolding s'_def by (rule zero_block_ok[OF inode_okD(3)[OF ok] nb])
  have us: "used s' ?dev c" if "c < bsize s" "used s ?dev c" for c
    using zero_block_used[OF inode_okD(3)[OF ok] nb that(1)] that(2) by (simp add: s'_def)
  have ne: "blk s ip k \<noteq> n" if "k < 269" "k \<noteq> place bn" for k
    using inode_okD(9)[OF ok that(1), of "place bn"] pb n that(2) by auto
  have i12: "fs_blocks s' ?dev (blk s ip NDIRECT) = fs_blocks s ?dev (blk s ip NDIRECT)"
    using ne[of NDIRECT] pb by (auto simp: s'_def set_block_apply)
  have len: "length (fs_blocks s' ?dev (blk s ip k)) = length (fs_blocks s ?dev (blk s ip k))" for k
    using d db by (auto simp: s'_def set_block_apply data_block_def)
  have F: "inode_ok s' ip" "\<And>k. k < 269 \<Longrightarrow> blk s' ip k = blk s ip k"
    by (rule inode_ok_frame[OF ok f bm us]; simp add: i12 len)+
  then show "inode_ok s' ip" "\<And>k. k < 269 \<Longrightarrow> blk s' ip k = blk s ip k" by blast+
  show "fbyte s' ip x = (if x div BSIZE = bn then Some (d ! (x mod BSIZE)) else fbyte s ip x)" if x: "x < MAXBYTES"
  proof -
    note p = place_bound[OF block_of_pos[OF x]]
    have b: "blk s' ip (place (x div BSIZE)) = blk s ip (place (x div BSIZE))" using F(2) p by blast
    show ?thesis
    proof (cases "x div BSIZE = bn")
      case True
      then show ?thesis using b n by (simp add: fbyte_def Let_def f) (simp add: s'_def set_block_apply)
    next
      case False
      then have "blk s ip (place (x div BSIZE)) \<noteq> n" using ne p by (simp add: place_inj)
      then show ?thesis using False b by (simp add: fbyte_def Let_def f) (simp add: s'_def set_block_apply)
    qed
  qed
qed

text \<open>What \<^verbatim>\<open>writei\<close> keeps of the inode and the file system besides the block map.\<close>

definition kept :: "'a fsys_scheme \<Rightarrow> 'a fsys_scheme \<Rightarrow> nat \<Rightarrow> bool" where
  "kept s s' ip \<longleftrightarrow> fs_sb s' = fs_sb s \<and> fs_outstanding s' = fs_outstanding s \<and>
     i_dev (inode_of s' ip) = i_dev (inode_of s ip) \<and> i_inum (inode_of s' ip) = i_inum (inode_of s ip) \<and>
     i_size (inode_of s' ip) = i_size (inode_of s ip) \<and> i_type (inode_of s' ip) = i_type (inode_of s ip)"

lemma grows_kept: "grows s s' ip \<Longrightarrow> kept s s' ip"
  unfolding grows_def kept_def by (metis inode.select_convs inode.surjective inode.update_convs(11))

lemma kept_trans: "kept s t ip \<Longrightarrow> kept t u ip \<Longrightarrow> kept s u ip"
  by (simp add: kept_def)

definition written :: "'a fsys_scheme \<Rightarrow> 'a fsys_scheme \<Rightarrow> nat \<Rightarrow> nat \<Rightarrow> u8 list \<Rightarrow> bool" where
  "written s s' ip off bs \<longleftrightarrow>
     (\<forall>x < MAXBYTES. if off \<le> x \<and> x < off + length bs then fbyte s' ip x = Some (bs ! (x - off))
        else \<forall>v. fbyte s ip x = Some v \<longrightarrow> fbyte s' ip x = Some v)"

lemma written_append:
  assumes "written s t ip off bs" "written t u ip (off + length bs) cs"
  shows "written s u ip off (bs @ cs)"
  unfolding written_def
proof (intro allI impI)
  fix x :: nat
  assume x: "x < MAXBYTES"
  have 1: "if off \<le> x \<and> x < off + length bs then fbyte t ip x = Some (bs ! (x - off)) else \<forall>v. fbyte s ip x = Some v \<longrightarrow> fbyte t ip x = Some v"
    using assms(1) x unfolding written_def by blast
  have 2: "if off + length bs \<le> x \<and> x < off + length bs + length cs then fbyte u ip x = Some (cs ! (x - (off + length bs)))
      else \<forall>v. fbyte t ip x = Some v \<longrightarrow> fbyte u ip x = Some v"
    using assms(2) x unfolding written_def by blast
  show "if off \<le> x \<and> x < off + length (bs @ cs) then fbyte u ip x = Some ((bs @ cs) ! (x - off))
      else \<forall>v. fbyte s ip x = Some v \<longrightarrow> fbyte u ip x = Some v"
    using 1 2 by (auto simp: nth_append split: if_splits)
qed

lemma block_split:
  obtains q r where "(x :: nat) = q * BSIZE + r" "r < BSIZE" "x div BSIZE = q" "x mod BSIZE = r"
proof
  show "x = x div BSIZE * BSIZE + x mod BSIZE" by (rule div_mult_mod_eq[symmetric])
qed simp_all

lemma same_block:
  assumes "off \<le> x" "x < off + l" "off mod BSIZE + l \<le> BSIZE"
  shows "x div BSIZE = off div BSIZE \<and> off mod BSIZE \<le> x mod BSIZE \<and> x mod BSIZE < off mod BSIZE + l \<and>
    x mod BSIZE - off mod BSIZE = x - off"
proof -
  obtain q r where o: "off = q * BSIZE + r" "r < BSIZE" "off div BSIZE = q" "off mod BSIZE = r" by (rule block_split)
  obtain p t where x: "x = p * BSIZE + t" "t < BSIZE" "x div BSIZE = p" "x mod BSIZE = t" by (rule block_split)
  have "\<not> p < q" "\<not> q < p" using assms o x by simp_all
  then have "p = q" by simp
  then show ?thesis using assms o(1) x(1) unfolding o(3,4) x(3,4) by simp
qed

lemma outside_block:
  assumes "\<not> (off \<le> x \<and> x < off + l)" "x div BSIZE = off div BSIZE"
  shows "\<not> (off mod BSIZE \<le> x mod BSIZE \<and> x mod BSIZE < off mod BSIZE + l)"
proof -
  obtain q r where o: "off = q * BSIZE + r" "r < BSIZE" "off div BSIZE = q" "off mod BSIZE = r" by (rule block_split)
  obtain p t where x: "x = p * BSIZE + t" "t < BSIZE" "x div BSIZE = p" "x mod BSIZE = t" by (rule block_split)
  show ?thesis using assms o(1) x(1) unfolding o(3,4) x(3,4) by simp
qed

text \<open>One round of the loop of \<^verbatim>\<open>writei\<close>: the block for \<open>off\<close> is found or added, and a part of it is overwritten.\<close>

lemma write_chunk:
  assumes ok: "inode_ok s ip" and o: "1 \<le> fs_outstanding s" and bmp: "bmap ip (off div BSIZE) s = Inr (addr, s1)" and off: "off < MAXBYTES"
    and bs: "off mod BSIZE + length bs \<le> BSIZE"
  defines "dev \<equiv> i_dev (inode_of s1 ip)"
  defines "s' \<equiv> set_block dev addr (splice (fs_blocks s1 dev addr) (off mod BSIZE) bs) s1"
  shows "inode_ok s' ip" "written s s' ip off bs" "kept s s' ip"
proof -
  let ?bn = "off div BSIZE" and ?d = "splice (fs_blocks s1 dev addr) (off mod BSIZE) bs"
  have bn: "?bn < MAXFILE" by (rule block_of_pos[OF off])
  have B: "inode_ok s1 ip" "grows s s1 ip" "blk s1 ip (place ?bn) = addr" "addr \<noteq> 0"
    using bmap_ok[OF ok o bn] bmp by auto
  have len: "length (fs_blocks s1 dev addr) = BSIZE"
    using inode_okD(8)[OF B(1), of "place ?bn"] B(3,4) place_bound[OF bn] by (simp add: data_block_def dev_def)
  then have ld: "length ?d = BSIZE" using bs by simp
  note S = store_block_ok[OF B(1) bn B(3,4) ld, folded dev_def, folded s'_def]
  show "inode_ok s' ip" by (rule S(1))
  show "kept s s' ip"
    by (rule kept_trans[OF grows_kept[OF B(2)]]) (simp add: kept_def s'_def set_block_def)
  show "written s s' ip off bs"
    unfolding written_def
  proof (intro allI impI)
    fix x :: nat
    assume x: "x < MAXBYTES"
    note Sx = S(2)[OF x]
    have xm: "x mod BSIZE < BSIZE" by simp
    have nth: "?d ! (x mod BSIZE) = (if off mod BSIZE \<le> x mod BSIZE \<and> x mod BSIZE < off mod BSIZE + length bs
        then bs ! (x mod BSIZE - off mod BSIZE) else fs_blocks s1 dev addr ! (x mod BSIZE))"
      using bs len xm by (intro nth_splice) simp_all
    show "if off \<le> x \<and> x < off + length bs then fbyte s' ip x = Some (bs ! (x - off))
        else \<forall>v. fbyte s ip x = Some v \<longrightarrow> fbyte s' ip x = Some v"
    proof (cases "off \<le> x \<and> x < off + length bs")
      case True
      then show ?thesis using same_block[OF _ _ bs] Sx nth by simp
    next
      case False
      have "fbyte s' ip x = Some v" if "fbyte s ip x = Some v" for v
      proof (cases "x div BSIZE = ?bn")
        case True
        have "fbyte s1 ip x = Some v" by (rule grows_fbyte[OF B(2) that x])
        then have "v = fs_blocks s1 dev addr ! (x mod BSIZE)" using True B(3,4) by (simp add: fbyte_def Let_def dev_def)
        then show ?thesis using Sx nth outside_block[OF False True] True by simp
      next
        case ne: False
        then show ?thesis using Sx grows_fbyte[OF B(2) that x] by simp
      qed
      with False show ?thesis by auto
    qed
  qed
qed

lemma chunk_size:
  fixes off :: nat
  assumes "tot < (n :: nat)"
  defines "m \<equiv> min (n - tot) (BSIZE - off mod BSIZE)"
  shows "0 < m" "m \<le> n - tot" "off mod BSIZE + m \<le> BSIZE"
proof -
  have "off mod BSIZE < BSIZE" by simp
  then show "0 < m" "m \<le> n - tot" "off mod BSIZE + m \<le> BSIZE" using assms(1) unfolding m_def by linarith+
qed

lemma writei_loop_ok:
  assumes "inode_ok s ip" "1 \<le> fs_outstanding s" "tot \<le> n" "off + (n - tot) \<le> MAXBYTES" "unat src + (n - tot) \<le> length obj"
    "unat src + (n - tot) < 2 ^ 64"
  shows "writei_loop (obj_in obj) ip src off n tot s = oob \<or>
    (\<exists>s'. writei_loop (obj_in obj) ip src off n tot s = Inr ((n, off + (n - tot)), s') \<and> inode_ok s' ip \<and> kept s s' ip \<and>
       written s s' ip off (take (n - tot) (drop (unat src) obj)))"
  using assms
proof (induction "n - tot" arbitrary: s src off tot rule: less_induct)
  case less
  show ?case
  proof (cases "tot < n")
    case False
    then have "writei_loop (obj_in obj) ip src off n tot s = Inr ((n, off + (n - tot)), s)"
      using less.prems(3) by (subst writei_loop.simps) simp
    then show ?thesis using less.prems(1,3) False by (auto simp: kept_def written_def)
  next
    case True
    define m where "m = min (n - tot) (BSIZE - off mod BSIZE)"
    note m = chunk_size[OF True, of off, folded m_def]
    define bs where "bs = take m (drop (unat src) obj)"
    have lb: "length bs = m" using less.prems(5) m by (simp add: bs_def)
    have off: "off < MAXBYTES" using less.prems(4) True by simp
    consider "bmap ip (off div BSIZE) s = oob" | addr s1 where "bmap ip (off div BSIZE) s = Inr (addr, s1)" "grows s s1 ip"
      using bmap_ok[OF less.prems(1,2) block_of_pos[OF off]] by blast
    then show ?thesis
    proof cases
      case 1
      then show ?thesis using True by (subst (1 2) writei_loop.simps) simp
    next
      case (2 addr s1)
      let ?dev = "i_dev (inode_of s1 ip)"
      define s3 where "s3 = set_block ?dev addr (splice (fs_blocks s1 ?dev addr) (off mod BSIZE) bs) s1"
      have C: "inode_ok s3 ip" "written s s3 ip off bs" "kept s s3 ip"
        unfolding s3_def by (rule write_chunk[OF less.prems(1,2) 2(1) off]; use m lb in simp)+
      have o1: "\<not> fs_outstanding s1 < 1" using 2(2) less.prems(2) unfolding grows_def by simp
      have run: "writei_loop (obj_in obj) ip src off n tot s = writei_loop (obj_in obj) ip (src + of_nat m) (off + m) n (tot + m) s3"
        using True 2(1) o1
        by (subst writei_loop.simps) (simp add: Let_def m_def[symmetric] obj_in_def kmon_defs fs_log_write_def bs_def[symmetric] s3_def)
      have us: "unat (src + of_nat m) = unat src + m"
        using less.prems(6) m by (simp add: unat_word_ariths unat_of_nat)
      have "writei_loop (obj_in obj) ip (src + of_nat m) (off + m) n (tot + m) s3 = oob \<or>
        (\<exists>s'. writei_loop (obj_in obj) ip (src + of_nat m) (off + m) n (tot + m) s3 = Inr ((n, off + m + (n - (tot + m))), s') \<and>
           inode_ok s' ip \<and> kept s3 s' ip \<and> written s3 s' ip (off + m) (take (n - (tot + m)) (drop (unat (src + of_nat m)) obj)))"
        by (rule less.hyps) (use m True less.prems C us in \<open>simp_all add: kept_def\<close>)
      moreover have "off + m + (n - (tot + m)) = off + (n - tot)" using m by simp
      moreover have "take (n - tot) (drop (unat src) obj) = bs @ take (n - (tot + m)) (drop (unat (src + of_nat m)) obj)"
        using m unfolding bs_def us by (metis (no_types, lifting) add.commute diff_diff_left drop_drop le_add_diff_inverse take_add)
      ultimately show ?thesis
        unfolding run using written_append[OF C(2)] kept_trans[OF C(3)] lb by metis
    qed
  qed
qed

text \<open>Reading bytes that have blocks changes nothing and returns them.\<close>

lemma readi_loop_ok:
  assumes "inode_ok s ip" "tot \<le> n" "off + (n - tot) \<le> MAXBYTES" "\<forall>x. off \<le> x \<and> x < off + (n - tot) \<longrightarrow> fbyte s ip x \<noteq> None"
  shows "readi_loop obj_out ip dst off n tot acc s =
    Inr ((int n, acc @ map (\<lambda>x. the (fbyte s ip x)) [off..<off + (n - tot)]), s)"
  using assms(2-4)
proof (induction "n - tot" arbitrary: dst off tot acc rule: less_induct)
  case less
  show ?case
  proof (cases "tot < n")
    case False
    then show ?thesis using less.prems(1) by (subst readi_loop.simps) simp
  next
    case True
    define m where "m = min (n - tot) (BSIZE - off mod BSIZE)"
    note m = chunk_size[OF True, of off, folded m_def]
    let ?addr = "blk s ip (place (off div BSIZE))" and ?dev = "i_dev (inode_of s ip)"
    have off: "off < MAXBYTES" using less.prems(2) True by simp
    note bn = block_of_pos[OF off]
    have "fbyte s ip off \<noteq> None" using less.prems(3) True by simp
    then have a: "?addr \<noteq> 0" by (auto simp: fbyte_def Let_def)
    define bs where "bs = take m (drop (off mod BSIZE) (fs_blocks s ?dev ?addr))"
    have "length (fs_blocks s ?dev ?addr) = BSIZE"
      using inode_okD(8)[OF assms(1), of "place (off div BSIZE)"] a place_bound[OF bn] by (simp add: data_block_def)
    then have lb: "length bs = m" and nth: "i < m \<Longrightarrow> bs ! i = fs_blocks s ?dev ?addr ! (off mod BSIZE + i)" for i
      using m by (simp_all add: bs_def)
    have bs: "bs = map (\<lambda>x. the (fbyte s ip x)) [off..<off + m]"
    proof (rule nth_equalityI)
      fix i
      assume "i < length bs"
      then have i: "i < m" using lb by simp
      have sb: "(off + i) div BSIZE = off div BSIZE" "off mod BSIZE \<le> (off + i) mod BSIZE" "(off + i) mod BSIZE - off mod BSIZE = i"
        using same_block[of off "off + i" m] m i by simp_all
      then have "(off + i) mod BSIZE = off mod BSIZE + i" by (metis le_add_diff_inverse)
      then show "bs ! i = map (\<lambda>x. the (fbyte s ip x)) [off..<off + m] ! i" using i nth a sb(1) by (simp add: fbyte_def Let_def)
    qed (simp add: lb)
    have "readi_loop obj_out ip dst off n tot acc s = readi_loop obj_out ip (dst + of_nat m) (off + m) n (tot + m) (acc @ bs) s"
      using True bmap_lookup[OF assms(1) bn a]
      by (subst readi_loop.simps) (simp add: Let_def m_def[symmetric] obj_out_def kmon_defs bs_def[symmetric])
    also have "\<dots> = Inr ((int n, (acc @ bs) @ map (\<lambda>x. the (fbyte s ip x)) [off + m..<off + m + (n - (tot + m))]), s)"
      by (rule less.hyps) (use m True less.prems in auto)
    also have "off + m + (n - (tot + m)) = off + (n - tot)" using m by simp
    also have "(acc @ bs) @ map (\<lambda>x. the (fbyte s ip x)) [off + m..<off + (n - tot)] =
        acc @ map (\<lambda>x. the (fbyte s ip x)) [off..<off + (n - tot)]"
    proof -
      have "[off..<off + (n - tot)] = [off..<off + m] @ [off + m..<off + (n - tot)]"
        using upt_add_eq_append[of off "off + m" "n - tot - m"] m by simp
      then show ?thesis by (simp only: bs map_append append_assoc)
    qed
    finally show ?thesis .
  qed
qed

definition set_isize :: "nat \<Rightarrow> u32 \<Rightarrow> 'a fsys_scheme \<Rightarrow> 'a fsys_scheme" where
  "set_isize ip v s = s\<lparr>fs_itable := (fs_itable s)[ip := (inode_of s ip)\<lparr>i_size := v\<rparr>]\<rparr>"

lemma set_isize_ok:
  assumes "inode_ok s ip"
  shows "inode_ok (set_isize ip v s) ip" "fbyte (set_isize ip v s) ip x = fbyte s ip x"
    "inode_of (set_isize ip v s) ip = (inode_of s ip)\<lparr>i_size := v\<rparr>" "fs_outstanding (set_isize ip v s) = fs_outstanding s"
proof -
  let ?s = "set_isize ip v s"
  show i: "inode_of ?s ip = (inode_of s ip)\<lparr>i_size := v\<rparr>" using inode_okD(1)[OF assms] by (simp add: set_isize_def)
  have f: "fs_blocks ?s = fs_blocks s" "fs_sb ?s = fs_sb s" "length (fs_itable ?s) = length (fs_itable s)"
    by (simp_all add: set_isize_def)
  have b: "blk ?s ip k = blk s ip k" for k by (simp add: blk_def Let_def i f)
  have "used ?s dev c = used s dev c" "bitmap_block ?s c = bitmap_block s c" "bitmap_ok ?s dev = bitmap_ok s dev" for dev c
    by (simp_all add: used_def bitmap_block_def bitmap_ok_def f)
  then have "inode_ok ?s ip = inode_ok s ip" by (simp add: inode_ok_def data_block_def b f i)
  then show "inode_ok ?s ip" using assms by simp
  show "fbyte ?s ip x = fbyte s ip x" by (simp add: fbyte_def Let_def b f i)
  show "fs_outstanding ?s = fs_outstanding s" by (simp add: set_isize_def)
qed

lemma iupdate_ok:
  assumes ok: "inode_ok s ip" and o: "1 \<le> fs_outstanding s"
  shows "\<exists>s'. iupdate ip s = Inr ((), s') \<and> inode_ok s' ip \<and> fs_itable s' = fs_itable s \<and> (\<forall>x < MAXBYTES. fbyte s' ip x = fbyte s ip x)"
proof -
  let ?dev = "i_dev (inode_of s ip)" and ?n = "iblock s ip"
  define d where "d = put_dinode (fs_blocks s ?dev ?n) (unat (i_inum (inode_of s ip)) mod IPB) (dinode_of (inode_of s ip))"
  define s' where "s' = set_block ?dev ?n d s"
  have run: "iupdate ip s = Inr ((), s')"
    using o by (simp add: iupdate_def get_inode_def kmon_defs fs_bread_def fs_log_write_def s'_def d_def)
  have f: "fs_itable s' = fs_itable s" "fs_sb s' = fs_sb s" by (simp_all add: s'_def set_block_def)
  have nb: "\<forall>c < bsize s. bitmap_block s c \<noteq> ?n" using inode_okD(7)[OF ok] by force
  have bm: "bitmap_ok s' ?dev" unfolding s'_def by (rule zero_block_ok[OF inode_okD(3)[OF ok] nb])
  have us: "used s' ?dev c" if "c < bsize s" "used s ?dev c" for c
    using zero_block_used[OF inode_okD(3)[OF ok] nb that(1)] that(2) by (simp add: s'_def)
  have keep: "fs_blocks s' ?dev (blk s ip k) = fs_blocks s ?dev (blk s ip k)" if "k < 269" "blk s ip k \<noteq> 0" for k
    using inode_okD(8)[OF ok that] by (simp add: s'_def set_block_apply data_block_def)
  have F: "inode_ok s' ip" "\<And>k. k < 269 \<Longrightarrow> blk s' ip k = blk s ip k"
    by (rule inode_ok_frame[OF ok f bm us]; simp add: keep)+
  have "fbyte s' ip x = fbyte s ip x" if "x < MAXBYTES" for x
    using F(2)[of "place (x div BSIZE)"] keep[of "place (x div BSIZE)"] place_bound[OF block_of_pos[OF that]]
    by (simp add: fbyte_def Let_def f)
  then show ?thesis using run F(1) f(1) by blast
qed

definition contents :: "'a fsys_scheme \<Rightarrow> nat \<Rightarrow> u8 list" where
  "contents s ip = map (\<lambda>x. the (fbyte s ip x)) [0..<unat (i_size (inode_of s ip))]"

definition file_ok :: "'a fsys_scheme \<Rightarrow> nat \<Rightarrow> bool" where
  "file_ok s ip \<longleftrightarrow> inode_ok s ip \<and> unat (i_size (inode_of s ip)) \<le> MAXBYTES \<and>
     (\<forall>x < unat (i_size (inode_of s ip)). fbyte s ip x \<noteq> None)"

text \<open>The new contents and size of a file into which \<open>bs\<close> has been written.\<close>

lemma written_contents:
  assumes w: "written s s' ip off bs" and f: "file_ok s ip" "inode_ok s' ip" and off: "off \<le> unat (i_size (inode_of s ip))"
    and mx: "off + length bs \<le> MAXBYTES" and sz: "unat (i_size (inode_of s' ip)) = max (unat (i_size (inode_of s ip))) (off + length bs)"
  shows "file_ok s' ip" "contents s' ip = take off (contents s ip) @ bs @ drop (off + length bs) (contents s ip)"
    "\<And>i. i < length bs \<Longrightarrow> fbyte s' ip (off + i) = Some (bs ! i)"
proof -
  let ?z = "unat (i_size (inode_of s ip))"
  have z: "?z \<le> MAXBYTES" "\<And>x. x < ?z \<Longrightarrow> \<exists>v. fbyte s ip x = Some v" using f(1) unfolding file_ok_def by blast+
  have W: "if off \<le> x \<and> x < off + length bs then fbyte s' ip x = Some (bs ! (x - off)) else \<forall>v. fbyte s ip x = Some v \<longrightarrow> fbyte s' ip x = Some v"
    if "x < MAXBYTES" for x using w that unfolding written_def by blast
  show in1: "fbyte s' ip (off + i) = Some (bs ! i)" if "i < length bs" for i using W[of "off + i"] that mx by simp
  have out: "fbyte s' ip x = fbyte s ip x" if q: "x < ?z" "\<not> (off \<le> x \<and> x < off + length bs)" for x
  proof -
    obtain v where "fbyte s ip x = Some v" using z(2)[OF q(1)] by blast
    then show ?thesis using W[of x] q z(1) by simp
  qed
  have "fbyte s' ip x \<noteq> None" if "x < max ?z (off + length bs)" for x
  proof (cases "off \<le> x \<and> x < off + length bs")
    case True
    then have "x - off < length bs" "off + (x - off) = x" by auto
    then show ?thesis using in1[of "x - off"] by simp
  next
    case False
    then have "x < ?z" using that off by auto
    then show ?thesis using out[OF _ False] z(2) by auto
  qed
  then show "file_ok s' ip" using f(2) z(1) mx unfolding file_ok_def sz by simp
  show "contents s' ip = take off (contents s ip) @ bs @ drop (off + length bs) (contents s ip)"
  proof (rule nth_equalityI)
    show "length (contents s' ip) = length (take off (contents s ip) @ bs @ drop (off + length bs) (contents s ip))"
      using off by (simp add: contents_def sz)
    fix x
    assume "x < length (contents s' ip)"
    then have x: "x < max ?z (off + length bs)" by (simp add: contents_def sz)
    consider "x < off" | "off \<le> x" "x < off + length bs" | "off + length bs \<le> x" by linarith
    then show "contents s' ip ! x = (take off (contents s ip) @ bs @ drop (off + length bs) (contents s ip)) ! x"
    proof cases
      case 1
      then show ?thesis using out[of x] off x by (simp add: contents_def sz nth_append)
    next
      case 2
      then obtain i where i: "x = off + i" "i < length bs" using le_Suc_ex by fastforce
      then show ?thesis using in1[OF i(2)] off x by (simp add: contents_def sz nth_append)
    next
      case 3
      then have "x < ?z" "\<not> x < off" "\<not> x - off < length bs" "off + length bs + (x - off - length bs) = x" using x by auto
      then show ?thesis using out[of x] 3 off x by (simp add: contents_def sz nth_append)
    qed
  qed
qed

text \<open>After the loop, \<open>writei\<close> extends the size where the write passed the old end, and writes the inode back.\<close>

lemma writei_run:
  assumes "file_ok s ip" "1 \<le> fs_outstanding s" "off \<le> i_size (inode_of s ip)" "length bs = unat n" "unat off + unat n \<le> MAXBYTES"
  shows "writei (obj_in bs) ip 0 off n s = oob \<or> (\<exists>s'. writei (obj_in bs) ip 0 off n s = Inr (int (unat n), s') \<and>
    inode_ok s' ip \<and> written s s' ip (unat off) bs \<and>
    unat (i_size (inode_of s' ip)) = max (unat (i_size (inode_of s ip))) (unat off + length bs) \<and>
    i_type (inode_of s' ip) = i_type (inode_of s ip))"
proof -
  have ok: "inode_ok s ip" using assms(1) by (simp add: file_ok_def)
  have no: "unat (off + n) = unat off + unat n" using assms(5) by (simp add: unat_word_ariths)
  then have guard: "\<not> (off > i_size (inode_of s ip) \<or> off + n < off)" "\<not> unat (off + n) > MAXFILE * BSIZE"
    using assms(3,5) by (simp_all add: word_less_nat_alt word_le_nat_alt not_less)
  have n64: "unat n < 2 ^ 64" using unsigned_less[of n, where 'a = nat] by simp
  note L = writei_loop_ok[OF ok assms(2), of 0 "unat n" "unat off" 0 bs]
  show ?thesis
  proof (cases "writei_loop (obj_in bs) ip 0 (unat off) (unat n) 0 s = oob")
    case True
    then show ?thesis using guard by (simp add: writei_def get_inode_def kmon_defs)
  next
    case False
    then obtain s1 where s1: "writei_loop (obj_in bs) ip 0 (unat off) (unat n) 0 s = Inr ((unat n, unat off + unat n), s1)"
      "inode_ok s1 ip" "kept s s1 ip" "written s s1 ip (unat off) bs"
      using L assms(4,5) n64 by auto
    define v where "v = (if i_size (inode_of s ip) < off + n then off + n else i_size (inode_of s ip))"
    note S = set_isize_ok[OF s1(2), of v]
    have sz: "i_size (inode_of s1 ip) = i_size (inode_of s ip)" "fs_outstanding s1 = fs_outstanding s"
      using s1(3) by (simp_all add: kept_def)
    obtain s2 where s2: "iupdate ip (set_isize ip v s1) = Inr ((), s2)" "inode_ok s2 ip" "fs_itable s2 = fs_itable (set_isize ip v s1)"
      "\<forall>x < MAXBYTES. fbyte s2 ip x = fbyte (set_isize ip v s1) ip x"
      using iupdate_ok[OF S(1)] S(4) sz(2) assms(2) by auto
    have "writei (obj_in bs) ip 0 off n s = Inr (int (unat n), s2)"
    proof (cases "i_size (inode_of s ip) < off + n")
      case True
      then have "unat (i_size (inode_of s ip)) < unat off + unat n" "of_nat (unat off + unat n) = v"
        using no by (simp_all add: word_less_nat_alt v_def)
      then show ?thesis using guard s1(1) s2(1) sz(1)
        by (simp add: writei_def get_inode_def upd_inode_def kmon_defs set_isize_def)
    next
      case False
      then have "\<not> unat (i_size (inode_of s ip)) < unat off + unat n" "v = i_size (inode_of s1 ip)"
        using no sz(1) by (simp_all add: word_less_nat_alt v_def)
      moreover from this(2) have "set_isize ip v s1 = s1" by (simp add: set_isize_def)
      ultimately show ?thesis using guard s1(1) s2(1) sz(1)
        by (simp add: writei_def get_inode_def kmon_defs)
    qed
    moreover have "written s s2 ip (unat off) bs" using s1(4) s2(4) S(2) by (simp add: written_def)
    moreover have "unat (i_size (inode_of s2 ip)) = max (unat (i_size (inode_of s ip))) (unat off + length bs)"
      using S(3) s2(3) no assms(4) by (auto simp: v_def word_less_nat_alt)
    moreover have "i_type (inode_of s2 ip) = i_type (inode_of s ip)" using S(3) s2(3) s1(3) by (simp add: kept_def)
    ultimately show ?thesis using s2(2) by blast
  qed
qed

lemma readi_back:
  assumes "file_ok s ip" "unat off + unat n \<le> unat (i_size (inode_of s ip))" "length bs = unat n"
    "\<And>i. i < length bs \<Longrightarrow> fbyte s ip (unat off + i) = Some (bs ! i)"
  shows "readi obj_out ip dst off n s = Inr ((int (unat n), bs), s)"
proof -
  have ok: "inode_ok s ip" "unat (i_size (inode_of s ip)) \<le> MAXBYTES" "\<And>x. x < unat (i_size (inode_of s ip)) \<Longrightarrow> fbyte s ip x \<noteq> None"
    using assms(1) by (simp_all add: file_ok_def)
  have no: "unat (off + n) = unat off + unat n" using assms(2) ok(2) by (simp add: unat_word_ariths)
  then have guard: "\<not> (off > i_size (inode_of s ip) \<or> off + n < off)" "\<not> off + n > i_size (inode_of s ip)"
    using assms(2) by (simp_all add: word_less_nat_alt not_less)
  have "map (\<lambda>x. the (fbyte s ip x)) [unat off..<unat off + unat n] = bs"
    by (rule nth_equalityI) (use assms(3,4) in simp_all)
  then have "readi_loop obj_out ip dst (unat off) (unat n) 0 [] s = Inr ((int (unat n), bs), s)"
    using readi_loop_ok[OF ok(1), of 0 "unat n" "unat off" dst "[]"] ok(2,3) assms(2) by simp
  then show ?thesis using guard by (simp add: readi_def get_inode_def kmon_defs)
qed


text \<open>A disk of four blocks: the bitmap in block 1, the inodes in block 2, and a file of two bytes in block 3.\<close>

definition ex_file :: fsys where
  "ex_file = \<lparr>km_mem = \<lambda>_. 0, km_freelist = 0, km_end = 0,
     fs_blocks = \<lambda>dev n. if n = 1 then 15 # replicate 1023 0 else if n = 3 then 5 # 6 # replicate 1022 0 else replicate 1024 0,
     fs_sb = \<lparr>sb_magic = FSMAGIC, sb_size = 4, sb_nblocks = 1, sb_ninodes = 2, sb_nlog = 0, sb_logstart = 2, sb_inodestart = 2,
              sb_bmapstart = 1\<rparr>,
     fs_outstanding = 1,
     fs_itable = [\<lparr>i_dev = 1, i_inum = 1, i_ref = 1, i_lock = initsleeplock, i_valid = True, i_type = 2, i_major = 0, i_minor = 0,
       i_nlink = 1, i_size = 2, i_addrs = 3 # replicate 12 0\<rparr>]\<rparr>"

lemma ex_file_used: "b < 4 \<Longrightarrow> used ex_file 1 b"
  by (drule below_4) (elim disjE; simp add: used_def bm_def ex_file_def bitmap_block_def BBLOCK_def)

lemma ex_file_bitmap: "b < 4 \<Longrightarrow> bitmap_block ex_file b = 1"
  by (drule below_4) (elim disjE; simp add: bitmap_block_def BBLOCK_def ex_file_def)

lemma ex_file_sel [simp]:
  "bsize ex_file = 4" "i_dev (inode_of ex_file 0) = 1" "iblock ex_file 0 = 2" "length (fs_blocks ex_file 1 n) = BSIZE"
  "i_size (inode_of ex_file 0) = 2" "i_addrs (inode_of ex_file 0) = 3 # replicate 12 0" "length (fs_itable ex_file) = 1"
  "fs_outstanding ex_file = 1" "unat (sb_bmapstart (fs_sb ex_file)) = 1"
  by (simp_all add: ex_file_def IBLOCK_def)

lemma ex_file_blk: "blk ex_file 0 k = (if k = 0 then 3 else 0)" if "k < 269"
  using that by (simp add: blk_def Let_def nth_Cons')

lemma ex_file_ok: "file_ok ex_file 0"
proof -
  have "bitmap_ok ex_file 1" using ex_file_bitmap ex_file_used[of 1] by (simp add: bitmap_ok_def)
  then have "inode_ok ex_file 0"
    using ex_file_used ex_file_bitmap by (auto simp: inode_ok_def data_block_def ex_file_blk)
  moreover have "fbyte ex_file 0 x \<noteq> None" if "x < 2" for x
    using that by (simp add: fbyte_def Let_def place_def ex_file_blk)
  ultimately show ?thesis by (simp add: file_ok_def)
qed

lemma ex_file_run: "writei (obj_in [7, 8]) 0 0 1 2 ex_file \<noteq> Inl (Panic ''balloc: out of blocks'')"
proof -
  have "bmap 0 0 ex_file = Inr (3, ex_file)"
    using bmap_lookup[of ex_file 0 0] ex_file_ok by (simp add: file_ok_def place_def ex_file_blk)
  then show ?thesis
    by (simp add: writei_def get_inode_def kmon_defs iupdate_def fs_bread_def fs_log_write_def upd_inode_def obj_in_def Let_def
        writei_loop.simps[of _ _ _ "Suc 0" 2 0] writei_loop.simps[of _ _ _ _ 2 "Suc (Suc 0)"] split: if_splits)
qed


end
