(* ===== verification/Directory.thy ===== *)
theory Directory
  imports Contents
begin

text \<open>
  Directories and path names of \<^verbatim>\<open>src/kernel/fs.c\<close>. The contents of a directory are a list of entries, and
  what the list means is a map from names to inode numbers: \<^verbatim>\<open>dirlookup\<close> reads the map and \<^verbatim>\<open>dirlink\<close>
  extends it. \<^verbatim>\<open>skipelem\<close> takes a path apart into the elements that are looked up.
\<close>

subsection \<open>Names\<close>

text \<open>A directory entry holds the bytes of a name before its terminator, at most \<^verbatim>\<open>DIRSIZ\<close> of them.\<close>

definition prefix :: "nat \<Rightarrow> cbuf \<Rightarrow> u8 list" where
  "prefix n name = takeWhile (\<lambda>c. c \<noteq> 0) (map name [0..<n])"

abbreviation dname :: "cbuf \<Rightarrow> u8 list" where
  "dname \<equiv> prefix DIRSIZ"

lemma prefix_Suc: "prefix (Suc n) p = (if p 0 \<noteq> 0 then p 0 # prefix n (\<lambda>i. p (Suc i)) else [])"
  by (simp add: prefix_def upt_rec[of 0] map_Suc_upt[symmetric] comp_def del: map_Suc_upt upt_Suc)

lemma strncmp_prefix: "strncmp p q n = 0 \<longleftrightarrow> prefix n p = prefix n q"
proof (induction n arbitrary: p q)
  case 0
  then show ?case by (simp add: prefix_def)
next
  case (Suc n)
  then show ?case by (auto simp: prefix_Suc uint_0_iff)
qed

lemma namecmp_iff: "namecmp s t = 0 \<longleftrightarrow> dname s = dname t"
  unfolding namecmp_def by (rule strncmp_prefix)

lemma prefix_eq: "(\<And>i. i < n \<Longrightarrow> (\<forall>j < i. p j \<noteq> 0) \<Longrightarrow> p i = q i) \<Longrightarrow> prefix n p = prefix n q"
  unfolding strncmp_prefix[symmetric] strncmp_eq_0_iff by blast

subsection \<open>Entries\<close>

definition entry_of :: "u8 list \<Rightarrow> u16 \<times> u8 list" where
  "entry_of de = (de_inum de, dname (de_name de))"

definition chunks :: "u8 list \<Rightarrow> u8 list list" where
  "chunks c = map (\<lambda>k. take 16 (drop (16 * k) c)) [0..<length c div 16]"

definition entries :: "'a fsys_scheme \<Rightarrow> nat \<Rightarrow> (u16 \<times> u8 list) list" where
  "entries s dp = map entry_of (chunks (contents s dp))"

text \<open>The entry that \<^verbatim>\<open>dirlink\<close> writes.\<close>

lemma entry_of_mk: "entry_of (mk_dirent inum (strncpy b name (int DIRSIZ))) = (inum, dname name)"
proof -
  let ?de = "mk_dirent inum (strncpy b name (int DIRSIZ))"
  have "de_inum ?de = inum"
    using unsigned_less[of inum, where 'a = nat] by (simp add: de_inum_def mk_dirent_def get_def le_val_le_bytes)
  moreover have "dname name = dname (de_name ?de)"
  proof (rule prefix_eq)
    fix i
    assume "i < DIRSIZ" "\<forall>j < i. name j \<noteq> 0"
    then show "name i = de_name ?de i" by (simp add: de_name_def cstr_def mk_dirent_def strncpy_apply zfree_def)
  qed
  ultimately show ?thesis by (simp add: entry_of_def)
qed

lemma chunks_length [simp]: "length (chunks c) = length c div 16"
  by (simp add: chunks_def)

lemma chunks_nth: "k < length c div 16 \<Longrightarrow> chunks c ! k = take 16 (drop (16 * k) c)"
  by (simp add: chunks_def)

text \<open>Replacing one entry of a directory, or adding one at its end.\<close>

lemma chunks_replace:
  assumes "length c = 16 * n" "k \<le> n" "length de = 16"
  shows "chunks (take (16 * k) c @ de @ drop (16 * k + 16) c) = (if k < n then (chunks c)[k := de] else chunks c @ [de])"
proof (rule nth_equalityI)
  let ?c = "take (16 * k) c @ de @ drop (16 * k + 16) c"
  have len: "length ?c = 16 * (if k < n then n else Suc n)" using assms by auto
  then show "length (chunks ?c) = length (if k < n then (chunks c)[k := de] else chunks c @ [de])" using assms(1) by simp
  fix i
  assume "i < length (chunks ?c)"
  then have i: "i < (if k < n then n else Suc n)" using len by simp
  then have l: "chunks ?c ! i = take 16 (drop (16 * i) ?c)" using len by (intro chunks_nth) simp
  consider "i < k" | "i = k" | "k < i" by linarith
  then show "chunks ?c ! i = (if k < n then (chunks c)[k := de] else chunks c @ [de]) ! i"
  proof cases
    case 1
    then have "take 16 (drop (16 * i) ?c) = take 16 (drop (16 * i) c)" using assms by (simp add: take_drop min_def)
    then show ?thesis using 1 i l assms by (simp add: chunks_nth nth_append)
  next
    case 2
    then show ?thesis using i l assms by (simp add: nth_append)
  next
    case 3
    then obtain d where d: "i = Suc (k + d)" using less_iff_Suc_add by auto
    then have "take 16 (drop (16 * i) ?c) = take 16 (drop (16 * i) c)" using assms by (simp add: algebra_simps)
    moreover have "k < n" "i < n" using 3 i assms(2) by (auto split: if_splits)
    ultimately show ?thesis using 3 l assms by (simp add: chunks_nth)
  qed
qed

text \<open>
  A directory in good order is a file of whole entries. What it stands for is a map: a name is bound by the
  first entry in use that carries it.
\<close>

definition dir_ok :: "'a fsys_scheme \<Rightarrow> nat \<Rightarrow> bool" where
  "dir_ok s dp \<longleftrightarrow> file_ok s dp \<and> i_type (inode_of s dp) = T_DIR \<and> 16 dvd unat (i_size (inode_of s dp))"

definition binding :: "(u16 \<times> u8 list) list \<Rightarrow> u8 list \<rightharpoonup> u16" where
  "binding es = map_of (map (\<lambda>(i, n). (n, i)) (filter (\<lambda>(i, n). i \<noteq> 0) es))"

definition dir_map :: "'a fsys_scheme \<Rightarrow> nat \<Rightarrow> u8 list \<rightharpoonup> u16" where
  "dir_map s dp = binding (entries s dp)"

lemma binding_Cons: "binding ((i, n) # es) x = (if i \<noteq> 0 \<and> n = x then Some i else binding es x)"
  by (simp add: binding_def)

lemma binding_append: "binding (xs @ ys) = binding ys ++ binding xs"
  by (simp add: binding_def)

lemma binding_nil: "binding [] = Map.empty"
  by (simp add: binding_def)

text \<open>Where the name is not bound, its new entry may go into any slot that is free, or to the end.\<close>

lemma binding_insert:
  assumes "binding es n = None" "i \<noteq> 0"
  shows "k < length es \<Longrightarrow> fst (es ! k) = 0 \<Longrightarrow> binding (es[k := (i, n)]) = (binding es)(n \<mapsto> i)"
    and "binding (es @ [(i, n)]) = (binding es)(n \<mapsto> i)"
proof -
  show "binding (es @ [(i, n)]) = (binding es)(n \<mapsto> i)"
    using assms by (auto simp: binding_append binding_Cons binding_nil map_add_def fun_eq_iff split: option.splits)
  assume k: "k < length es" "fst (es ! k) = 0"
  define xs ys where "xs = take k es" and "ys = drop (Suc k) es"
  obtain m where m: "es ! k = (0, m)" using k(2) by (cases "es ! k") auto
  have es: "es = xs @ (0, m) # ys" using id_take_nth_drop[OF k(1)] m by (simp add: xs_def ys_def)
  have up: "es[k := (i, n)] = xs @ (i, n) # ys" using k(1) by (simp add: xs_def ys_def upd_conv_take_nth_drop)
  have "binding es = binding ys ++ binding xs" unfolding es by (auto simp: binding_append binding_Cons fun_eq_iff map_add_def split: option.split)
  then show "binding (es[k := (i, n)]) = (binding es)(n \<mapsto> i)"
    using assms unfolding up by (auto simp: binding_append binding_Cons map_add_def fun_eq_iff split: option.splits)
qed

subsection \<open>Reading entries\<close>

lemma readi_contents:
  assumes "file_ok s ip" "unat off + unat n \<le> unat (i_size (inode_of s ip))"
  shows "readi obj_out ip dst off n s = Inr ((int (unat n), take (unat n) (drop (unat off) (contents s ip))), s)"
proof (rule readi_back[OF assms])
  have len: "length (contents s ip) = unat (i_size (inode_of s ip))" by (simp add: contents_def)
  then show l: "length (take (unat n) (drop (unat off) (contents s ip))) = unat n" using assms(2) by simp
  fix i
  assume "i < length (take (unat n) (drop (unat off) (contents s ip)))"
  then have i: "unat off + i < unat (i_size (inode_of s ip))" "i < unat n" using l assms(2) by simp_all
  then have "fbyte s ip (unat off + i) \<noteq> None" using assms(1) by (simp add: file_ok_def)
  then show "fbyte s ip (unat off + i) = Some (take (unat n) (drop (unat off) (contents s ip)) ! i)"
    using i len by (auto simp: contents_def)
qed

lemma dir_okD:
  assumes "dir_ok s dp"
  shows "length (contents s dp) = 16 * length (entries s dp)" "unat (i_size (inode_of s dp)) = 16 * length (entries s dp)"
    "16 * length (entries s dp) \<le> MAXBYTES" "file_ok s dp" "i_type (inode_of s dp) = T_DIR"
  using assms by (auto simp: dir_ok_def entries_def contents_def file_ok_def)

lemma read_entry:
  assumes "dir_ok s dp" "k < length (entries s dp)"
  shows "\<exists>de. readi obj_out dp 0 (of_nat (16 * k)) 16 s = Inr ((16, de), s) \<and> entry_of de = entries s dp ! k"
proof -
  note D = dir_okD[OF assms(1)]
  have u: "unat (of_nat (16 * k) :: u32) = 16 * k" using assms(2) D(3) by (simp add: unat_of_nat del: of_nat_mult)
  have "readi obj_out dp 0 (of_nat (16 * k)) 16 s = Inr ((16, take 16 (drop (16 * k) (contents s dp))), s)"
    using readi_contents[OF D(4), of "of_nat (16 * k)" 16 0] assms(2) unfolding u D(2) by simp
  moreover have "entry_of (take 16 (drop (16 * k) (contents s dp))) = entries s dp ! k"
    using assms(2) by (simp add: entries_def chunks_nth)
  ultimately show ?thesis by blast
qed

abbreviation slots :: "nat \<Rightarrow> nat \<Rightarrow> u32 list" where
  "slots k n \<equiv> map (\<lambda>k. of_nat (16 * k)) [k..<n]"

lemma slots_Cons: "k < n \<Longrightarrow> slots k n = of_nat (16 * k) # slots (Suc k) n"
  by (simp add: upt_conv_Cons)

lemma de_offsets_slots: "dir_ok s dp \<Longrightarrow> de_offsets 0 (i_size (inode_of s dp)) = slots 0 (length (entries s dp))"
  using dir_okD(2)[of s dp] by (simp add: de_offsets_def)

lemma kbind_get_inode: "kbind (get_inode ip) f s = f (inode_of s ip) s"
  by (simp add: kbind_def get_inode_def kget_def)

lemma dirlookup_loop_finds:
  assumes "dir_ok s dp" "k \<le> length (entries s dp)"
  shows "case binding (drop k (entries s dp)) (dname name) of
      None \<Rightarrow> dirlookup_loop dp name (slots k (length (entries s dp))) s = Inr (None, s)
    | Some i \<Rightarrow> \<exists>off. dirlookup_loop dp name (slots k (length (entries s dp))) s =
        kbind (iget (i_dev (inode_of s dp)) (ucast i)) (\<lambda>ip. kret (Some (ip, off))) s"
  using assms(2)
proof (induction "length (entries s dp) - k" arbitrary: k)
  case 0
  then show ?case by (simp add: binding_nil kret_def)
next
  case (Suc d)
  then have k: "k < length (entries s dp)" by simp
  obtain de where r: "readi obj_out dp 0 (of_nat (16 * k)) 16 s = Inr ((16, de), s)" "entry_of de = entries s dp ! k"
    using read_entry[OF assms(1) k] by blast
  then have e: "drop k (entries s dp) = (de_inum de, dname (de_name de)) # drop (Suc k) (entries s dp)"
    using k by (simp add: entry_of_def Cons_nth_drop_Suc)
  note IH = Suc.hyps(1)[of "Suc k"]
  show ?case
  proof (cases "de_inum de \<noteq> 0 \<and> dname (de_name de) = dname name")
    case True
    then show ?thesis using r(1) unfolding slots_Cons[OF k] e
      by (auto simp: binding_Cons namecmp_iff kbind_get_inode kbind_def[of "readi _ _ _ _ _"] simp del: of_nat_mult)
  next
    case False
    then have "dirlookup_loop dp name (slots k (length (entries s dp))) s = dirlookup_loop dp name (slots (Suc k) (length (entries s dp))) s"
      using r(1) unfolding slots_Cons[OF k] by (auto simp: namecmp_iff kbind_def[of "readi _ _ _ _ _"] simp del: of_nat_mult)
    then show ?thesis using IH Suc.hyps(2) k False unfolding e by (auto simp: binding_Cons split: option.splits)
  qed
qed

lemma dirlookup_map:
  assumes "dir_ok s dp"
  shows "case dir_map s dp (dname name) of None \<Rightarrow> dirlookup dp name s = Inr (None, s)
    | Some i \<Rightarrow> \<exists>off. dirlookup dp name s = kbind (iget (i_dev (inode_of s dp)) (ucast i)) (\<lambda>ip. kret (Some (ip, off))) s"
proof -
  have run: "dirlookup dp name s = dirlookup_loop dp name (slots 0 (length (entries s dp))) s"
    using dir_okD(5)[OF assms] by (simp add: dirlookup_def kbind_get_inode de_offsets_slots[OF assms] del: of_nat_mult)
  show ?thesis using dirlookup_loop_finds[OF assms, of 0 name] unfolding dir_map_def run drop_0 by simp
qed

subsection \<open>Adding an entry\<close>

text \<open>The first free slot, or the end of the directory.\<close>

definition free_slot :: "(u16 \<times> u8 list) list \<Rightarrow> nat" where
  "free_slot es = length (takeWhile (\<lambda>(i, n). i \<noteq> 0) es)"

lemma dirlink_slot_finds:
  assumes "dir_ok s dp" "k \<le> length (entries s dp)"
  shows "dirlink_slot dp (of_nat (16 * k)) (slots k (length (entries s dp))) s =
    Inr (of_nat (16 * (k + free_slot (drop k (entries s dp)))), s)"
  using assms(2)
proof (induction "length (entries s dp) - k" arbitrary: k)
  case 0
  then show ?case by (simp add: free_slot_def kret_def)
next
  case (Suc d)
  then have k: "k < length (entries s dp)" by simp
  obtain de where r: "readi obj_out dp 0 (of_nat (16 * k)) 16 s = Inr ((16, de), s)" "entry_of de = entries s dp ! k"
    using read_entry[OF assms(1) k] by blast
  then have e: "drop k (entries s dp) = (de_inum de, dname (de_name de)) # drop (Suc k) (entries s dp)"
    using k by (simp add: entry_of_def Cons_nth_drop_Suc)
  have w: "of_nat (16 * k) + 16 = (of_nat (16 * Suc k) :: u32)" by simp
  have "dirlink_slot dp (of_nat (16 * Suc k)) (slots (Suc k) (length (entries s dp))) s =
    Inr (of_nat (16 * (Suc k + free_slot (drop (Suc k) (entries s dp)))), s)"
    using Suc.hyps(1)[of "Suc k"] Suc.hyps(2) k by simp
  then show ?case using r(1) unfolding slots_Cons[OF k] e
    by (simp add: free_slot_def kbind_def kret_def w del: of_nat_mult)
qed

lemma free_slot_free: "free_slot es \<le> length es" "free_slot es < length es \<Longrightarrow> fst (es ! free_slot es) = 0"
  using nth_length_takeWhile[of "\<lambda>(i, n). i \<noteq> 0" es] length_takeWhile_le[of "\<lambda>(i, n). i \<noteq> 0" es]
  by (auto simp: free_slot_def)

lemma write_entry:
  assumes "dir_ok s dp" "1 \<le> fs_outstanding s" "k \<le> length (entries s dp)" "16 * k + 16 \<le> MAXBYTES" "length de = 16"
  shows "writei (obj_in de) dp 0 (of_nat (16 * k)) 16 s = oob \<or>
    (\<exists>s'. writei (obj_in de) dp 0 (of_nat (16 * k)) 16 s = Inr (16, s') \<and> dir_ok s' dp \<and>
       entries s' dp = (if k < length (entries s dp) then (entries s dp)[k := entry_of de] else entries s dp @ [entry_of de]))"
proof -
  note D = dir_okD[OF assms(1)]
  let ?n = "length (entries s dp)"
  have u: "unat (of_nat (16 * k) :: u32) = 16 * k" using assms(4) by (simp add: unat_of_nat del: of_nat_mult)
  have le: "of_nat (16 * k) \<le> i_size (inode_of s dp)" unfolding word_le_nat_alt u D(2) using assms(3) by simp
  have "writei (obj_in de) dp 0 (of_nat (16 * k)) 16 s = oob \<or> (\<exists>s'. writei (obj_in de) dp 0 (of_nat (16 * k)) 16 s = Inr (16, s') \<and>
    inode_ok s' dp \<and> written s s' dp (16 * k) de \<and> unat (i_size (inode_of s' dp)) = max (16 * ?n) (16 * k + 16) \<and>
    i_type (inode_of s' dp) = T_DIR)"
    using writei_run[OF D(4) assms(2) le, of de 16] assms(4,5) D(2,5) unfolding u by simp
  moreover have "dir_ok s' dp \<and> entries s' dp = (if k < ?n then (entries s dp)[k := entry_of de] else entries s dp @ [entry_of de])"
    if s': "inode_ok s' dp" "written s s' dp (16 * k) de" "unat (i_size (inode_of s' dp)) = max (16 * ?n) (16 * k + 16)"
      "i_type (inode_of s' dp) = T_DIR" for s'
  proof -
    have "file_ok s' dp \<and> contents s' dp = take (16 * k) (contents s dp) @ de @ drop (16 * k + 16) (contents s dp)"
      using written_contents(1,2)[OF s'(2) D(4) s'(1)] s'(3) assms(3,4,5) D(2) by simp
    moreover have "16 dvd max (16 * ?n) (16 * k + 16)" by (simp add: max_def)
    moreover have "chunks (take (16 * k) (contents s dp) @ de @ drop (16 * k + 16) (contents s dp)) =
      (if k < ?n then (chunks (contents s dp))[k := de] else chunks (contents s dp) @ [de])"
      by (rule chunks_replace[OF D(1) assms(3,5)])
    ultimately show ?thesis using s'(3,4) by (simp add: dir_ok_def entries_def map_update)
  qed
  ultimately show ?thesis by blast
qed

text \<open>A \<^verbatim>\<open>dirlink\<close> of a name that is not bound is the write of its entry to the first free slot.\<close>

lemma dirlink_run:
  fixes inum :: u32
  assumes "dir_ok s dp" "dir_map s dp (dname name) = None"
  defines "de \<equiv> mk_dirent (ucast inum) (strncpy (\<lambda>_. 0) name (int DIRSIZ))"
  shows "dirlink pid dp name inum s =
    kbind (writei (obj_in de) dp 0 (of_nat (16 * free_slot (entries s dp))) 16) (\<lambda>w. if w \<noteq> 16 then panic ''dirlink'' else kret 0) s"
proof -
  have look: "dirlookup dp name s = Inr (None, s)" using dirlookup_map[OF assms(1), of name] assms(2) by simp
  have slot: "dirlink_slot dp 0 (de_offsets 0 (i_size (inode_of s dp))) s = Inr (of_nat (16 * free_slot (entries s dp)), s)"
    using dirlink_slot_finds[OF assms(1), of 0] by (simp add: de_offsets_slots[OF assms(1)])
  show ?thesis
    using look slot by (simp add: dirlink_def kbind_def[of "dirlookup _ _"] kbind_def[of "dirlink_slot _ _ _"] kbind_get_inode de_def Let_def)
qed

text \<open>
  C0: A directory is a map from names to inode numbers. On a directory whose file is in good order,
  \<^verbatim>\<open>dirlookup\<close> finds exactly the bound names (compared up to their terminator or fourteen bytes) and
  takes a reference to the inode of the first entry that binds it. Where the name is not bound,
  \<^verbatim>\<open>dirlink\<close> panics for lack of blocks or binds the name to the inode number, leaves every
  other name as it was, and keeps the directory in good order.
\<close>

theorem directory_map:
  fixes s :: "'a fsys_scheme"
  assumes "dir_ok s dp" "1 \<le> fs_outstanding s" "unat (i_size (inode_of s dp)) + 16 \<le> MAXBYTES" "ucast inum \<noteq> (0 :: u16)"
  shows "case dir_map s dp (dname name) of
      Some i \<Rightarrow> \<exists>off. dirlookup dp name s = kbind (iget (i_dev (inode_of s dp)) (ucast i)) (\<lambda>ip. kret (Some (ip, off))) s
    | None \<Rightarrow> dirlookup dp name s = Inr (None, s) \<and>
        (dirlink pid dp name inum s = Inl (Panic ''balloc: out of blocks'') \<or>
         (\<exists>s'. dirlink pid dp name inum s = Inr (0, s') \<and> dir_ok s' dp \<and> dir_map s' dp = (dir_map s dp)(dname name \<mapsto> ucast inum)))"
proof (cases "dir_map s dp (dname name)")
  case (Some i)
  then show ?thesis using dirlookup_map[OF assms(1), of name] by simp
next
  case None
  define k where "k = free_slot (entries s dp)"
  define de where "de = mk_dirent (ucast inum) (strncpy (\<lambda>_. 0) name (int DIRSIZ))"
  have look: "dirlookup dp name s = Inr (None, s)" using dirlookup_map[OF assms(1), of name] None by simp
  note run = dirlink_run[OF assms(1) None, where inum = inum, folded de_def k_def]
  have e: "entry_of de = (ucast inum, dname name)" "length de = 16"
    unfolding de_def by (rule entry_of_mk) (simp add: mk_dirent_def)
  have k: "k \<le> length (entries s dp)" "16 * k + 16 \<le> MAXBYTES" "k < length (entries s dp) \<Longrightarrow> fst (entries s dp ! k) = 0"
    using free_slot_free[of "entries s dp"] assms(3) dir_okD(2)[OF assms(1)] by (simp_all add: k_def)
  have "dir_map s' dp = (dir_map s dp)(dname name \<mapsto> ucast inum)"
    if "entries s' dp = (if k < length (entries s dp) then (entries s dp)[k := entry_of de] else entries s dp @ [entry_of de])" for s' :: "'a fsys_scheme"
    using that binding_insert[OF None[unfolded dir_map_def] assms(4)] k(3) by (simp add: dir_map_def e(1))
  then show ?thesis using write_entry[OF assms(1,2) k(1,2) e(2)] look None unfolding run by (auto simp: kbind_def kret_def)
qed

text \<open>The disk of \<open>ex_file\<close> with a directory of one entry, which binds \<^verbatim>\<open>a\<close> to inode 5, in block 3.\<close>

definition ex_dir :: fsys where
  "ex_dir = ex_file\<lparr>
     fs_blocks := \<lambda>dev n. if n = 1 then 15 # replicate 1023 0 else if n = 3 then 5 # 0 # 97 # replicate 1021 0 else replicate 1024 0,
     fs_itable := [(inode_of ex_file 0)\<lparr>i_type := T_DIR, i_size := 16\<rparr>]\<rparr>"

lemma ex_dir_fields:
  "bsize ex_dir = 4" "i_dev (inode_of ex_dir 0) = 1" "iblock ex_dir 0 = 2" "length (fs_blocks ex_dir 1 n) = BSIZE"
  "i_size (inode_of ex_dir 0) = 16" "i_addrs (inode_of ex_dir 0) = 3 # replicate 12 0" "length (fs_itable ex_dir) = 1"
  "fs_outstanding ex_dir = 1" "unat (sb_bmapstart (fs_sb ex_dir)) = 1" "i_type (inode_of ex_dir 0) = T_DIR"
  by (simp_all add: ex_dir_def ex_file_def IBLOCK_def)

lemma ex_dir_blk: "blk ex_dir 0 k = (if k = 0 then 3 else 0)" if "k < 269"
  using that by (simp add: blk_def Let_def nth_Cons' ex_dir_fields)

lemma ex_dir_used: "b < 4 \<Longrightarrow> used ex_dir 1 b" "b < 4 \<Longrightarrow> bitmap_block ex_dir b = 1"
  using ex_file_used[of b] ex_file_bitmap[of b] by (simp_all add: used_def bitmap_block_def ex_dir_def ex_file_def)

lemma ex_dir_ok: "dir_ok ex_dir 0"
proof -
  have "bitmap_ok ex_dir 1" using ex_dir_used(2) ex_dir_used(1)[of 1] by (simp add: bitmap_ok_def ex_dir_fields)
  then have "inode_ok ex_dir 0"
    using ex_dir_used by (auto simp: inode_ok_def data_block_def ex_dir_blk ex_dir_fields)
  moreover have "fbyte ex_dir 0 x \<noteq> None" if "x < 16" for x
    using that by (simp add: fbyte_def Let_def place_def ex_dir_blk)
  ultimately show ?thesis by (simp add: dir_ok_def file_ok_def ex_dir_fields)
qed

lemma ex_dir_contents: "contents ex_dir 0 = 5 # 0 # 97 # replicate 13 0"
proof -
  have "map (\<lambda>x. the (fbyte ex_dir 0 x)) [0..<16] = take 16 (fs_blocks ex_dir 1 3)"
    by (rule nth_equalityI) (simp_all add: fbyte_def Let_def place_def ex_dir_blk ex_dir_fields)
  then show ?thesis by (simp add: contents_def ex_dir_fields) (simp add: ex_dir_def)
qed

lemma ex_dir_entries: "entries ex_dir 0 = [(5, [97])]"
  unfolding entries_def ex_dir_contents by code_simp

lemma ex_dir_link: "dirlink 1 0 (cstr [98]) 6 ex_dir \<noteq> Inl (Panic ''balloc: out of blocks'')"
proof -
  have "dir_map ex_dir 0 (dname (cstr [98])) = None" unfolding dir_map_def ex_dir_entries by code_simp
  note run = dirlink_run[OF ex_dir_ok this, of 1 6]
  have "free_slot (entries ex_dir 0) = 1" by (simp add: ex_dir_entries free_slot_def)
  moreover have "bmap 0 0 ex_dir = Inr (3, ex_dir)"
    using bmap_lookup[of ex_dir 0 0] ex_dir_ok by (simp add: dir_ok_def file_ok_def place_def ex_dir_blk)
  ultimately show ?thesis unfolding run
    by (simp add: ex_dir_fields writei_def get_inode_def kmon_defs iupdate_def fs_bread_def fs_log_write_def upd_inode_def obj_in_def Let_def
        mk_dirent_def writei_loop.simps[of _ _ _ 16 16 0] writei_loop.simps[of _ _ _ _ 16 16] split: if_splits)
qed

theorem directory_map_witness:
  "\<exists>s'. dirlink 1 0 (cstr [98]) 6 ex_dir = Inr (0, s') \<and> dir_map s' 0 = [[97] \<mapsto> 5, [98] \<mapsto> 6]"
proof -
  have n: "dname (cstr [98]) = [98]" by code_simp
  have m: "dir_map ex_dir 0 = [[97] \<mapsto> 5]" by (simp add: dir_map_def ex_dir_entries binding_def)
  have "\<exists>s'. dirlink 1 0 (cstr [98]) 6 ex_dir = Inr (0, s') \<and> dir_map s' 0 = (dir_map ex_dir 0)(dname (cstr [98]) \<mapsto> 6)"
    using directory_map[OF ex_dir_ok, of 6 "cstr [98]" 1] ex_dir_link m n by (auto simp: ex_dir_fields)
  then show ?thesis unfolding m n by simp
qed

subsection \<open>Path names\<close>

text \<open>The elements of a path: what lies between slashes, where that is not empty.\<close>

fun split_on :: "u8 \<Rightarrow> u8 list \<Rightarrow> u8 list list" where
  "split_on x [] = [[]]"
| "split_on x (c # cs) = (if c = x then [] # split_on x cs else (c # hd (split_on x cs)) # tl (split_on x cs))"

definition components :: "u8 list \<Rightarrow> u8 list list" where
  "components path = filter (\<lambda>e. e \<noteq> []) (split_on slash path)"

lemma components_slash: "components (dropWhile (\<lambda>c. c = slash) path) = components path"
  by (induction path) (simp_all add: components_def)

lemma split_on_nonempty: "split_on x cs \<noteq> []"
  by (cases cs) auto

lemma split_on_append: "x \<notin> set e \<Longrightarrow> split_on x (e @ p) = (e @ hd (split_on x p)) # tl (split_on x p)"
  using split_on_nonempty[of x p] by (induction e) auto

lemma components_first:
  assumes "slash \<notin> set e" "e \<noteq> []" "p = [] \<or> hd p = slash"
  shows "components (e @ p) = e # components p"
  using assms split_on_append[OF assms(1), of p] by (cases p) (auto simp: components_def)

lemma components_none: "components path = [] \<longleftrightarrow> dropWhile (\<lambda>c. c = slash) path = []"
proof -
  let ?p = "dropWhile (\<lambda>c. c = slash) path"
  have "components ?p = [] \<longleftrightarrow> ?p = []"
  proof (cases ?p)
    case (Cons c cs)
    then have "c \<noteq> slash" using hd_dropWhile[of "\<lambda>c. c = slash" path] by auto
    then show ?thesis using Cons by (simp add: components_def)
  next
    case Nil
    show ?thesis unfolding Nil by (simp add: components_def)
  qed
  then show ?thesis by (simp add: components_slash)
qed

text \<open>The name buffer holds the element, cut off at \<^verbatim>\<open>DIRSIZ\<close> bytes.\<close>

lemma prefix_buf_write: "0 \<notin> set s \<Longrightarrow> length s = n \<Longrightarrow> prefix n (buf_write b s) = s"
proof -
  assume s: "0 \<notin> set s" "length s = n"
  have "map (buf_write b s) [0..<n] = s" by (rule nth_equalityI) (simp_all add: s buf_write_def)
  then show ?thesis using s by (simp add: prefix_def takeWhile_eq_all_conv) (metis)
qed

lemma prefix_terminated: "0 \<notin> set s \<Longrightarrow> length s < n \<Longrightarrow> prefix n ((buf_write b s)(length s := 0)) = s"
proof -
  assume s: "0 \<notin> set s" "length s < n"
  let ?b = "(buf_write b s)(length s := 0)"
  have "[0..<n] = [0..<length s] @ length s # [Suc (length s)..<n]"
    using s(2) by (metis upt_add_eq_append upt_conv_Cons le0 le_add_diff_inverse less_imp_le)
  moreover have "map ?b [0..<length s] = s" by (rule nth_equalityI) (simp_all add: buf_write_def)
  ultimately have "map ?b [0..<n] = s @ 0 # map ?b [Suc (length s)..<n]" by simp
  moreover have "\<forall>c \<in> set s. c \<noteq> 0" using s(1) by metis
  ultimately show ?thesis by (simp add: prefix_def takeWhile_append2)
qed

text \<open>
  C0: \<^verbatim>\<open>skipelem\<close> takes a path apart into its elements, whatever runs of slashes it has: it returns
  nothing exactly on a path without elements, and otherwise leaves the first element, cut to fourteen bytes,
  in the name buffer and returns a path with the remaining elements, which is empty exactly when the
  element was the last. So the loop of \<^verbatim>\<open>namex\<close> looks up one element after the other, and
  \<^verbatim>\<open>nameiparent\<close> stops one before the end.
\<close>

theorem skipelem_components:
  assumes "0 \<notin> set path"
  shows "case components path of
      [] \<Rightarrow> skipelem path name = None
    | e # es \<Rightarrow> \<exists>path' name'. skipelem path name = Some (path', name') \<and> dname name' = take DIRSIZ e \<and>
        components path' = es \<and> (path' = [] \<longleftrightarrow> es = [])"
proof (cases "dropWhile (\<lambda>c. c = slash) path = []")
  case True
  then show ?thesis using components_none[of path] by (simp add: skipelem_def)
next
  case False
  define p1 s p2 where "p1 = dropWhile (\<lambda>c. c = slash) path" and "s = takeWhile (\<lambda>c. c \<noteq> slash) p1"
    and "p2 = dropWhile (\<lambda>c. c \<noteq> slash) p1"
  have p1: "p1 \<noteq> []" "hd p1 \<noteq> slash" using False hd_dropWhile[OF False] by (simp_all add: p1_def)
  then have s: "s \<noteq> []" "slash \<notin> set s" by (cases p1, auto simp: s_def dest: set_takeWhileD)
  have z: "0 \<notin> set s" using assms by (auto simp: s_def p1_def dest!: set_takeWhileD set_dropWhileD)
  have "p2 = [] \<or> hd p2 = slash" using hd_dropWhile[of "\<lambda>c. c \<noteq> slash" p1] by (auto simp: p2_def)
  then have c: "components path = s # components p2"
    using components_first[OF s(2,1), of p2] components_slash[of path] takeWhile_dropWhile_id[of "\<lambda>c. c \<noteq> slash" p1]
    unfolding p1_def[symmetric] s_def[symmetric] p2_def[symmetric] by metis
  let ?n = "if length s \<ge> DIRSIZ then buf_write name (take DIRSIZ s) else (buf_write name s)(length s := 0)"
  have "skipelem path name = Some (dropWhile (\<lambda>c. c = slash) p2, ?n)"
    using p1(1) by (simp add: skipelem_def Let_def p1_def[symmetric] s_def[symmetric] p2_def[symmetric])
  moreover have "0 \<notin> set (take DIRSIZ s)" using z by (meson in_set_takeD)
  then have "dname ?n = take DIRSIZ s"
    using z prefix_buf_write[of "take DIRSIZ s" DIRSIZ name] prefix_terminated[of s DIRSIZ name] by auto
  moreover have "components (dropWhile (\<lambda>c. c = slash) p2) = components p2" by (rule components_slash)
  moreover have "dropWhile (\<lambda>c. c = slash) p2 = [] \<longleftrightarrow> components p2 = []" using components_none[of p2] by simp
  ultimately show ?thesis unfolding c by simp
qed

text \<open>The path \<^verbatim>\<open>//a/bb\<close>, whose first element is \<^verbatim>\<open>a\<close>.\<close>

theorem skipelem_components_witness:
  "\<exists>path' name'. skipelem [47, 47, 97, 47, 98, 98] (\<lambda>_. 7) = Some (path', name') \<and> dname name' = [97] \<and>
     components path' = [[98, 98]] \<and> path' \<noteq> []"
proof -
  have "components [47, 47, 97, 47, 98, 98] = [[97], [98, 98]]" by (simp add: components_def)
  then show ?thesis using skipelem_components[of "[47, 47, 97, 47, 98, 98]" "\<lambda>_. 7"] by simp
qed

end
