(* ===== verification/Spec2Isabelle.thy ===== *)
theory Spec2Isabelle
  imports Riscv KString Pipe Spinlock Kalloc Vmtree Recovery Transactions Lottery ShPrint ShRun Grep Umalloc Device Directory
begin

text \<open>
  Verification of the xv6 kernel variant in \<^verbatim>\<open>src/\<close>.
\<close>

end
